(* ===== verification/Prelude.thy ===== *)
theory Prelude
  imports Main "HOL-Library.Word" "HOL-Library.Monad_Syntax"
begin

unbundle bit_operations_syntax

text \<open>
  Shared vocabulary of the development: the machine integer types of the C sources, the
  result type of operations that may have undefined behaviour, bounds-checked array
  accesses, masks by a power of two, and generic list facts.

  Every C operation is a function into \<open>'a option\<close>: \<^const>\<open>None\<close> is an execution
  the C standard gives no meaning to (an access outside an array or outside the allocated
  memory, a call of \<^verbatim>\<open>unreachable()\<close>) or one that never returns; \<^const>\<open>Some\<close> carries the
  result together with the new state. A theorem that an operation yields \<^const>\<open>Some\<close> is thus
  a theorem that it is memory safe and terminates.
\<close>

type_synonym u8 = "8 word"
type_synonym u32 = "32 word"
type_synonym u64 = "64 word"

text \<open>Rewriting of word expressions to natural numbers, and of the option monad.\<close>

named_theorems word_nat \<open>word operations read as natural numbers\<close>
named_theorems ub_simps \<open>bounds-checked accesses that succeed\<close>


section \<open>Bounds-checked arrays\<close>

definition rd :: "'a list \<Rightarrow> u64 \<Rightarrow> 'a option" where
  "rd xs i = (if unat i < length xs then Some (xs ! unat i) else None)"

definition wr :: "'a list \<Rightarrow> u64 \<Rightarrow> 'a \<Rightarrow> 'a list option" where
  "wr xs i v = (if unat i < length xs then Some (xs[unat i := v]) else None)"

lemma rd_in [ub_simps, simp]: "unat i < length xs \<Longrightarrow> rd xs i = Some (xs ! unat i)"
  by (simp add: rd_def)

lemma wr_in [ub_simps, simp]: "unat i < length xs \<Longrightarrow> wr xs i v = Some (xs[unat i := v])"
  by (simp add: wr_def)

lemma rd_SomeD: "rd xs i = Some x \<Longrightarrow> unat i < length xs \<and> x = xs ! unat i"
  by (auto simp: rd_def split: if_splits)

lemma wr_SomeD: "wr xs i v = Some ys \<Longrightarrow> unat i < length xs \<and> ys = xs[unat i := v]"
  by (auto simp: wr_def split: if_splits)

text \<open>\<^verbatim>\<open>unreachable()\<close> of C23 and other conditions whose violation is undefined.\<close>

definition ensure :: "bool \<Rightarrow> unit option" where
  "ensure b = (if b then Some () else None)"

lemma ensure_simps [simp]: "ensure True = Some ()" "ensure False = None"
  by (simp_all add: ensure_def)

lemma ensure_eq_Some [simp]: "ensure b = Some u \<longleftrightarrow> b"
  by (simp add: ensure_def)


section \<open>Powers of two and masks\<close>

text \<open>A table size, as the comment in \<^verbatim>\<open>linear_probing.h\<close> requires it.\<close>

definition pow2_size :: "u64 \<Rightarrow> bool" where
  "pow2_size n \<longleftrightarrow> (\<exists>k\<in>set [0..<64]. n = 2 ^ k)"

lemma pow2_sizeI: "k < 64 \<Longrightarrow> n = 2 ^ k \<Longrightarrow> pow2_size n"
  by (auto simp: pow2_size_def)

lemma unat_two_power [word_nat]: "k < 64 \<Longrightarrow> unat (2 ^ k :: u64) = 2 ^ k"
  using unat_of_nat [of "2 ^ k", where 'a = 64]
  by (simp add: power_strict_increasing [of k 64 "2 :: nat", simplified])

lemma unat_uminus [word_nat]: "unat (- b :: u64) = (2 ^ 64 - unat b) mod 2 ^ 64"
proof (cases "b = 0")
  case False
  have "(unat b + unat (- b)) mod 2 ^ 64 = 0"
    using unat_word_ariths(1) [of b "- b"] by simp
  then obtain c where c: "unat b + unat (- b) = 2 ^ 64 * c" by blast
  have "unat b < 2 ^ 64" "unat (- b) < 2 ^ 64" "0 < unat b"
    using unsigned_less [of b] unsigned_less [of "- b"] False
    by (simp_all add: unat_gt_0)
  then have "c = 1" using c by (cases c) auto
  then have "unat (- b) = 2 ^ 64 - unat b" using c by simp
  then show ?thesis using \<open>0 < unat b\<close> by simp
qed simp

lemma pow2_sizeE:
  assumes "pow2_size n"
  obtains k where "k < 64" "n = 2 ^ k" "unat n = 2 ^ k"
proof -
  from assms obtain k where k: "k < 64" "n = 2 ^ k"
    by (auto simp: pow2_size_def)
  then have "unat n = 2 ^ k"
    by (simp add: unat_two_power)
  with k show ?thesis by (rule that)
qed

lemma pow2_size_pos: "pow2_size n \<Longrightarrow> 0 < unat n"
  by (elim pow2_sizeE) simp

lemma pow2_size_dvd: "pow2_size n \<Longrightarrow> unat n dvd 2 ^ 64"
  by (elim pow2_sizeE) (simp only: le_imp_power_dvd)

lemma unat_and_mask [word_nat]:
  assumes "pow2_size n"
  shows "unat (x AND (n - 1)) = unat x mod unat n"
proof -
  from assms obtain k where k: "n = 2 ^ k" "unat n = 2 ^ k"
    by (rule pow2_sizeE)
  have "x AND (n - 1) = take_bit k x"
    by (simp add: k(1) take_bit_eq_mask mask_eq_exp_minus_1)
  then show ?thesis
    by (simp only: k(2) unsigned_take_bit_eq) (simp add: take_bit_eq_mod)
qed

lemma unat_add_mask [word_nat]:
  assumes "pow2_size n"
  shows "unat ((a + b) AND (n - 1)) = (unat a + unat b) mod unat n"
proof -
  have "unat (a + b) mod unat n = ((unat a + unat b) mod 2 ^ 64) mod unat n"
    by (simp add: unat_word_ariths)
  also have "\<dots> = (unat a + unat b) mod unat n"
    using pow2_size_dvd [OF assms] by (rule mod_mod_cancel)
  finally show ?thesis by (simp add: unat_and_mask [OF assms])
qed

lemma unat_sub_mask [word_nat]:
  assumes n: "pow2_size n" and b: "unat b < unat n"
  shows "unat ((a - b) AND (n - 1)) = (unat a + unat n - unat b) mod unat n"
proof -
  obtain c where c: "2 ^ 64 = unat n * c"
    using pow2_size_dvd [OF n] by (elim dvdE)
  have "a - b = a + (- b)" by simp
  then have "unat ((a - b) AND (n - 1)) = (unat a + unat (- b)) mod unat n"
    by (simp only: unat_add_mask [OF n])
  also have "unat (- b) mod unat n = (2 ^ 64 - unat b) mod unat n"
    using pow2_size_dvd [OF n] by (simp only: unat_uminus mod_mod_cancel)
  then have "(unat a + unat (- b)) mod unat n = (unat a + (2 ^ 64 - unat b)) mod unat n"
    by (metis mod_add_right_eq)
  also have "c \<noteq> 0" using c by (intro notI) simp
  then have "2 ^ 64 - unat b = (unat n - unat b) + unat n * (c - 1)"
    using b c by (cases c) (simp_all add: algebra_simps)
  then have "(unat a + (2 ^ 64 - unat b)) mod unat n = (unat a + (unat n - unat b)) mod unat n"
    by (simp add: add.assoc [symmetric])
  finally show ?thesis using b by simp
qed

lemma unat_of_nat_small [word_nat]: "k < 2 ^ 64 \<Longrightarrow> unat (of_nat k :: u64) = k"
  by (simp add: unat_of_nat)

lemma unat_ucast_u64 [word_nat]: "unat (ucast (x :: u32) :: u64) = unat x"
proof -
  have "unat x < 2 ^ 64" using unsigned_less [of x, where 'a = nat] by simp
  then show ?thesis by (simp add: unsigned_ucast_eq take_bit_nat_eq_self)
qed

lemma ucast_u64_eq_0: "(ucast (x :: u32) :: u64) = 0 \<longleftrightarrow> unat x = 0"
  using unat_ucast_u64 [of x] by (simp only: flip: unat_eq_0)

lemma unat_Suc_less: "i < (n :: u64) \<Longrightarrow> unat (i + 1) = Suc (unat i)"
  by unat_arith


text \<open>32-bit words read as signed numbers.\<close>

lemma sint_u32: "sint (x :: u32) = (uint x + 2 ^ 31) mod 2 ^ 32 - 2 ^ 31"
  by (simp add: sint_uint signed_take_bit_eq_take_bit_shift take_bit_eq_mod)

lemma sless_zero_u32: "0 <s x \<longleftrightarrow> 0 < unat x \<and> unat x < 2 ^ 31" for x :: u32
proof -
  have b: "0 \<le> uint x" "uint x < 2 ^ 32" using uint_bounded [of x] by simp_all
  have "0 < (k + 2 ^ 31) mod 2 ^ 32 - 2 ^ 31 \<longleftrightarrow> 0 < k \<and> k < 2 ^ 31" if "0 \<le> k" "k < 2 ^ 32" for k :: int
    using that by (cases "k < 2 ^ 31") (simp_all add: mod_pos_geq)
  then have "0 <s x \<longleftrightarrow> 0 < uint x \<and> uint x < 2 ^ 31"
    unfolding word_sless_alt sint_u32 [of x] using b(1,2) by simp
  then show ?thesis by (simp only: unat_eq_nat_uint zero_less_nat_eq nat_less_iff [OF b(1)] of_nat_power of_nat_numeral)
qed

lemma xor_sign_bit: "x XOR 0x80000000 = x + (0x80000000 :: u32)"
proof -
  have clear: "y XOR 0x80000000 = y + (0x80000000 :: u32)" if "\<not> bit y 31" for y
  proof -
    have "y AND 2 ^ 31 = 0" using that by (simp only: and_exp_eq_0_iff_not_bit not_False_eq_True)
    then have "y AND 0x80000000 = 0" by simp
    then show ?thesis by (rule disjunctive_add_eq_xor [symmetric])
  qed
  show ?thesis
  proof (cases "bit x 31")
    case True
    define y where "y = x XOR 0x80000000"
    have "\<not> bit (x XOR push_bit 31 1) 31" using True by (simp add: bit_xor_iff bit_push_bit_iff)
    then have "\<not> bit y 31" by (simp add: y_def)
    from clear [OF this] have "y + 0x80000000 = y XOR 0x80000000" by (rule sym)
    also have "\<dots> = x" unfolding y_def by (simp only: xor.assoc xor_self_eq xor.right_neutral)
    finally have "x = y + 0x80000000" by (rule sym)
    moreover have "(y + 0x80000000) + 0x80000000 = y" by simp
    ultimately show ?thesis unfolding y_def [symmetric] by (simp only:)
  qed (rule clear)
qed


section \<open>Lists and options\<close>

lemma option_eqI: "(\<And>x. a = Some x \<longleftrightarrow> b = Some x) \<Longrightarrow> a = b"
  by (metis not_None_eq)

lemma swap_nth:
  assumes "i < length xs" "j < length xs" "k < length xs"
  shows "xs[i := xs ! j, j := xs ! i] ! k = (if k = i then xs ! j else if k = j then xs ! i else xs ! k)"
  using assms by (auto simp: nth_list_update)

text \<open>A list of results that are all there.\<close>

lemma those_map_Some: "(\<And>x. x \<in> set xs \<Longrightarrow> f x = Some (g x)) \<Longrightarrow> those (map f xs) = Some (map g xs)"
  by (induction xs) simp_all

end
