(* ===== verification/Keys.thy ===== *)
theory Keys
  imports Prelude
begin

text \<open>
  The plain data of \<^verbatim>\<open>types.h\<close> and the key operations of \<^verbatim>\<open>storage.c\<close>: 16-byte keys, memory
  blocks, the integer logarithm, key comparison and the hash function of the table.
\<close>

section \<open>Little-endian encodings\<close>

text \<open>
  The sources read machine words out of byte memory (the union \<^verbatim>\<open>htable_key_t\<close>, the pointer
  a free block holds). The targets of the build are little endian.
\<close>

fun le_bytes :: "nat \<Rightarrow> nat \<Rightarrow> u8 list" where
  "le_bytes 0 n = []"
| "le_bytes (Suc k) n = of_nat n # le_bytes k (n div 256)"

fun le_nat :: "u8 list \<Rightarrow> nat" where
  "le_nat [] = 0"
| "le_nat (b # bs) = unat b + 256 * le_nat bs"

lemma length_le_bytes [simp]: "length (le_bytes k n) = k"
  by (induction k n rule: le_bytes.induct) simp_all

lemma le_nat_less: "le_nat bs < 256 ^ length bs"
proof (induction bs)
  case (Cons b bs)
  have "unat b < 256" using unsigned_less [of b] by simp
  with Cons show ?case by simp
qed simp

lemma le_nat_le_bytes: "le_nat (le_bytes k n) = n mod 256 ^ k"
proof (induction k n rule: le_bytes.induct)
  case (2 k n)
  have "unat (of_nat n :: u8) = n mod 256" by (simp add: unat_of_nat)
  with "2.IH" show ?case by (simp add: mod_mult2_eq)
qed simp

lemma le_bytes_le_nat: "le_bytes (length bs) (le_nat bs) = bs"
proof (induction bs)
  case (Cons b bs)
  have "unat b < 256" using unsigned_less [of b] by simp
  moreover have "(256 :: u8) = 0" by simp
  then have "of_nat (unat b + 256 * m) = b" for m :: nat
    by (simp only: of_nat_add of_nat_mult of_nat_numeral mult_zero_left add_0_right
        of_nat_unat ucast_id)
  ultimately show ?case using Cons by simp
qed simp


section \<open>Blocks and keys\<close>

type_synonym addr = nat

text \<open>A pointer with its length; the null block \<^verbatim>\<open>(blk_t){ 0 }\<close> is the failure value.\<close>

record blk_t =
  blk_data :: addr
  blk_size :: u64

definition null_blk :: blk_t where
  "null_blk = \<lparr>blk_data = 0, blk_size = 0\<rparr>"

lemma null_blk_simps [simp]: "blk_data null_blk = 0" "blk_size null_blk = 0"
  by (simp_all add: null_blk_def)

text \<open>The union of 16 bytes and two 64-bit halves, kept as the halves.\<close>

record htable_key_t =
  key_h :: u64
  key_l :: u64

definition key_bytes :: "htable_key_t \<Rightarrow> u8 list" where
  "key_bytes k = le_bytes 8 (unat (key_h k)) @ le_bytes 8 (unat (key_l k))"

definition key_of_bytes :: "u8 list \<Rightarrow> htable_key_t" where
  "key_of_bytes bs =
     \<lparr>key_h = of_nat (le_nat (take 8 bs)), key_l = of_nat (le_nat (take 8 (drop 8 bs)))\<rparr>"

definition null_key :: htable_key_t where
  "null_key = \<lparr>key_h = 0, key_l = 0\<rparr>"

definition key_cmp :: "htable_key_t \<Rightarrow> htable_key_t \<Rightarrow> bool" where
  "key_cmp a b \<longleftrightarrow> key_h a = key_h b \<and> key_l a = key_l b"

definition key_is_null :: "htable_key_t \<Rightarrow> bool" where
  "key_is_null a \<longleftrightarrow> key_h a OR key_l a = 0"

definition key_set_null :: "htable_key_t \<Rightarrow> htable_key_t" where
  "key_set_null a = a\<lparr>key_h := 0, key_l := 0\<rparr>"

lemma key_cmp_iff [simp]: "key_cmp a b \<longleftrightarrow> a = b"
  by (auto simp: key_cmp_def)

lemma key_is_null_iff: "key_is_null a \<longleftrightarrow> a = null_key"
  by (cases a) (simp add: key_is_null_def null_key_def or_eq_0_iff)

lemma key_set_null_eq [simp]: "key_set_null a = null_key"
  by (simp add: key_set_null_def null_key_def)

lemma key_is_null_null [simp]: "key_is_null null_key"
  by (simp add: key_is_null_iff)


section \<open>Integer logarithm\<close>

text \<open>\<^verbatim>\<open>__builtin_clzll\<close> is undefined at 0.\<close>

definition clzll :: "u64 \<Rightarrow> u64 option" where
  "clzll i = (if i = 0 then None
     else Some (of_nat (length (takeWhile (\<lambda>n. \<not> bit i n) (rev [0..<64])))))"

definition ilog2_u64 :: "u64 \<Rightarrow> u64 option" where
  "ilog2_u64 i = do { c \<leftarrow> clzll i; Some (63 - c) }"


section \<open>The hash function\<close>

definition htable_hash_rotl64 :: "u64 \<Rightarrow> nat \<Rightarrow> u64" where
  "htable_hash_rotl64 x r = push_bit r x OR drop_bit (64 - r) x"

definition htable_hash :: "htable_key_t \<Rightarrow> u64" where
  "htable_hash d =
    (let k0 = 0x9e3779b97f4a7c15;
         k1 = 0xbf58476d1ce4e5b9;
         a = key_h d XOR k0;
         b = key_l d XOR k1;
         mixed = (a + htable_hash_rotl64 b 23) XOR (b + htable_hash_rotl64 a 41);
         z = mixed;
         z = (z XOR drop_bit 30 z) * 0xbf58476d1ce4e5b9;
         z = (z XOR drop_bit 27 z) * 0x94d049bb133111eb;
         z = z XOR drop_bit 31 z
     in z)"

end
