(* ===== verification/Linear_Probing.thy ===== *)
theory Linear_Probing
  imports Keys
begin

text \<open>
  \<^verbatim>\<open>linear_probing.h\<close>: an open addressing hash table with linear probing and backward-shift
  deletion, over the three parallel arrays of \<^verbatim>\<open>storage.c\<close>. The header leaves the hash
  function to its includer, so it is an argument here.
\<close>

section \<open>The code\<close>

type_synonym hash_fun = "htable_key_t \<Rightarrow> u64"

record htab =
  blob_ids :: "htable_key_t list"
  blob_data :: "blk_t list"
  blob_valid_until :: "u32 list"

text \<open>
  \<^verbatim>\<open>htable_swap\<close> of \<^verbatim>\<open>storage.c\<close>. Its temporary of type \<^verbatim>\<open>double\<close> holds every 32-bit value
  exactly, so the third swap is exact, too.
\<close>

definition swap_elems :: "'a list \<Rightarrow> u64 \<Rightarrow> u64 \<Rightarrow> 'a list option" where
  "swap_elems xs a b = do {
     tmp \<leftarrow> rd xs a;
     y \<leftarrow> rd xs b;
     xs \<leftarrow> wr xs a y;
     wr xs b tmp }"

definition htable_swap :: "u64 \<Rightarrow> u64 \<Rightarrow> htab \<Rightarrow> htab option" where
  "htable_swap a b t =
     (if a = b then Some t
      else do {
        ids \<leftarrow> swap_elems (blob_ids t) a b;
        ds \<leftarrow> swap_elems (blob_data t) a b;
        vs \<leftarrow> swap_elems (blob_valid_until t) a b;
        Some (t\<lparr>blob_ids := ids, blob_data := ds, blob_valid_until := vs\<rparr>) })"

definition lp_home_index :: "u64 \<Rightarrow> u64 \<Rightarrow> u64" where
  "lp_home_index h table_size = h AND (table_size - 1)"

text \<open>The loop after the label \<^verbatim>\<open>repeat\<close>: it never ends when no slot is free.\<close>

partial_function (option) lp_repeat :: "htable_key_t list \<Rightarrow> u64 \<Rightarrow> u64 \<Rightarrow> u64 option" where
  "lp_repeat keys i table_size =
     (if i < table_size then do {
        k \<leftarrow> rd keys i;
        if key_is_null k then Some i else lp_repeat keys (i + 1) table_size }
      else lp_repeat keys 0 table_size)"

definition lp_find_free_slot ::
    "hash_fun \<Rightarrow> htable_key_t list \<Rightarrow> htable_key_t \<Rightarrow> u64 \<Rightarrow> u64 option" where
  "lp_find_free_slot hash keys key table_size =
     (let i = lp_home_index (hash key) table_size
      in do {
        k \<leftarrow> rd keys i;
        if key_is_null k then Some i else lp_repeat keys (i + 1) table_size })"

function lp_lookup_loop ::
    "htable_key_t list \<Rightarrow> htable_key_t \<Rightarrow> u64 \<Rightarrow> u64 \<Rightarrow> u64 \<Rightarrow> u64 option" where
  "lp_lookup_loop keys key table_size home step =
     (if step < table_size then
        (let idx = (home + step) AND (table_size - 1)
         in do {
           k \<leftarrow> rd keys idx;
           if key_is_null k then Some table_size
           else if key_cmp k key then Some idx
           else lp_lookup_loop keys key table_size home (step + 1) })
      else Some table_size)"
  by pat_completeness auto
termination
  by (relation "measure (\<lambda>(keys, key, n, home, step). unat n - unat step)")
    (auto simp: unat_Suc_less word_less_nat_alt)

declare lp_lookup_loop.simps [simp del]

definition lp_lookup ::
    "hash_fun \<Rightarrow> htable_key_t list \<Rightarrow> htable_key_t \<Rightarrow> u64 \<Rightarrow> u64 option" where
  "lp_lookup hash keys key table_size =
     lp_lookup_loop keys key table_size (lp_home_index (hash key) table_size) 0"

partial_function (option) lp_erase_loop ::
    "hash_fun \<Rightarrow> u64 \<Rightarrow> u64 \<Rightarrow> htab \<Rightarrow> u64 \<Rightarrow> u64 \<Rightarrow> (htab \<times> u64) option" where
  "lp_erase_loop hash start_idx table_size t hole next_idx =
     (let next_idx = (next_idx + 1) AND (table_size - 1)
      in do {
        k \<leftarrow> rd (blob_ids t) next_idx;
        if key_is_null k \<or> next_idx = start_idx then Some (t, hole)
        else
          (let home = lp_home_index (hash k) table_size
           in if (hole - home) AND (table_size - 1) < (next_idx - home) AND (table_size - 1)
              then do {
                t' \<leftarrow> htable_swap hole next_idx t;
                lp_erase_loop hash start_idx table_size t' next_idx next_idx }
              else lp_erase_loop hash start_idx table_size t hole next_idx) })"

definition lp_erase :: "hash_fun \<Rightarrow> htab \<Rightarrow> u64 \<Rightarrow> u64 \<Rightarrow> (htab \<times> u64) option" where
  "lp_erase hash t start_idx table_size = do {
     (t, hole) \<leftarrow> lp_erase_loop hash start_idx table_size t start_idx start_idx;
     k \<leftarrow> rd (blob_ids t) hole;
     ids \<leftarrow> wr (blob_ids t) hole (key_set_null k);
     Some (t\<lparr>blob_ids := ids\<rparr>, hole) }"


section \<open>The invariant\<close>

text \<open>Occupied slots, home slots and the cyclic distance from one slot to another.\<close>

definition occ :: "htable_key_t list \<Rightarrow> nat \<Rightarrow> bool" where
  "occ ks p \<longleftrightarrow> \<not> key_is_null (ks ! p)"

definition home :: "hash_fun \<Rightarrow> htable_key_t list \<Rightarrow> htable_key_t \<Rightarrow> nat" where
  "home hash ks k = unat (hash k) mod length ks"

definition dist :: "nat \<Rightarrow> nat \<Rightarrow> nat \<Rightarrow> nat" where
  "dist N a b = (b + N - a) mod N"

text \<open>
  The probing invariant has three parts. No key is stored twice. Every slot between the home
  of a stored key and its slot is occupied, so that a lookup reaches it. And there is a slot
  \<open>z\<close>, the cut, that no probe sequence crosses: cut open after \<open>z\<close>, the table is a
  linear one. A free slot is always a cut; the last slot filled is one of a full table.
  Without the cut the deletion loop can lose a key in a full table.
\<close>

definition chain :: "hash_fun \<Rightarrow> htable_key_t list \<Rightarrow> bool" where
  "chain hash ks \<longleftrightarrow>
     (\<forall>p<length ks. occ ks p \<longrightarrow>
        (\<forall>d<dist (length ks) (home hash ks (ks ! p)) p.
           occ ks ((home hash ks (ks ! p) + d) mod length ks)))"

definition cut_at :: "hash_fun \<Rightarrow> htable_key_t list \<Rightarrow> nat \<Rightarrow> bool" where
  "cut_at hash ks z \<longleftrightarrow> z < length ks \<and>
     (\<forall>p<length ks. occ ks p \<longrightarrow>
        dist (length ks) (Suc z) (home hash ks (ks ! p)) \<le> dist (length ks) (Suc z) p)"

definition distinct_keys :: "htable_key_t list \<Rightarrow> bool" where
  "distinct_keys ks \<longleftrightarrow>
     (\<forall>p<length ks. \<forall>q<length ks. occ ks p \<longrightarrow> ks ! p = ks ! q \<longrightarrow> p = q)"

definition lp_inv :: "hash_fun \<Rightarrow> htable_key_t list \<Rightarrow> bool" where
  "lp_inv hash ks \<longleftrightarrow> distinct_keys ks \<and> chain hash ks \<and> (\<exists>z<length ks. cut_at hash ks z)"


section \<open>Cyclic distances\<close>

lemma dist_eq: "b < N \<Longrightarrow> a \<le> N \<Longrightarrow> dist N a b = (if a \<le> b then b - a else b + N - a)"
  by (auto simp: dist_def mod_if)

lemma dist_less: "0 < N \<Longrightarrow> dist N a b < N"
  by (simp add: dist_def)

lemma dist_self [simp]: "a < N \<Longrightarrow> dist N a a = 0"
  by (simp add: dist_def)

lemma dist_0_iff: "a < N \<Longrightarrow> b < N \<Longrightarrow> dist N a b = 0 \<longleftrightarrow> a = b"
  by (auto simp: dist_eq)

lemma dist_Suc_left:
  "a < N \<Longrightarrow> b < N \<Longrightarrow> a \<noteq> b \<Longrightarrow> Suc (dist N (Suc a mod N) b) = dist N a b"
  by (cases "Suc a < N") (auto simp: dist_eq mod_if not_less_eq less_Suc_eq_le)

lemma dist_add: "a < N \<Longrightarrow> d < N \<Longrightarrow> dist N a ((a + d) mod N) = d"
  by (cases "a + d < N") (auto simp: dist_eq mod_if)

lemma add_dist: "a < N \<Longrightarrow> b < N \<Longrightarrow> (a + dist N a b) mod N = b"
  by (auto simp: dist_eq mod_if)

lemma dist_inj: "a \<le> N \<Longrightarrow> b < N \<Longrightarrow> c < N \<Longrightarrow> dist N a b = dist N a c \<Longrightarrow> b = c"
  by (auto simp: dist_eq split: if_splits)

text \<open>Distances in the coordinates of a table cut open after slot \<open>z\<close>.\<close>

lemma dist_via_cut:
  "a < N \<Longrightarrow> b < N \<Longrightarrow> z < N \<Longrightarrow>
   dist N a b = (if dist N (Suc z) a \<le> dist N (Suc z) b
     then dist N (Suc z) b - dist N (Suc z) a
     else N + dist N (Suc z) b - dist N (Suc z) a)"
  by (auto simp: dist_eq split: if_splits)

lemma dist_cut_Suc:
  "a < N \<Longrightarrow> z < N \<Longrightarrow>
   dist N (Suc z) (Suc a mod N) = (if a = z then 0 else Suc (dist N (Suc z) a))"
  by (auto simp: dist_eq mod_if split: if_splits)

lemma dist_cut_last: "z < N \<Longrightarrow> dist N (Suc z) z = N - 1"
  by (simp add: dist_eq)

lemma dist_cut_max: "a < N \<Longrightarrow> z < N \<Longrightarrow> dist N (Suc z) a = N - 1 \<Longrightarrow> a = z"
  by (auto simp: dist_eq split: if_splits)

lemma home_less: "0 < length ks \<Longrightarrow> home hash ks k < length ks"
  by (simp add: home_def)

lemma chain_alt:
  "chain hash ks \<longleftrightarrow>
     (\<forall>p<length ks. occ ks p \<longrightarrow> (\<forall>q<length ks.
        dist (length ks) (home hash ks (ks ! p)) q < dist (length ks) (home hash ks (ks ! p)) p
        \<longrightarrow> occ ks q))" (is "?l = ?r")
proof
  assume ?l
  show ?r
  proof (intro allI impI)
    fix p q
    let ?h = "home hash ks (ks ! p)"
    assume a: "p < length ks" "occ ks p" "q < length ks"
      "dist (length ks) ?h q < dist (length ks) ?h p"
    then have "?h < length ks" by (intro home_less) auto
    with a have "(?h + dist (length ks) ?h q) mod length ks = q" by (simp add: add_dist)
    with a \<open>?l\<close> show "occ ks q" unfolding chain_def by metis
  qed
next
  assume ?r
  show ?l
    unfolding chain_def
  proof (intro allI impI)
    fix p d
    let ?h = "home hash ks (ks ! p)"
    assume a: "p < length ks" "occ ks p" "d < dist (length ks) ?h p"
    then have h: "?h < length ks" by (intro home_less) auto
    then have "d < length ks" using a dist_less [of "length ks" ?h p] by linarith
    with h have d: "dist (length ks) ?h ((?h + d) mod length ks) = d" by (rule dist_add)
    have q: "(?h + d) mod length ks < length ks"
      by (rule mod_less_divisor) (use h in linarith)
    show "occ ks ((?h + d) mod length ks)"
      using \<open>?r\<close> [rule_format, OF a(1,2) q] d a(3) by simp
  qed
qed

lemma chainD:
  "chain hash ks \<Longrightarrow> p < length ks \<Longrightarrow> occ ks p \<Longrightarrow> q < length ks \<Longrightarrow>
   dist (length ks) (home hash ks (ks ! p)) q < dist (length ks) (home hash ks (ks ! p)) p \<Longrightarrow>
   occ ks q"
  unfolding chain_alt by blast

text \<open>A free slot is a cut.\<close>

lemma chain_free_cut:
  assumes "chain hash ks" "z < length ks" "\<not> occ ks z"
  shows "cut_at hash ks z"
  unfolding cut_at_def
proof (intro conjI allI impI)
  fix p
  assume p: "p < length ks" "occ ks p"
  let ?N = "length ks" and ?h = "home hash ks (ks ! p)"
  have h: "?h < ?N" using p by (intro home_less) auto
  show "dist ?N (Suc z) ?h \<le> dist ?N (Suc z) p"
  proof (rule ccontr)
    assume "\<not> ?thesis"
    then have "dist ?N ?h z < dist ?N ?h p"
      using h p(1) assms(2) by (auto simp: dist_eq split: if_splits)
    with chainD [OF assms(1) p assms(2)] assms(3) show False by simp
  qed
qed (rule assms)


section \<open>Lookup\<close>

lemma of_nat_add_mask:
  "pow2_size n \<Longrightarrow> (a + b) AND (n - 1) = of_nat ((unat a + unat b) mod unat n)"
  by (metis unat_add_mask of_nat_unat ucast_id)

lemma unat_of_nat_slot: "p < unat (n :: u64) \<Longrightarrow> unat (of_nat p :: u64) = p"
  by (metis mod_less order_less_trans unat_of_nat unsigned_less)

lemma unat_home_index:
  "pow2_size n \<Longrightarrow> length ks = unat n \<Longrightarrow> unat (lp_home_index (hash k) n) = home hash ks k"
  by (simp add: lp_home_index_def home_def unat_and_mask)

text \<open>One round of the lookup loop over slot numbers.\<close>

lemma lp_lookup_loop_unfold:
  assumes n: "pow2_size n" "length ks = unat n"
  shows "lp_lookup_loop ks key n hm step =
    (if unat step < unat n then
       let q = (unat hm + unat step) mod unat n
       in if \<not> occ ks q then Some n else if ks ! q = key then Some (of_nat q)
          else lp_lookup_loop ks key n hm (step + 1)
     else Some n)"
proof -
  define i where "i = (hm + step) AND (n - 1)"
  have i: "unat i = (unat hm + unat step) mod unat n"
    using n by (simp add: i_def unat_add_mask)
  have "unat i < length ks" using n i by (simp add: pow2_size_pos)
  moreover have "of_nat ((unat hm + unat step) mod unat n) = i"
    by (simp add: i [symmetric])
  ultimately show ?thesis
    by (subst lp_lookup_loop.simps)
      (simp add: i_def [symmetric] i [symmetric] occ_def word_less_nat_alt Let_def)
qed

lemma lp_lookup_loop_scan:
  assumes n: "pow2_size n" "length ks = unat n"
    and "unat step \<le> D" "D \<le> length ks"
    and "\<And>d. unat step \<le> d \<Longrightarrow> d < D \<Longrightarrow>
      occ ks ((unat hm + d) mod length ks) \<and> ks ! ((unat hm + d) mod length ks) \<noteq> key"
    and stop: "D < length ks \<Longrightarrow>
      \<not> occ ks ((unat hm + D) mod length ks) \<or> ks ! ((unat hm + D) mod length ks) = key"
  shows "lp_lookup_loop ks key n hm step =
    Some (if D < length ks \<and> occ ks ((unat hm + D) mod length ks)
          then of_nat ((unat hm + D) mod length ks) else n)"
  using assms(3-5)
proof (induction "D - unat step" arbitrary: step)
  case (0 step)
  then have "unat step = D" by simp
  with stop show ?case by (subst lp_lookup_loop_unfold [OF n]) (auto simp: Let_def n(2))
next
  case (Suc m step)
  from Suc.hyps(2) Suc.prems(2) have lt: "step < n" "unat step < D"
    by (auto simp: word_less_nat_alt n(2))
  have "lp_lookup_loop ks key n hm step = lp_lookup_loop ks key n hm (step + 1)"
    using Suc.prems(3) [of "unat step"] lt
    by (subst lp_lookup_loop_unfold [OF n]) (simp add: Let_def word_less_nat_alt n(2))
  also have "unat (step + 1) = Suc (unat step)" using lt by (simp add: unat_Suc_less)
  then have "lp_lookup_loop ks key n hm (step + 1) =
      Some (if D < length ks \<and> occ ks ((unat hm + D) mod length ks)
          then of_nat ((unat hm + D) mod length ks) else n)"
    using Suc.prems lt Suc.hyps(2) by (intro Suc.hyps(1)) auto
  finally show ?case .
qed

lemma lp_lookup_scan:
  assumes n: "pow2_size n" "length ks = unat n" and "D \<le> length ks"
    and "\<And>d. d < D \<Longrightarrow> occ ks ((home hash ks key + d) mod length ks) \<and>
      ks ! ((home hash ks key + d) mod length ks) \<noteq> key"
    and "D < length ks \<Longrightarrow> \<not> occ ks ((home hash ks key + D) mod length ks) \<or>
      ks ! ((home hash ks key + D) mod length ks) = key"
  shows "lp_lookup hash ks key n =
    Some (if D < length ks \<and> occ ks ((home hash ks key + D) mod length ks)
          then of_nat ((home hash ks key + D) mod length ks) else n)"
  using lp_lookup_loop_scan [OF n, of 0 D "lp_home_index (hash key) n" key] assms(3-5)
  by (simp add: lp_lookup_def unat_home_index [OF n])

text \<open>A stored key is found in its slot.\<close>

lemma lp_lookup_found:
  assumes n: "pow2_size n" "length ks = unat n" and inv: "lp_inv hash ks"
    and p: "p < length ks" "occ ks p"
  shows "lp_lookup hash ks (ks ! p) n = Some (of_nat p)"
proof -
  let ?N = "length ks" and ?h = "home hash ks (ks ! p)"
  let ?D = "dist ?N ?h p"
  have h: "?h < ?N" using p by (intro home_less) auto
  have D: "?D < ?N" using p by (intro dist_less) auto
  have at: "(?h + ?D) mod ?N = p" using h p(1) by (rule add_dist)
  have skip: "occ ks ((?h + d) mod ?N) \<and> ks ! ((?h + d) mod ?N) \<noteq> ks ! p" if "d < ?D" for d
  proof -
    have q: "(?h + d) mod ?N < ?N" by (rule mod_less_divisor) (use h in linarith)
    have dd: "dist ?N ?h ((?h + d) mod ?N) = d" using h that D by (intro dist_add) linarith+
    then have "occ ks ((?h + d) mod ?N)"
      using chainD [OF _ p q, of hash] inv that by (simp add: lp_inv_def)
    moreover have "(?h + d) mod ?N \<noteq> p" using dd that by auto
    ultimately show ?thesis using inv p q by (metis distinct_keys_def lp_inv_def)
  qed
  have "lp_lookup hash ks (ks ! p) n =
      Some (if ?D < ?N \<and> occ ks ((?h + ?D) mod ?N) then of_nat ((?h + ?D) mod ?N) else n)"
    by (rule lp_lookup_scan [OF n less_imp_le [OF D] skip]) (assumption, simp only: at simp_thms)
  then show ?thesis using D p(2) by (simp only: at simp_thms if_True)
qed

text \<open>The lookup of a key that is not stored returns the table size, null key included.\<close>

lemma lp_lookup_absent:
  assumes n: "pow2_size n" "length ks = unat n"
    and absent: "key_is_null key \<or> key \<notin> set ks"
  shows "lp_lookup hash ks key n = Some n"
proof -
  let ?N = "length ks" and ?h = "home hash ks key"
  define free where "free d \<longleftrightarrow> d < ?N \<and> \<not> occ ks ((?h + d) mod ?N)" for d
  define D where "D = (if \<exists>d. free d then LEAST d. free d else ?N)"
  have N: "0 < ?N" using n by (simp add: pow2_size_pos)
  have D: "D \<le> ?N \<and> (D < ?N \<longrightarrow> free D) \<and> (\<forall>d<D. d < ?N \<longrightarrow> \<not> free d)"
  proof (cases "\<exists>d. free d")
    case True
    then have least: "D = (LEAST d. free d)" unfolding D_def by (rule if_P)
    have "free D" unfolding least using True by (rule LeastI_ex)
    moreover have "\<not> free d" if "d < D" for d
      using that unfolding least by (rule not_less_Least)
    ultimately show ?thesis by (auto simp: free_def)
  qed (simp add: D_def)
  have skip: "occ ks ((?h + d) mod ?N) \<and> ks ! ((?h + d) mod ?N) \<noteq> key" if "d < D" for d
  proof -
    have "d < ?N" using that D by simp
    then have o: "occ ks ((?h + d) mod ?N)" using D that unfolding free_def by blast
    have "(?h + d) mod ?N < ?N" using N by simp
    then show ?thesis using o absent by (metis nth_mem occ_def)
  qed
  have "lp_lookup hash ks key n =
      Some (if D < ?N \<and> occ ks ((?h + D) mod ?N) then of_nat ((?h + D) mod ?N) else n)"
  proof (rule lp_lookup_scan [OF n conjunct1 [OF D] skip])
    assume "D < ?N"
    then have "free D" using D by blast
    then show "\<not> occ ks ((?h + D) mod ?N) \<or> ks ! ((?h + D) mod ?N) = key"
      unfolding free_def by blast
  qed
  moreover have "\<not> (D < ?N \<and> occ ks ((?h + D) mod ?N))" using D unfolding free_def by blast
  ultimately show ?thesis by presburger
qed


section \<open>Search for a free slot and insertion\<close>

lemma lp_repeat_wrap:
  assumes "unat i \<le> length ks" "length ks = unat n" "0 < length ks"
  obtains j where "lp_repeat ks i n = lp_repeat ks j n" "unat j = unat i mod length ks"
    "j = of_nat (unat i mod length ks)" "unat j < unat n"
proof (cases "unat i < length ks")
  case True
  then show ?thesis using assms(2) by (intro that [of i]) (simp_all add: of_nat_unat)
next
  case False
  with assms have "\<not> i < n" by (simp add: word_less_nat_alt)
  then have "lp_repeat ks i n = lp_repeat ks 0 n" by (subst lp_repeat.simps) simp
  moreover have "unat i mod length ks = 0" using False assms by simp
  ultimately show ?thesis using assms by (intro that [of 0]) simp_all
qed

lemma lp_repeat_round:
  assumes "unat i < unat n" "length ks = unat n"
  shows "lp_repeat ks i n = (if occ ks (unat i) then lp_repeat ks (i + 1) n else Some i)"
  using assms by (subst lp_repeat.simps) (simp add: word_less_nat_alt occ_def)

lemma lp_repeat_scan:
  assumes n: "length ks = unat n"
    and "unat i \<le> length ks" "D < length ks"
    and "\<And>d. d < D \<Longrightarrow> occ ks ((unat i + d) mod length ks)"
    and "\<not> occ ks ((unat i + D) mod length ks)"
  shows "lp_repeat ks i n = Some (of_nat ((unat i + D) mod length ks))"
  using assms(2-5)
proof (induction D arbitrary: i)
  case (0 i)
  obtain j where j: "lp_repeat ks i n = lp_repeat ks j n" "unat j = unat i mod length ks"
      "j = of_nat (unat i mod length ks)" "unat j < unat n"
    using 0(1,2) n by (elim lp_repeat_wrap) auto
  have "\<not> occ ks (unat j)" using 0(4) j(2) by simp
  then have "lp_repeat ks j n = Some j" using lp_repeat_round [OF j(4) n] by simp
  then show ?case using j(1,3) by simp
next
  case (Suc D i)
  obtain j where j: "lp_repeat ks i n = lp_repeat ks j n" "unat j = unat i mod length ks"
      "unat j < unat n"
    using Suc.prems(1,2) n by (elim lp_repeat_wrap) auto
  have "occ ks (unat j)" using Suc.prems(3) [of 0] j(2) by simp
  then have "lp_repeat ks j n = lp_repeat ks (j + 1) n"
    using lp_repeat_round [OF j(3) n] by simp
  also have s: "unat (j + 1) = Suc (unat j)"
    using j(3) by (intro unat_Suc_less [of _ n]) (simp add: word_less_nat_alt)
  then have add: "(unat (j + 1) + d) mod length ks = (unat i + Suc d) mod length ks" for d
    unfolding s j(2) by (simp only: add_Suc_shift mod_add_left_eq)
  have "lp_repeat ks (j + 1) n = Some (of_nat ((unat (j + 1) + D) mod length ks))"
  proof (rule Suc.IH)
    show "unat (j + 1) \<le> length ks" using s j(3) n by simp
    show "D < length ks" using Suc.prems(2) by simp
    show "\<And>d. d < D \<Longrightarrow> occ ks ((unat (j + 1) + d) mod length ks)"
      unfolding add by (rule Suc.prems(3)) simp
    show "\<not> occ ks ((unat (j + 1) + D) mod length ks)"
      unfolding add by (rule Suc.prems(4))
  qed
  finally show ?case unfolding add j(1) .
qed

text \<open>
  With a free slot in the table the search ends, and ends at the first free slot of the
  key's probe sequence.
\<close>

text \<open>Whatever the loop returns is a free slot; with none, it returns nothing.\<close>

lemma lp_repeat_free:
  assumes "lp_repeat ks i n = Some j"
  shows "unat j < length ks \<and> \<not> occ ks (unat j)"
proof (rule lp_repeat.raw_induct [of "\<lambda>ks i n j. unat j < length ks \<and> \<not> occ ks (unat j)", OF _ assms])
  fix rec :: "htable_key_t list \<Rightarrow> u64 \<Rightarrow> u64 \<Rightarrow> u64 option" and ks i n j
  assume "\<And>ks i n j. rec ks i n = Some j \<Longrightarrow> unat j < length ks \<and> \<not> occ ks (unat j)"
    and "(if i < n then rd ks i \<bind> (\<lambda>k. if key_is_null k then Some i else rec ks (i + 1) n)
      else rec ks 0 n) = Some j"
  then show "unat j < length ks \<and> \<not> occ ks (unat j)"
    by (auto simp: occ_def split: if_splits bind_splits dest!: rd_SomeD)
qed

lemma lp_find_free_slot_free:
  "lp_find_free_slot hash ks key n = Some j \<Longrightarrow> unat j < length ks \<and> \<not> occ ks (unat j)"
  unfolding lp_find_free_slot_def
  by (auto simp: occ_def Let_def split: if_splits bind_splits dest!: rd_SomeD dest: lp_repeat_free)

lemma lp_find_free_slot_scan:
  assumes n: "pow2_size n" "length ks = unat n" and free: "q < length ks" "\<not> occ ks q"
  obtains D where "D < length ks"
    "\<And>d. d < D \<Longrightarrow> occ ks ((home hash ks key + d) mod length ks)"
    "\<not> occ ks ((home hash ks key + D) mod length ks)"
    "lp_find_free_slot hash ks key n = Some (of_nat ((home hash ks key + D) mod length ks))"
proof -
  let ?N = "length ks" and ?h = "home hash ks key" and ?i = "lp_home_index (hash key) n"
  define P where "P d \<longleftrightarrow> \<not> occ ks ((?h + d) mod ?N)" for d
  have h: "?h < ?N" using free by (intro home_less) auto
  have ui: "unat ?i = ?h" by (rule unat_home_index [OF n])
  have Pq: "P (dist ?N ?h q)" using free h by (simp add: P_def add_dist)
  define D where "D = (LEAST d. P d)"
  have PD: "P D" unfolding D_def using Pq by (rule LeastI)
  have le: "D \<le> dist ?N ?h q" unfolding D_def using Pq by (rule Least_le)
  then have D: "D < ?N" using dist_less [of ?N ?h q] free by linarith
  have before: "occ ks ((?h + d) mod ?N)" if "d < D" for d
    using not_less_Least [of d P] that by (simp add: D_def P_def)
  have "lp_repeat ks ?i n = Some (of_nat ((unat ?i + D) mod ?N))"
    using h D before PD by (intro lp_repeat_scan [OF n(2)]) (auto simp: ui P_def)
  moreover have "lp_find_free_slot hash ks key n = lp_repeat ks ?i n"
    using h n(2) ui by (subst lp_repeat_round)
      (auto simp: lp_find_free_slot_def occ_def Let_def)
  ultimately show ?thesis using that D before PD by (auto simp: ui P_def)
qed

lemma occ_update:
  "p < length ks \<Longrightarrow> q < length ks \<Longrightarrow>
   occ (ks[p := k]) q \<longleftrightarrow> (if q = p then \<not> key_is_null k else occ ks q)"
  by (simp add: occ_def nth_list_update)

lemma home_update [simp]: "home hash (ks[p := k]) = home hash ks"
  by (simp add: home_def fun_eq_iff)


text \<open>Storing a new key in the slot the search found keeps the invariant.\<close>

lemma lp_inv_insert:
  assumes inv: "lp_inv hash ks" and key: "\<not> key_is_null key" "key \<notin> set ks"
    and D: "D < length ks" "\<And>d. d < D \<Longrightarrow> occ ks ((home hash ks key + d) mod length ks)"
    and p: "p = (home hash ks key + D) mod length ks" and free: "\<not> occ ks p"
  shows "lp_inv hash (ks[p := key])"
proof -
  let ?N = "length ks" and ?ks = "ks[p := key]"
  have h: "home hash ks key < ?N" using D by (intro home_less) auto
  have pN: "p < ?N" unfolding p by (rule mod_less_divisor) (use D in linarith)
  have o: "occ ?ks q \<longleftrightarrow> q = p \<or> occ ks q" if "q < ?N" for q
    using that pN key by (simp add: occ_update)
  have "distinct_keys ?ks"
    using inv key pN unfolding lp_inv_def distinct_keys_def
    by (auto simp: o nth_list_update in_set_conv_nth split: if_splits)
  moreover have ch: "chain hash ?ks"
    unfolding chain_alt
  proof (intro allI impI)
    fix r q
    assume a: "r < length ?ks" "occ ?ks r" "q < length ?ks"
      "dist (length ?ks) (home hash ?ks (?ks ! r)) q < dist (length ?ks) (home hash ?ks (?ks ! r)) r"
    show "occ ?ks q"
    proof (cases "r = p")
      case True
      then have "dist ?N (home hash ks key) q < D"
        using a pN h D(1) unfolding p by (simp add: dist_add)
      then have "occ ks ((home hash ks key + dist ?N (home hash ks key) q) mod ?N)"
        by (rule D(2))
      then show ?thesis using a h pN by (simp add: add_dist o)
    next
      case False
      then have "occ ks r" using a o by simp
      then have "occ ks q"
        using a False inv pN by (intro chainD [of hash ks r q]) (auto simp: lp_inv_def)
      then show ?thesis using a o by simp
    qed
  qed
  moreover have "\<exists>z<length ?ks. cut_at hash ?ks z"
  proof (cases "\<exists>z<?N. \<not> occ ?ks z")
    case True
    then show ?thesis using ch chain_free_cut [of hash ?ks] by auto
  next
    case False
    have "cut_at hash ks p" using inv pN free by (auto simp: lp_inv_def intro: chain_free_cut)
    moreover have "dist ?N (Suc p) q \<le> dist ?N (Suc p) p" for q
      using pN dist_less [of ?N "Suc p" q] by (simp only: dist_cut_last) linarith
    ultimately have "cut_at hash ?ks p"
      using pN by (auto simp: cut_at_def o nth_list_update)
    then show ?thesis using pN by auto
  qed
  ultimately show ?thesis by (simp add: lp_inv_def)
qed


section \<open>Deletion\<close>

text \<open>The three arrays read as one array of entries.\<close>

definition entry :: "htab \<Rightarrow> nat \<Rightarrow> htable_key_t \<times> blk_t \<times> u32" where
  "entry t p = (blob_ids t ! p, blob_data t ! p, blob_valid_until t ! p)"

definition htab_len :: "htab \<Rightarrow> nat \<Rightarrow> bool" where
  "htab_len t N \<longleftrightarrow>
     length (blob_ids t) = N \<and> length (blob_data t) = N \<and> length (blob_valid_until t) = N"

definition entries :: "htab \<Rightarrow> (htable_key_t \<times> blk_t \<times> u32) set" where
  "entries t = entry t ` {p. p < length (blob_ids t) \<and> occ (blob_ids t) p}"

lemma htab_lenD [simp]:
  "htab_len t N \<Longrightarrow> length (blob_ids t) = N"
  "htab_len t N \<Longrightarrow> length (blob_data t) = N"
  "htab_len t N \<Longrightarrow> length (blob_valid_until t) = N"
  by (simp_all add: htab_len_def)

definition transp :: "nat \<Rightarrow> nat \<Rightarrow> nat \<Rightarrow> nat" where
  "transp a b p = (if p = a then b else if p = b then a else p)"

lemma transp_image: "a \<in> A \<Longrightarrow> b \<in> A \<Longrightarrow> transp a b ` A = A"
  by (force simp: transp_def image_iff)

lemma transp_in [simp]: "a < N \<Longrightarrow> b < N \<Longrightarrow> p < N \<Longrightarrow> transp a b p < N"
  by (simp add: transp_def)

lemma transp_transp [simp]: "transp a b (transp a b p) = p"
  by (simp add: transp_def)

lemma transp_eq_iff: "transp a b p = transp a b q \<longleftrightarrow> p = q"
  by (auto simp: transp_def)

lemma swap_elems_eq:
  assumes "unat a < length xs" "unat b < length xs"
  shows "\<exists>ys. swap_elems xs a b = Some ys \<and> length ys = length xs \<and>
    (\<forall>p<length xs. ys ! p = xs ! transp (unat a) (unat b) p)"
  using assms by (auto simp: swap_elems_def nth_list_update transp_def)

lemma htable_swap_eq:
  assumes "htab_len t N" "unat a < N" "unat b < N"
  obtains t' where "htable_swap a b t = Some t'" "htab_len t' N"
    "\<And>p. p < N \<Longrightarrow> entry t' p = entry t (transp (unat a) (unat b) p)"
proof (cases "a = b")
  case True
  then show ?thesis using assms by (intro that [of t]) (auto simp: htable_swap_def transp_def)
next
  case False
  obtain ids ds vs where
    "swap_elems (blob_ids t) a b = Some ids" "length ids = N"
    "\<forall>p<N. ids ! p = blob_ids t ! transp (unat a) (unat b) p"
    "swap_elems (blob_data t) a b = Some ds" "length ds = N"
    "\<forall>p<N. ds ! p = blob_data t ! transp (unat a) (unat b) p"
    "swap_elems (blob_valid_until t) a b = Some vs" "length vs = N"
    "\<forall>p<N. vs ! p = blob_valid_until t ! transp (unat a) (unat b) p"
    using assms swap_elems_eq [of a "blob_ids t" b] swap_elems_eq [of a "blob_data t" b]
      swap_elems_eq [of a "blob_valid_until t" b] by auto
  with False show ?thesis
    by (intro that [of "t\<lparr>blob_ids := ids, blob_data := ds, blob_valid_until := vs\<rparr>"])
      (auto simp: htable_swap_def htab_len_def entry_def)
qed

lemma entry_ids: "entry t p = entry t' q \<Longrightarrow> blob_ids t ! p = blob_ids t' ! q"
  by (simp add: entry_def)

text \<open>
  A round of the deletion loop in terms of slot numbers. The comparison of masked differences
  is the comparison of the distances the hole and the candidate have from the candidate's home.
\<close>

lemma lp_erase_loop_round:
  fixes hash :: hash_fun
  assumes n: "pow2_size n" and len: "htab_len t N" and N: "N = unat n"
    and lt: "s < N" "hole < N" "nx < N"
  defines "q \<equiv> Suc nx mod N"
  defines "k \<equiv> blob_ids t ! q"
  defines "hm \<equiv> home hash (blob_ids t) k"
  shows "lp_erase_loop hash (of_nat s) n t (of_nat hole) (of_nat nx) =
    (if key_is_null k \<or> q = s then Some (t, of_nat hole)
     else if dist N hm hole < dist N hm q then do {
       t' \<leftarrow> htable_swap (of_nat hole) (of_nat q) t;
       lp_erase_loop hash (of_nat s) n t' (of_nat q) (of_nat q) }
     else lp_erase_loop hash (of_nat s) n t (of_nat hole) (of_nat q))"
proof -
  define i where "i = (of_nat nx + 1) AND (n - 1)"
  define hw where "hw = lp_home_index (hash k) n"
  have u: "unat (of_nat x :: u64) = x" if "x < N" for x
    using that N by (intro unat_of_nat_slot [of _ n]) simp
  have qN: "q < N" unfolding q_def using lt(3) by (intro mod_less_divisor) simp
  have ui: "unat i = q"
    using n lt(3) N by (simp add: i_def unat_add_mask u q_def)
  then have iq: "i = of_nat q" by (metis of_nat_unat ucast_id)
  have hw: "unat hw = hm" using n len N by (simp add: hw_def hm_def unat_home_index)
  have hwn: "unat hw < unat n"
    using n by (simp add: hw_def lp_home_index_def unat_and_mask pow2_size_pos)
  have d: "unat ((of_nat x - hw) AND (n - 1)) = dist N hm x" if "x < N" for x
    using n hw hwn that N by (simp add: unat_sub_mask u dist_def)
  have "i = of_nat s \<longleftrightarrow> q = s" using u lt(1) qN ui iq by metis
  moreover have "rd (blob_ids t) i = Some k" using len qN ui by (simp add: k_def)
  ultimately show ?thesis
    using d [OF lt(2)] d [OF qN]
    by (subst lp_erase_loop.simps)
      (simp add: Let_def i_def [symmetric] hw_def [symmetric] iq [symmetric] word_less_nat_alt)
qed


text \<open>
  The loop invariant, in the coordinates of the table cut open after \<open>z\<close>. The hole holds
  the victim; every other key has all slots from its home on occupied; keys that were scanned
  do not have the hole between their home and their slot. \<open>w\<close> says that the scan has
  passed the cut, after which no key is moved any more.
\<close>

abbreviation co :: "nat \<Rightarrow> nat \<Rightarrow> nat \<Rightarrow> nat" where
  "co N z \<equiv> dist N (Suc z)"

definition crosses :: "hash_fun \<Rightarrow> nat \<Rightarrow> htab \<Rightarrow> nat \<Rightarrow> nat \<Rightarrow> bool" where
  "crosses hash z t hole p \<longleftrightarrow>
     (let N = length (blob_ids t); hm = home hash (blob_ids t) (blob_ids t ! p)
      in co N z hm \<le> co N z hole \<and> co N z hole < co N z p)"

definition reaches :: "hash_fun \<Rightarrow> nat \<Rightarrow> htab \<Rightarrow> nat \<Rightarrow> bool" where
  "reaches hash z t p \<longleftrightarrow>
     (let N = length (blob_ids t); hm = home hash (blob_ids t) (blob_ids t ! p)
      in co N z hm \<le> co N z p \<and>
         (\<forall>q<N. co N z hm \<le> co N z q \<longrightarrow> co N z q < co N z p \<longrightarrow> occ (blob_ids t) q))"

definition erase_base :: "hash_fun \<Rightarrow> nat \<Rightarrow> nat \<Rightarrow> htab \<Rightarrow> nat \<Rightarrow> htab \<Rightarrow> nat \<Rightarrow> bool" where
  "erase_base hash N z t0 s t hole \<longleftrightarrow>
     htab_len t N \<and> z < N \<and> s < N \<and> hole < N \<and> occ (blob_ids t) hole \<and>
     distinct_keys (blob_ids t) \<and> entries t = entries t0 \<and> entry t hole = entry t0 s \<and>
     co N z s \<le> co N z hole \<and>
     (\<forall>p<N. \<not> occ (blob_ids t) p \<longrightarrow> entry t p = entry t0 p) \<and>
     (\<forall>p<N. occ (blob_ids t) p \<longrightarrow> p \<noteq> hole \<longrightarrow> reaches hash z t p)"

definition erase_done :: "hash_fun \<Rightarrow> nat \<Rightarrow> nat \<Rightarrow> htab \<Rightarrow> nat \<Rightarrow> htab \<Rightarrow> nat \<Rightarrow> bool" where
  "erase_done hash N z t0 s t hole \<longleftrightarrow> erase_base hash N z t0 s t hole \<and>
     (\<forall>p<N. occ (blob_ids t) p \<longrightarrow> p \<noteq> hole \<longrightarrow> \<not> crosses hash z t hole p)"

definition erase_inv ::
    "hash_fun \<Rightarrow> nat \<Rightarrow> nat \<Rightarrow> htab \<Rightarrow> nat \<Rightarrow> bool \<Rightarrow> htab \<Rightarrow> nat \<Rightarrow> nat \<Rightarrow> bool" where
  "erase_inv hash N z t0 s w t hole nx \<longleftrightarrow> erase_base hash N z t0 s t hole \<and> nx < N \<and>
     (if w then co N z nx < co N z s \<and>
        (\<forall>p<N. occ (blob_ids t) p \<longrightarrow> p \<noteq> hole \<longrightarrow> \<not> crosses hash z t hole p)
      else co N z hole \<le> co N z nx \<and>
        (\<forall>q<N. co N z hole \<le> co N z q \<longrightarrow> co N z q \<le> co N z nx \<longrightarrow> occ (blob_ids t) q) \<and>
        (\<forall>p<N. occ (blob_ids t) p \<longrightarrow> p \<noteq> hole \<longrightarrow> co N z p \<le> co N z nx \<longrightarrow>
           \<not> crosses hash z t hole p))"

lemma co_facts:
  assumes "z < N"
  shows "a < N \<Longrightarrow> co N z a \<le> N - 1"
    and "a < N \<Longrightarrow> b < N \<Longrightarrow> co N z a = co N z b \<longleftrightarrow> a = b"
    and "a < N \<Longrightarrow> co N z (Suc a mod N) = (if a = z then 0 else Suc (co N z a))"
    and "co N z z = N - 1"
  using assms dist_less [of N "Suc z" a] dist_inj [of "Suc z" N a b]
  by (auto simp: dist_cut_Suc dist_cut_last)

text \<open>The loop stops at a free slot or after a full round.\<close>

lemma erase_inv_stop:
  assumes inv: "erase_inv hash N z t0 s w t hole nx"
    and stop: "\<not> occ (blob_ids t) (Suc nx mod N) \<or> Suc nx mod N = s"
  shows "erase_done hash N z t0 s t hole"
proof (cases w)
  case True
  then show ?thesis using inv by (simp add: erase_inv_def erase_done_def)
next
  case False
  let ?q = "Suc nx mod N"
  have base: "erase_base hash N z t0 s t hole" "nx < N" "z < N" "s < N" "hole < N"
      "htab_len t N" "co N z s \<le> co N z hole" "co N z hole \<le> co N z nx"
    using inv False by (auto simp: erase_inv_def erase_base_def)
  have qN: "?q < N" using base by (intro mod_less_divisor) simp
  have "\<not> crosses hash z t hole p" if p: "p < N" "occ (blob_ids t) p" "p \<noteq> hole" for p
  proof (cases "co N z p \<le> co N z nx")
    case True
    then show ?thesis using inv p False by (simp add: erase_inv_def)
  next
    case gt: False
    have "nx \<noteq> z" using gt co_facts(1) [OF base(3) p(1)] co_facts(4) [OF base(3)] by auto
    then have cq: "co N z ?q = Suc (co N z nx)" using base co_facts(3) by simp
    then have "?q \<noteq> s" using base by auto
    then have free: "\<not> occ (blob_ids t) ?q" using stop by simp
    then have "?q \<noteq> p" using p by auto
    then have "co N z ?q < co N z p"
      using gt cq co_facts(2) [OF base(3) qN p(1)] by linarith
    moreover have "reaches hash z t p" using inv p by (simp add: erase_inv_def erase_base_def)
    ultimately show ?thesis
      using free qN base cq by (auto simp: reaches_def crosses_def Let_def)
  qed
  then show ?thesis using base(1) by (simp add: erase_done_def)
qed


lemma swap_iff_crosses:
  assumes "htab_len t N" "z < N" "hole < N" "q < N" "reaches hash z t q"
  defines "hm \<equiv> home hash (blob_ids t) (blob_ids t ! q)"
  shows "dist N hm hole < dist N hm q \<longleftrightarrow> crosses hash z t hole q"
proof -
  have hm: "hm < N" using assms(1,3) home_less [of "blob_ids t" hash] by (auto simp: hm_def)
  have le: "co N z hm \<le> co N z q" using assms by (simp add: reaches_def Let_def)
  have "co N z q < N" using assms by (intro dist_less) auto
  then show ?thesis
    using le dist_via_cut [OF hm assms(3,2)] dist_via_cut [OF hm assms(4,2)] assms(1)
    by (auto simp: crosses_def Let_def hm_def [symmetric])
qed

lemma erase_inv_skip:
  assumes inv: "erase_inv hash N z t0 s w t hole nx"
    and q: "occ (blob_ids t) (Suc nx mod N)" "Suc nx mod N \<noteq> s"
    and no: "\<not> crosses hash z t hole (Suc nx mod N)"
  shows "\<exists>w'. erase_inv hash N z t0 s w' t hole (Suc nx mod N)"
proof -
  let ?q = "Suc nx mod N"
  have base: "erase_base hash N z t0 s t hole" "nx < N" "z < N" "s < N" "hole < N"
    using inv by (auto simp: erase_inv_def erase_base_def)
  have qN: "?q < N" using base by (intro mod_less_divisor) simp
  have ne: "co N z ?q \<noteq> co N z s" using co_facts(2) [OF base(3) qN base(4)] q by simp
  show ?thesis
  proof (cases "w \<or> nx = z")
    case True
    have less: "co N z ?q < co N z s"
      using True inv ne base co_facts(3) [OF base(3,2)] co_facts(4) [OF base(3)]
      by (auto simp: erase_inv_def)
    have "\<not> crosses hash z t hole p"
      if "p < N" "occ (blob_ids t) p" "p \<noteq> hole" for p
      using that True inv co_facts(1) [OF base(3) that(1)] co_facts(4) [OF base(3)]
      by (auto simp: erase_inv_def split: if_splits)
    then have "erase_inv hash N z t0 s True t hole ?q"
      using base qN less by (simp add: erase_inv_def)
    then show ?thesis by blast
  next
    case False
    then have cq: "co N z ?q = Suc (co N z nx)" using base co_facts(3) by simp
    have eq: "p = ?q" if "p < N" "co N z p = Suc (co N z nx)" for p
      using co_facts(2) [OF base(3) that(1) qN] that cq by simp
    have "erase_inv hash N z t0 s False t hole ?q"
      using inv False base qN q no unfolding erase_inv_def cq le_Suc_eq
      by (auto dest: eq)
    then show ?thesis by blast
  qed
qed

lemma entries_swap:
  assumes len: "htab_len t N" "htab_len t' N" and ab: "a < N" "b < N"
    and o: "occ (blob_ids t) a" "occ (blob_ids t) b"
    and e: "\<And>p. p < N \<Longrightarrow> entry t' p = entry t (transp a b p)"
  shows "entries t' = entries t"
    and "p < N \<Longrightarrow> occ (blob_ids t') p \<longleftrightarrow> occ (blob_ids t) p"
    and "distinct_keys (blob_ids t) \<Longrightarrow> distinct_keys (blob_ids t')"
proof -
  have ids: "blob_ids t' ! p = blob_ids t ! transp a b p" if "p < N" for p
    using e [OF that] by (rule entry_ids)
  show oc: "occ (blob_ids t') p \<longleftrightarrow> occ (blob_ids t) p" if "p < N" for p
    using ids [OF that] o by (auto simp: occ_def transp_def)
  let ?A = "{p. p < N \<and> occ (blob_ids t) p}"
  have "entries t' = entry t' ` ?A" using len oc by (auto simp: entries_def)
  also have "\<dots> = entry t ` transp a b ` ?A" using e by (force simp: image_image)
  also have "transp a b ` ?A = ?A" using ab o by (intro transp_image) auto
  finally show "entries t' = entries t" using len by (simp add: entries_def)
  show "distinct_keys (blob_ids t')" if d: "distinct_keys (blob_ids t)"
    unfolding distinct_keys_def
  proof (intro allI impI)
    fix p q
    assume a: "p < length (blob_ids t')" "q < length (blob_ids t')" "occ (blob_ids t') p"
      "blob_ids t' ! p = blob_ids t' ! q"
    then have "blob_ids t ! transp a b p = blob_ids t ! transp a b q" using ids len by simp
    moreover have "occ (blob_ids t) (transp a b p)" using a ids len by (simp add: occ_def)
    ultimately have "transp a b p = transp a b q"
      using d a ab len unfolding distinct_keys_def by simp
    then show "p = q" by (simp add: transp_eq_iff)
  qed
qed


lemma erase_inv_swap:
  assumes inv: "erase_inv hash N z t0 s w t hole nx"
    and q: "q = Suc nx mod N" "occ (blob_ids t) q" "q \<noteq> s"
    and cross: "crosses hash z t hole q"
    and t': "htab_len t' N" "\<And>p. p < N \<Longrightarrow> entry t' p = entry t (transp hole q p)"
  shows "erase_inv hash N z t0 s False t' q q"
proof -
  have base: "erase_base hash N z t0 s t hole" "nx < N" "z < N" "s < N" "hole < N"
      "htab_len t N" "occ (blob_ids t) hole" "distinct_keys (blob_ids t)"
      "entries t = entries t0" "entry t hole = entry t0 s" "co N z s \<le> co N z hole"
    using inv by (auto simp: erase_inv_def erase_base_def)
  have qN: "q < N" unfolding q(1) using base by (intro mod_less_divisor) simp
  have less: "co N z hole < co N z q" using cross base(6) by (simp add: crosses_def Let_def)
  then have ne: "q \<noteq> hole" by auto
  have ids: "blob_ids t' ! p = blob_ids t ! transp hole q p" if "p < N" for p
    using t'(2) [OF that] by (rule entry_ids)
  note sw = entries_swap [OF base(6) t'(1) base(5) qN base(7) q(2) t'(2)]
  have hm: "home hash (blob_ids t') = home hash (blob_ids t)"
    using t'(1) base(6) by (simp add: home_def fun_eq_iff)
  have r: "reaches hash z t p" if "p < N" "occ (blob_ids t) p" "p \<noteq> hole" for p
    using base(1) that by (simp add: erase_base_def)
  have "reaches hash z t' p" if p: "p < N" "occ (blob_ids t') p" "p \<noteq> q" for p
  proof (cases "p = hole")
    case True
    have "reaches hash z t q" using qN q(2) ne by (rule r)
    then show ?thesis
      using True cross less base t'(1) ids [OF p(1)] sw(2)
      by (auto simp: reaches_def crosses_def Let_def hm transp_def)
  next
    case False
    then have "reaches hash z t p" using p sw(2) by (intro r) auto
    then show ?thesis
      using False p base t'(1) ids [OF p(1)] sw(2)
      by (auto simp: reaches_def Let_def hm transp_def)
  qed
  moreover have "entry t' q = entry t0 s" using t'(2) [OF qN] base(10) ne
    by (simp add: transp_def)
  moreover have "entry t' p = entry t0 p" if "p < N" "\<not> occ (blob_ids t') p" for p
    using base(1,7) that t'(2) sw(2) q(2)
    by (auto simp: erase_base_def transp_def)
  ultimately have "erase_base hash N z t0 s t' q"
    using base qN t'(1) sw q(2) less by (simp add: erase_base_def)
  moreover have "\<not> crosses hash z t' q p" if "co N z p \<le> co N z q" for p
    using that t'(1) by (auto simp: crosses_def Let_def)
  moreover have "occ (blob_ids t') p" if "p < N" "co N z q \<le> co N z p" "co N z p \<le> co N z q" for p
    using co_facts(2) [OF base(3) that(1) qN] that sw(2) q(2) by auto
  ultimately show ?thesis using qN by (auto simp: erase_inv_def)
qed

lemma lp_erase_loop_correct:
  assumes n: "pow2_size n" "N = unat n"
  shows "erase_inv hash N z t0 s w t hole nx \<Longrightarrow> dist N (Suc nx mod N) s = r \<Longrightarrow>
    \<exists>t' hole'. lp_erase_loop hash (of_nat s) n t (of_nat hole) (of_nat nx) =
      Some (t', of_nat hole') \<and> erase_done hash N z t0 s t' hole'"
proof (induction r arbitrary: w t hole nx)
  case (0 w t hole nx)
  then have b: "htab_len t N" "s < N" "hole < N" "nx < N"
    by (auto simp: erase_inv_def erase_base_def)
  then have "Suc nx mod N < N" by (intro mod_less_divisor) simp
  then have "Suc nx mod N = s"
    using 0(2) b(2) by (simp only: dist_0_iff)
  then have "lp_erase_loop hash (of_nat s) n t (of_nat hole) (of_nat nx) = Some (t, of_nat hole)"
    by (subst lp_erase_loop_round [OF n(1) b(1) n(2) b(2-4)]) simp
  then show ?case using erase_inv_stop [OF 0(1)] \<open>Suc nx mod N = s\<close> by blast
next
  case (Suc r w t hole nx)
  let ?q = "Suc nx mod N"
  have b: "htab_len t N" "s < N" "hole < N" "nx < N" "z < N"
    using Suc.prems by (auto simp: erase_inv_def erase_base_def)
  have qN: "?q < N" using b by (intro mod_less_divisor) simp
  have ne: "?q \<noteq> s" using Suc.prems(2) b(2) by auto
  have r: "dist N (Suc ?q mod N) s = r"
    using Suc.prems(2) dist_Suc_left [OF qN b(2) ne] by simp
  note round = lp_erase_loop_round [OF n(1) b(1) n(2) b(2-4), of hash]
  show ?case
  proof (cases "occ (blob_ids t) ?q")
    case False
    then show ?thesis
      using erase_inv_stop [OF Suc.prems(1)] by (subst round) (auto simp: occ_def)
  next
    case o: True
    have reach: "?q \<noteq> hole \<Longrightarrow> reaches hash z t ?q"
      using Suc.prems(1) o qN by (simp add: erase_inv_def erase_base_def)
    let ?hm = "home hash (blob_ids t) (blob_ids t ! ?q)"
    have sw: "dist N ?hm hole < dist N ?hm ?q \<longleftrightarrow> crosses hash z t hole ?q"
      using swap_iff_crosses [OF b(1,5,3) qN reach]
      by (cases "?q = hole") (auto simp: crosses_def Let_def)
    show ?thesis
    proof (cases "crosses hash z t hole ?q")
      case True
      have u: "unat (of_nat x :: u64) = x" if "x < N" for x
        using that n(2) by (intro unat_of_nat_slot [of _ n]) simp
      obtain t' where t': "htable_swap (of_nat hole) (of_nat ?q) t = Some t'" "htab_len t' N"
          "\<And>p. p < N \<Longrightarrow> entry t' p = entry t (transp hole ?q p)"
        using htable_swap_eq [OF b(1), of "of_nat hole" "of_nat ?q"] u b qN by metis
      have "erase_inv hash N z t0 s False t' ?q ?q"
        using erase_inv_swap [OF Suc.prems(1) refl o ne True t'(2,3)] .
      from Suc.IH [OF this r] show ?thesis
        using o ne sw True t'(1) by (subst round) (simp add: occ_def)
    next
      case False
      then obtain w' where "erase_inv hash N z t0 s w' t hole ?q"
        using erase_inv_skip [OF Suc.prems(1) o ne] by blast
      from Suc.IH [OF this r] show ?thesis
        using o ne sw False by (subst round) (simp add: occ_def)
    qed
  qed
qed


lemma erase_inv_start:
  assumes len: "htab_len t N" and inv: "lp_inv hash (blob_ids t)" and z: "cut_at hash (blob_ids t) z"
    and s: "s < N" "occ (blob_ids t) s"
  shows "erase_inv hash N z t s False t s s"
proof -
  have zN: "z < N" using z len by (simp add: cut_at_def)
  have "reaches hash z t p" if p: "p < N" "occ (blob_ids t) p" for p
  proof -
    let ?hm = "home hash (blob_ids t) (blob_ids t ! p)"
    have hm: "?hm < N" using p len home_less [of "blob_ids t" hash] by auto
    have le: "co N z ?hm \<le> co N z p" using z p len by (simp add: cut_at_def)
    have "occ (blob_ids t) q" if q: "q < N" "co N z ?hm \<le> co N z q" "co N z q < co N z p" for q
    proof (rule chainD [of hash])
      show "dist (length (blob_ids t)) ?hm q < dist (length (blob_ids t)) ?hm p"
        using q le len dist_via_cut [OF hm q(1) zN] dist_via_cut [OF hm p(1) zN] by auto
    qed (use inv p q len in \<open>auto simp: lp_inv_def\<close>)
    then show ?thesis using le len by (simp add: reaches_def Let_def)
  qed
  then have "erase_base hash N z t s t s"
    using len inv s zN by (simp add: erase_base_def lp_inv_def)
  moreover have "occ (blob_ids t) q" if "q < N" "co N z s \<le> co N z q" "co N z q \<le> co N z s" for q
    using co_facts(2) [OF zN that(1) s(1)] that s by auto
  ultimately show ?thesis
    using s len by (auto simp: erase_inv_def crosses_def Let_def)
qed

lemma erase_done_lp_inv:
  assumes d: "erase_done hash N z t0 s t hole"
  shows "lp_inv hash ((blob_ids t)[hole := null_key])"
proof -
  let ?ks = "(blob_ids t)[hole := null_key]"
  have b: "htab_len t N" "z < N" "hole < N" "distinct_keys (blob_ids t)"
    using d by (auto simp: erase_done_def erase_base_def)
  have o: "occ ?ks p \<longleftrightarrow> p \<noteq> hole \<and> occ (blob_ids t) p" if "p < N" for p
    using that b by (auto simp: occ_update)
  have "distinct_keys ?ks"
    using b o unfolding distinct_keys_def
    by (auto simp: nth_list_update occ_def split: if_splits)
  moreover have ch: "chain hash ?ks"
    unfolding chain_alt
  proof (intro allI impI)
    fix p q
    let ?hm = "home hash (blob_ids t) (blob_ids t ! p)"
    assume a: "p < length ?ks" "occ ?ks p" "q < length ?ks"
      "dist (length ?ks) (home hash ?ks (?ks ! p)) q < dist (length ?ks) (home hash ?ks (?ks ! p)) p"
    then have p: "p < N" "q < N" "p \<noteq> hole" "occ (blob_ids t) p" "dist N ?hm q < dist N ?hm p"
      using b o by auto
    have hm: "?hm < N" using p b home_less [of "blob_ids t" hash] by auto
    have r: "reaches hash z t p" "\<not> crosses hash z t hole p"
      using d p by (auto simp: erase_done_def erase_base_def)
    then have "co N z ?hm \<le> co N z q" "co N z q < co N z p"
      using p b dist_less [of N "Suc z" p] dist_less [of N "Suc z" ?hm]
        dist_via_cut [OF hm p(2) b(2)] dist_via_cut [OF hm p(1) b(2)]
      by (auto simp: reaches_def Let_def split: if_splits)
    then have "occ (blob_ids t) q" "q \<noteq> hole"
      using r p b by (auto simp: reaches_def crosses_def Let_def)
    then show "occ ?ks q" using o p by simp
  qed
  moreover have "\<exists>z<length ?ks. cut_at hash ?ks z"
    using chain_free_cut [OF ch, of hole] o b by auto
  ultimately show ?thesis by (simp add: lp_inv_def)
qed

lemma entries_erase:
  assumes "htab_len t N" "hole < N" "occ (blob_ids t) hole" "distinct_keys (blob_ids t)"
  shows "entries (t\<lparr>blob_ids := (blob_ids t)[hole := null_key]\<rparr>) = entries t - {entry t hole}"
proof -
  let ?t = "t\<lparr>blob_ids := (blob_ids t)[hole := null_key]\<rparr>"
  have o: "occ (blob_ids ?t) p \<longleftrightarrow> p \<noteq> hole \<and> occ (blob_ids t) p" if "p < N" for p
    using that assms by (auto simp: occ_update)
  have e: "entry ?t p = entry t p" if "p \<noteq> hole" for p
    using that by (simp add: entry_def)
  have ne: "entry t p \<noteq> entry t hole" if "p < N" "occ (blob_ids t) p" "p \<noteq> hole" for p
    using that assms entry_ids [of t p t hole] unfolding distinct_keys_def by auto
  show ?thesis
  proof (intro equalityI subsetI)
    fix x
    assume "x \<in> entries ?t"
    then obtain p where "p < N" "occ (blob_ids ?t) p" "x = entry ?t p"
      using assms(1) by (auto simp: entries_def)
    then show "x \<in> entries t - {entry t hole}"
      using o e ne assms(1) by (auto simp: entries_def)
  next
    fix x
    assume "x \<in> entries t - {entry t hole}"
    then obtain p where p: "p < N" "occ (blob_ids t) p" "x = entry t p" "p \<noteq> hole"
      using assms(1) by (auto simp: entries_def)
    then have "x = entry ?t p" "occ (blob_ids ?t) p" using o e by simp_all
    then show "x \<in> entries ?t" using p(1) assms(1) by (auto simp: entries_def)
  qed
qed

text \<open>
  Deletion of the key in slot \<open>s\<close>: it ends, removes this entry and no other, keeps the
  invariant, and leaves the payload of the victim in the slot it returns.
\<close>

lemma lp_erase_correct:
  assumes n: "pow2_size n" and len: "htab_len t (unat n)" and inv: "lp_inv hash (blob_ids t)"
    and s: "s < unat n" "occ (blob_ids t) s"
  obtains t' hole where "lp_erase hash t (of_nat s) n = Some (t', of_nat hole)"
    "hole < unat n" "htab_len t' (unat n)" "lp_inv hash (blob_ids t')"
    "blob_ids t' ! hole = null_key" "blob_data t' ! hole = blob_data t ! s"
    "blob_valid_until t' ! hole = blob_valid_until t ! s"
    "entries t' = entries t - {entry t s}"
    "\<And>q. q < unat n \<Longrightarrow> q \<noteq> hole \<Longrightarrow> \<not> occ (blob_ids t') q \<Longrightarrow> entry t' q = entry t q"
proof -
  obtain z where z: "cut_at hash (blob_ids t) z" using inv by (auto simp: lp_inv_def)
  obtain t1 hole where loop: "lp_erase_loop hash (of_nat s) n t (of_nat s) (of_nat s) =
      Some (t1, of_nat hole)" and d: "erase_done hash (unat n) z t s t1 hole"
    using lp_erase_loop_correct [OF n refl erase_inv_start [OF len inv z s] refl] by blast
  have b: "htab_len t1 (unat n)" "hole < unat n" "occ (blob_ids t1) hole"
      "distinct_keys (blob_ids t1)" "entries t1 = entries t" "entry t1 hole = entry t s"
    using d by (auto simp: erase_done_def erase_base_def)
  let ?t = "t1\<lparr>blob_ids := (blob_ids t1)[hole := null_key]\<rparr>"
  have "lp_erase hash t (of_nat s) n = Some (?t, of_nat hole)"
    using loop b by (simp add: lp_erase_def unat_of_nat_slot [of hole n])
  moreover have "blob_data t1 ! hole = blob_data t ! s"
    "blob_valid_until t1 ! hole = blob_valid_until t ! s"
    using b(6) by (simp_all add: entry_def)
  moreover have "htab_len ?t (unat n)" using b(1) unfolding htab_len_def by simp
  moreover have "blob_ids ?t ! hole = null_key" using b(1,2) by simp
  moreover have "entries ?t = entries t - {entry t s}"
    using entries_erase [OF b(1-4)] unfolding b(5,6) .
  moreover have "entry ?t q = entry t q"
    if "q < unat n" "q \<noteq> hole" "\<not> occ (blob_ids ?t) q" for q
    using d that b(1,2) by (auto simp: erase_done_def erase_base_def occ_update entry_def)
  ultimately show ?thesis
    using b(2) erase_done_lp_inv [OF d] by (intro that [of ?t hole]) auto
qed

end
