(* ===== verification/Key_Table.thy ===== *)
theory Key_Table
  imports Linear_Probing
begin

text \<open>
  The probing table as a finite map from keys to payloads. The locale states what a client of
  an open addressing table relies on; it is interpreted on the functions of
  \<^verbatim>\<open>linear_probing.h\<close> as \<^verbatim>\<open>storage.c\<close> uses them.
\<close>

section \<open>The contract of a slot table\<close>

locale slot_table =
  fixes inv :: "'t \<Rightarrow> bool"
    and view :: "'t \<Rightarrow> 'k \<Rightarrow> 'v option"
    and valid_key :: "'k \<Rightarrow> bool"
    and room :: "'t \<Rightarrow> bool"
    and missing :: "'i"
    and find :: "'t \<Rightarrow> 'k \<Rightarrow> 'i option"
    and slot :: "'t \<Rightarrow> 'k \<Rightarrow> 'i option"
    and put :: "'t \<Rightarrow> 'i \<Rightarrow> 'k \<Rightarrow> 'v \<Rightarrow> 't option"
    and erase :: "'t \<Rightarrow> 'i \<Rightarrow> ('t \<times> 'i) option"
  assumes find_hit: "inv t \<Longrightarrow> view t k = Some v \<Longrightarrow> \<exists>i. find t k = Some i \<and> i \<noteq> missing"
    and find_miss: "inv t \<Longrightarrow> view t k = None \<Longrightarrow> find t k = Some missing"
    and slot_put: "inv t \<Longrightarrow> valid_key k \<Longrightarrow> view t k = None \<Longrightarrow> room t \<Longrightarrow>
      \<exists>i t'. slot t k = Some i \<and> put t i k v = Some t' \<and> inv t' \<and> view t' = (view t)(k \<mapsto> v)"
    and erase_at: "inv t \<Longrightarrow> find t k = Some i \<Longrightarrow> i \<noteq> missing \<Longrightarrow>
      \<exists>t' j. erase t i = Some (t', j) \<and> inv t' \<and> view t' = (view t)(k := None)"
begin

lemma find_iff:
  "inv t \<Longrightarrow> \<exists>i. find t k = Some i \<and> (i = missing \<longleftrightarrow> view t k = None)"
  using find_hit find_miss by (cases "view t k") fastforce+

text \<open>A new key is found afterwards, and erasing it gives back the map from before.\<close>

lemma put_find:
  assumes "inv t" "valid_key k" "view t k = None" "room t"
    "slot t k = Some i" "put t i k v = Some t'"
  shows "inv t' \<and> view t' = (view t)(k \<mapsto> v) \<and> (\<exists>j. find t' k = Some j \<and> j \<noteq> missing)"
  using slot_put [OF assms(1-4), of v] assms(5,6) find_hit [of t' k v] by auto

lemma put_erase:
  assumes "inv t" "valid_key k" "view t k = None" "room t"
    "slot t k = Some i" "put t i k v = Some t'" "find t' k = Some j"
  shows "\<exists>t'' h. erase t' j = Some (t'', h) \<and> inv t'' \<and> view t'' = view t"
proof -
  have p: "inv t'" "view t' = (view t)(k \<mapsto> v)" "j \<noteq> missing"
    using put_find [OF assms(1-6)] assms(7) by auto
  have "(view t)(k \<mapsto> v, k := None) = view t" using assms(3) by auto
  then show ?thesis using erase_at [OF p(1) assms(7) p(3)] p(2) by (auto simp: fun_upd_idem)
qed

text \<open>An erased key is gone, and no other key is.\<close>

lemma erase_find:
  assumes "inv t" "find t k = Some i" "i \<noteq> missing" "erase t i = Some (t', j)"
  shows "inv t' \<and> find t' k = Some missing \<and> (\<forall>k'. k' \<noteq> k \<longrightarrow> view t' k' = view t k')"
  using erase_at [OF assms(1-3)] assms(4) find_miss [of t' k] by auto

end


section \<open>The probing table as a map\<close>

definition tab_view :: "htab \<Rightarrow> htable_key_t \<Rightarrow> (blk_t \<times> u32) option" where
  "tab_view t = map_of (filter (\<lambda>(k, _). \<not> key_is_null k)
     (zip (blob_ids t) (zip (blob_data t) (blob_valid_until t))))"

definition tab_used :: "htab \<Rightarrow> nat" where
  "tab_used t = length (filter (\<lambda>k. \<not> key_is_null k) (blob_ids t))"

definition tab_inv :: "hash_fun \<Rightarrow> u64 \<Rightarrow> htab \<Rightarrow> bool" where
  "tab_inv hash n t \<longleftrightarrow> pow2_size n \<and> htab_len t (unat n) \<and> lp_inv hash (blob_ids t)"

text \<open>The three stores of \<^verbatim>\<open>storage_blob_create\<close> into a slot.\<close>

definition tab_put :: "htab \<Rightarrow> u64 \<Rightarrow> htable_key_t \<Rightarrow> blk_t \<times> u32 \<Rightarrow> htab option" where
  "tab_put t i k e = do {
     ids \<leftarrow> wr (blob_ids t) i k;
     ds \<leftarrow> wr (blob_data t) i (fst e);
     vs \<leftarrow> wr (blob_valid_until t) i (snd e);
     Some (t\<lparr>blob_ids := ids, blob_data := ds, blob_valid_until := vs\<rparr>) }"

lemma tab_invD:
  assumes "tab_inv hash n t"
  shows "pow2_size n" "htab_len t (unat n)" "lp_inv hash (blob_ids t)"
    "distinct_keys (blob_ids t)" "length (blob_ids t) = unat n"
  using assms by (auto simp: tab_inv_def lp_inv_def)

lemma distinct_keys_filter: "distinct_keys ks \<Longrightarrow> distinct (filter (\<lambda>k. \<not> key_is_null k) ks)"
proof (induction ks)
  case (Cons k ks)
  have "distinct_keys ks"
    using Cons.prems unfolding distinct_keys_def occ_def
    by (metis Suc_less_eq length_Cons nat.inject nth_Cons_Suc)
  moreover have "k \<notin> set ks" if "\<not> key_is_null k"
  proof
    assume "k \<in> set ks"
    then obtain q where "q < length ks" "ks ! q = k" by (auto simp: in_set_conv_nth)
    then show False
      using Cons.prems that unfolding distinct_keys_def occ_def
      by (metis Suc_less_eq length_Cons nat.distinct(1) nth_Cons_0 nth_Cons_Suc zero_less_Suc)
  qed
  ultimately show ?case using Cons.IH by simp
qed simp

lemma map_fst_filter_zip:
  "length xs = length ys \<Longrightarrow>
   map fst (filter (\<lambda>(k, _). P k) (zip xs ys)) = filter P xs"
  by (induction xs ys rule: list_induct2) auto

lemma tab_view_iff:
  assumes "htab_len t N" "distinct_keys (blob_ids t)"
  shows "tab_view t k = Some e \<longleftrightarrow> (k, e) \<in> entries t"
proof -
  let ?z = "zip (blob_ids t) (zip (blob_data t) (blob_valid_until t))"
  let ?f = "filter (\<lambda>(k, _). \<not> key_is_null k) ?z"
  have "map fst ?f = filter (\<lambda>k. \<not> key_is_null k) (blob_ids t)"
    using assms(1) by (intro map_fst_filter_zip) simp
  then have "distinct (map fst ?f)" using distinct_keys_filter [OF assms(2)] by simp
  then have "tab_view t k = Some e \<longleftrightarrow> (k, e) \<in> set ?f"
    unfolding tab_view_def by (rule map_of_eq_Some_iff)
  also have "set ?f = entries t"
    using assms(1) by (auto simp: entries_def entry_def occ_def set_zip)
  finally show ?thesis .
qed

lemma tab_view_nth:
  assumes "tab_inv hash n t" "p < unat n" "occ (blob_ids t) p"
  shows "tab_view t (blob_ids t ! p) = Some (blob_data t ! p, blob_valid_until t ! p)"
proof -
  have "entry t p \<in> entries t" using assms tab_invD [OF assms(1)] by (auto simp: entries_def)
  then show ?thesis
    using tab_view_iff [OF tab_invD(2,4) [OF assms(1)]] by (simp add: entry_def)
qed

lemma tab_view_SomeE:
  assumes "tab_inv hash n t" "tab_view t k = Some e"
  obtains p where "p < unat n" "occ (blob_ids t) p" "blob_ids t ! p = k"
    "e = (blob_data t ! p, blob_valid_until t ! p)"
  using assms tab_view_iff [OF tab_invD(2,4) [OF assms(1)]] tab_invD(5) [OF assms(1)]
  by (auto simp: entries_def entry_def)

lemma tab_view_NoneD:
  assumes "tab_inv hash n t" "tab_view t k = None"
  shows "key_is_null k \<or> k \<notin> set (blob_ids t)"
proof (rule ccontr)
  assume "\<not> ?thesis"
  then obtain p where "p < unat n" "blob_ids t ! p = k" "occ (blob_ids t) p"
    using tab_invD(5) [OF assms(1)] by (auto simp: in_set_conv_nth occ_def)
  then show False using tab_view_nth [OF assms(1), of p] assms(2) by simp
qed

lemma tab_view_null: "tab_inv hash n t \<Longrightarrow> key_is_null k \<Longrightarrow> tab_view t k = None"
  by (rule ccontr) (auto elim: tab_view_SomeE simp: occ_def)

lemma tab_used_card:
  assumes "htab_len t N" "distinct_keys (blob_ids t)"
  shows "tab_used t = card (entries t)"
proof -
  let ?A = "{p. p < length (blob_ids t) \<and> occ (blob_ids t) p}"
  have "inj_on (entry t) ?A"
    using assms(2) unfolding inj_on_def distinct_keys_def entry_def by simp
  then have "card (entries t) = card ?A" unfolding entries_def by (rule card_image)
  also have "\<dots> = tab_used t" by (simp add: tab_used_def length_filter_conv_card occ_def)
  finally show ?thesis by simp
qed

lemma finite_entries [simp]: "finite (entries t)"
  by (simp add: entries_def)

lemma finite_dom_tab_view [simp]: "finite (dom (tab_view t))"
  by (simp add: tab_view_def finite_dom_map_of)

lemma card_dom_tab_view:
  assumes "htab_len t N" "distinct_keys (blob_ids t)"
  shows "card (dom (tab_view t)) = tab_used t"
proof -
  have "dom (tab_view t) = fst ` entries t"
    using tab_view_iff [OF assms] by (force simp: dom_def)
  moreover have "inj_on fst (entries t)"
    using tab_view_iff [OF assms] unfolding inj_on_def
    by (metis option.inject prod.collapse)
  ultimately show ?thesis using tab_used_card [OF assms] by (simp add: card_image)
qed


section \<open>The operations on the map\<close>

lemma tab_find_hit:
  assumes inv: "tab_inv hash n t" and v: "tab_view t k = Some e"
  obtains p where "p < unat n" "occ (blob_ids t) p" "blob_ids t ! p = k"
    "e = (blob_data t ! p, blob_valid_until t ! p)"
    "lp_lookup hash (blob_ids t) k n = Some (of_nat p)" "of_nat p \<noteq> n"
proof -
  obtain p where p: "p < unat n" "occ (blob_ids t) p" "blob_ids t ! p = k"
      "e = (blob_data t ! p, blob_valid_until t ! p)"
    using inv v by (rule tab_view_SomeE)
  have "lp_lookup hash (blob_ids t) k n = Some (of_nat p)"
    using lp_lookup_found [of n "blob_ids t" hash p] p tab_invD [OF inv] by simp
  moreover have "of_nat p \<noteq> n" using unat_of_nat_slot [OF p(1)] p(1) by auto
  ultimately show ?thesis using p that by blast
qed

lemma tab_find_miss:
  assumes inv: "tab_inv hash n t" and v: "tab_view t k = None"
  shows "lp_lookup hash (blob_ids t) k n = Some n"
  using lp_lookup_absent [OF tab_invD(1,5) [OF inv] tab_view_NoneD [OF inv v]] .

lemma tab_free_slot:
  assumes "htab_len t N" "tab_used t < N"
  shows "\<exists>p<N. \<not> occ (blob_ids t) p"
proof (rule ccontr)
  assume "\<not> ?thesis"
  then have "{p. p < length (blob_ids t) \<and> occ (blob_ids t) p} = {..<N}" using assms by auto
  then show False
    using assms by (simp add: tab_used_def length_filter_conv_card occ_def)
qed

lemma entries_put:
  assumes len: "htab_len t N" and p: "p < N" "\<not> occ (blob_ids t) p" and k: "\<not> key_is_null k"
    and t': "t' = t\<lparr>blob_ids := (blob_ids t)[p := k], blob_data := (blob_data t)[p := b],
      blob_valid_until := (blob_valid_until t)[p := v]\<rparr>"
  shows "entries t' = insert (k, b, v) (entries t)"
proof -
  have l: "length (blob_ids t) = N" "length (blob_data t) = N" "length (blob_valid_until t) = N"
    using len by simp_all
  have e: "entry t' q = (if q = p then (k, b, v) else entry t q)" if "q < N" for q
    using that l p(1) by (simp add: t' entry_def)
  let ?A = "{q. q < length (blob_ids t) \<and> occ (blob_ids t) q}"
  have "{q. q < length (blob_ids t') \<and> occ (blob_ids t') q} = insert p ?A"
    using l p k by (auto simp: t' occ_update)
  then have "entries t' = insert (entry t' p) (entry t' ` ?A)" by (simp add: entries_def)
  also have "entry t' ` ?A = entries t"
    unfolding entries_def using e l p by (intro image_cong) auto
  finally show ?thesis using e [OF p(1)] by simp
qed

lemma tab_insert:
  assumes inv: "tab_inv hash n t" and k: "\<not> key_is_null k" "tab_view t k = None"
    and room: "tab_used t < unat n"
  obtains p where "p < unat n" "lp_find_free_slot hash (blob_ids t) k n = Some (of_nat p)"
    "\<not> occ (blob_ids t) p"
    "\<And>b v t'. t' = t\<lparr>blob_ids := (blob_ids t)[p := k], blob_data := (blob_data t)[p := b],
        blob_valid_until := (blob_valid_until t)[p := v]\<rparr> \<Longrightarrow>
      tab_put t (of_nat p) k (b, v) = Some t' \<and> tab_inv hash n t' \<and>
      tab_view t' = (tab_view t)(k \<mapsto> (b, v)) \<and> tab_used t' = Suc (tab_used t)"
proof -
  note i = tab_invD [OF inv]
  have absent: "k \<notin> set (blob_ids t)" using tab_view_NoneD [OF inv k(2)] k(1) by simp
  obtain q where q: "q < length (blob_ids t)" "\<not> occ (blob_ids t) q"
    using tab_free_slot [OF i(2) room] i(5) by auto
  obtain D where D: "D < length (blob_ids t)"
      "\<And>d. d < D \<Longrightarrow> occ (blob_ids t) ((home hash (blob_ids t) k + d) mod length (blob_ids t))"
      "\<not> occ (blob_ids t) ((home hash (blob_ids t) k + D) mod length (blob_ids t))"
      "lp_find_free_slot hash (blob_ids t) k n =
        Some (of_nat ((home hash (blob_ids t) k + D) mod length (blob_ids t)))"
    using lp_find_free_slot_scan [OF i(1,5) q] by blast
  define p where "p = (home hash (blob_ids t) k + D) mod length (blob_ids t)"
  have p: "p < unat n" using i pow2_size_pos by (simp add: p_def)
  have lpi: "lp_inv hash ((blob_ids t)[p := k])"
    using i(3) k(1) absent D(1,2) p_def D(3) [folded p_def] by (rule lp_inv_insert)
  have "tab_put t (of_nat p) k (b, v) = Some t' \<and> tab_inv hash n t' \<and>
      tab_view t' = (tab_view t)(k \<mapsto> (b, v)) \<and> tab_used t' = Suc (tab_used t)"
    if t': "t' = t\<lparr>blob_ids := (blob_ids t)[p := k], blob_data := (blob_data t)[p := b],
        blob_valid_until := (blob_valid_until t)[p := v]\<rparr>" for b v t'
  proof -
    have put: "tab_put t (of_nat p) k (b, v) = Some t'"
      using i(2) p by (simp add: tab_put_def t' unat_of_nat_slot [of p n])
    have inv': "tab_inv hash n t'"
      using inv lpi unfolding tab_inv_def htab_len_def by (simp add: t')
    have e: "entries t' = insert (k, b, v) (entries t)"
      using i(2) p D(3) [folded p_def] k(1) t' by (rule entries_put)
    have new: "(k, x) \<notin> entries t" for x using tab_view_iff [OF i(2,4), of k x] k(2) by simp
    have iff: "tab_view t' k' = Some x \<longleftrightarrow> (if k' = k then x = (b, v) else tab_view t k' = Some x)"
      for k' x
      using e tab_view_iff [OF tab_invD(2,4) [OF inv']] tab_view_iff [OF i(2,4)] new by auto
    have "tab_view t' k' = ((tab_view t)(k \<mapsto> (b, v))) k'" for k'
      by (rule option_eqI) (auto simp: iff)
    then have view: "tab_view t' = (tab_view t)(k \<mapsto> (b, v))" by (rule ext)
    from new have "tab_used t' = Suc (tab_used t)"
      using e tab_used_card [OF tab_invD(2,4) [OF inv']] tab_used_card [OF i(2,4)] by simp
    with put inv' view show ?thesis by blast
  qed
  with p D(3,4) that show ?thesis unfolding p_def [symmetric] by blast
qed


lemma tab_erase:
  assumes inv: "tab_inv hash n t" and p: "p < unat n" "occ (blob_ids t) p"
  obtains t' hole where "lp_erase hash t (of_nat p) n = Some (t', of_nat hole)"
    "hole < unat n" "tab_inv hash n t'"
    "tab_view t' = (tab_view t)(blob_ids t ! p := None)" "tab_used t = Suc (tab_used t')"
    "blob_ids t' ! hole = null_key" "blob_data t' ! hole = blob_data t ! p"
    "blob_valid_until t' ! hole = blob_valid_until t ! p"
    "\<And>q. q < unat n \<Longrightarrow> q \<noteq> hole \<Longrightarrow> \<not> occ (blob_ids t') q \<Longrightarrow> entry t' q = entry t q"
proof -
  note i = tab_invD [OF inv]
  obtain t' hole where e: "lp_erase hash t (of_nat p) n = Some (t', of_nat hole)"
    "hole < unat n" "htab_len t' (unat n)" "lp_inv hash (blob_ids t')"
    "blob_ids t' ! hole = null_key" "blob_data t' ! hole = blob_data t ! p"
    "blob_valid_until t' ! hole = blob_valid_until t ! p"
    "entries t' = entries t - {entry t p}"
    "\<And>q. q < unat n \<Longrightarrow> q \<noteq> hole \<Longrightarrow> \<not> occ (blob_ids t') q \<Longrightarrow> entry t' q = entry t q"
    using lp_erase_correct [OF i(1,2,3) p] by blast
  have inv': "tab_inv hash n t'" using e i by (simp add: tab_inv_def)
  have mem: "entry t p \<in> entries t" using p i by (auto simp: entries_def)
  have vp: "tab_view t (blob_ids t ! p) = Some (snd (entry t p))"
    using tab_view_nth [OF inv p] by (simp add: entry_def)
  have iff: "tab_view t' k = Some x \<longleftrightarrow> k \<noteq> blob_ids t ! p \<and> tab_view t k = Some x" for k x
  proof -
    have "tab_view t' k = Some x \<longleftrightarrow> tab_view t k = Some x \<and> (k, x) \<noteq> entry t p"
      using e(8) tab_view_iff [OF tab_invD(2,4) [OF inv']] tab_view_iff [OF i(2,4)] by simp
    then show ?thesis using vp by (auto simp: entry_def)
  qed
  have "tab_view t' k = ((tab_view t)(blob_ids t ! p := None)) k" for k
    by (rule option_eqI) (auto simp: iff)
  then have view: "tab_view t' = (tab_view t)(blob_ids t ! p := None)" by (rule ext)
  have "card (entries t) = Suc (card (entries t'))"
    unfolding e(8) using mem card.remove [OF finite_entries mem] by simp
  then have "tab_used t = Suc (tab_used t')"
    using tab_used_card [OF tab_invD(2,4) [OF inv']] tab_used_card [OF i(2,4)] by simp
  with e inv' view that show ?thesis by blast
qed

text \<open>Payloads of free slots do not matter to the map.\<close>

lemma tab_update_free:
  assumes inv: "tab_inv hash n t" and p: "p < unat n" "\<not> occ (blob_ids t) p"
    and t': "t' = t\<lparr>blob_ids := (blob_ids t)[p := null_key], blob_data := (blob_data t)[p := b],
      blob_valid_until := (blob_valid_until t)[p := v]\<rparr>"
  shows "tab_inv hash n t'" "tab_view t' = tab_view t" "tab_used t' = tab_used t"
    "blob_ids t' = blob_ids t"
proof -
  note i = tab_invD [OF inv]
  have nul: "blob_ids t ! p = null_key" using p by (simp add: occ_def key_is_null_iff)
  show ids: "blob_ids t' = blob_ids t" by (simp add: t' nul [symmetric])
  show inv': "tab_inv hash n t'"
    using inv ids unfolding tab_inv_def htab_len_def by (simp add: t')
  show "tab_used t' = tab_used t" by (simp add: tab_used_def ids)
  have "entry t' q = entry t q" if "occ (blob_ids t) q" for q
  proof -
    have "q \<noteq> p" using p that by auto
    then show ?thesis by (simp add: t' entry_def)
  qed
  then have "entries t' = entries t" unfolding entries_def ids by (intro image_cong) auto
  then have iff: "tab_view t' k = Some x \<longleftrightarrow> tab_view t k = Some x" for k x
    using tab_view_iff [OF tab_invD(2,4) [OF inv']] tab_view_iff [OF i(2,4)] by simp
  have "tab_view t' k = tab_view t k" for k
    by (rule option_eqI) (auto simp: iff)
  then show "tab_view t' = tab_view t" by (rule ext)
qed

lemma tab_view_ex:
  assumes "tab_inv hash n t"
  shows "tab_view t k = Some e \<longleftrightarrow> (\<exists>q<unat n. occ (blob_ids t) q \<and> blob_ids t ! q = k \<and>
    e = (blob_data t ! q, blob_valid_until t ! q))"
  using tab_view_nth [OF assms] tab_view_SomeE [OF assms] by metis

text \<open>Storing another expiry time in a slot that is in use.\<close>

lemma tab_set_time:
  assumes inv: "tab_inv hash n t" and p: "p < unat n" "occ (blob_ids t) p"
    and t': "t' = t\<lparr>blob_valid_until := (blob_valid_until t)[p := v]\<rparr>"
  shows "tab_inv hash n t'"
    "tab_view t' = (tab_view t)(blob_ids t ! p \<mapsto> (blob_data t ! p, v))"
    "tab_used t' = tab_used t"
proof -
  note i = tab_invD [OF inv]
  show inv': "tab_inv hash n t'"
    using inv unfolding tab_inv_def htab_len_def by (simp add: t')
  show "tab_used t' = tab_used t" by (simp add: tab_used_def t')
  have len: "length (blob_valid_until t) = unat n" using i(2) unfolding htab_len_def by simp
  show "tab_view t' = (tab_view t)(blob_ids t ! p \<mapsto> (blob_data t ! p, v))"
  proof (intro ext option_eqI)
    fix k e
    have "blob_valid_until t' ! q = (if q = p then v else blob_valid_until t ! q)" if "q < unat n" for q
      using that len by (simp add: t' nth_list_update)
    then have "tab_view t' k = Some e \<longleftrightarrow>
        (\<exists>q<unat n. occ (blob_ids t) q \<and> blob_ids t ! q = k \<and>
           e = (blob_data t ! q, if q = p then v else blob_valid_until t ! q))"
      unfolding tab_view_ex [OF inv'] by (auto simp: t')
    moreover have "blob_ids t ! q = blob_ids t ! p \<longleftrightarrow> q = p" if "q < unat n" "occ (blob_ids t) q" for q
      using i(4,5) p that unfolding distinct_keys_def by metis
    moreover note tab_view_ex [OF inv, of k e]
    ultimately show "tab_view t' k = Some e \<longleftrightarrow>
        ((tab_view t)(blob_ids t ! p \<mapsto> (blob_data t ! p, v))) k = Some e"
      using p by auto
  qed
qed


text \<open>
  The contract holds of the probing table of any hash function and any power-of-two size;
  the index that stands for a missing key is the table size.
\<close>

interpretation lp: slot_table
  "tab_inv hash n" tab_view "\<lambda>k. \<not> key_is_null k" "\<lambda>t. tab_used t < unat n" n
  "\<lambda>t k. lp_lookup hash (blob_ids t) k n" "\<lambda>t k. lp_find_free_slot hash (blob_ids t) k n"
  tab_put "\<lambda>t i. lp_erase hash t i n"
  for hash :: hash_fun and n :: u64
proof
  fix t :: htab and k v
  assume a: "tab_inv hash n t" "tab_view t k = Some v"
  obtain p where "lp_lookup hash (blob_ids t) k n = Some (of_nat p)" "of_nat p \<noteq> n"
    using tab_find_hit [OF a] by blast
  then show "\<exists>i. lp_lookup hash (blob_ids t) k n = Some i \<and> i \<noteq> n" by blast
next
  fix t :: htab and k
  assume "tab_inv hash n t" "tab_view t k = None"
  then show "lp_lookup hash (blob_ids t) k n = Some n" by (rule tab_find_miss)
next
  fix t :: htab and k and v :: "blk_t \<times> u32"
  assume a: "tab_inv hash n t" "\<not> key_is_null k" "tab_view t k = None" "tab_used t < unat n"
  obtain b u where v: "v = (b, u)" by fastforce
  show "\<exists>i t'. lp_find_free_slot hash (blob_ids t) k n = Some i \<and> tab_put t i k v = Some t' \<and>
      tab_inv hash n t' \<and> tab_view t' = (tab_view t)(k \<mapsto> v)"
    using tab_insert [OF a] unfolding v by metis
next
  fix t :: htab and k i
  assume a: "tab_inv hash n t" "lp_lookup hash (blob_ids t) k n = Some i" "i \<noteq> n"
  then obtain e where "tab_view t k = Some e" using tab_find_miss [OF a(1), of k] by fastforce
  then obtain p where p: "p < unat n" "occ (blob_ids t) p" "blob_ids t ! p = k" "i = of_nat p"
    using tab_find_hit [OF a(1)] a(2) by (metis option.inject)
  then show "\<exists>t' j. lp_erase hash t i n = Some (t', j) \<and> tab_inv hash n t' \<and>
      tab_view t' = (tab_view t)(k := None)"
    using tab_erase [OF a(1) p(1,2)] by metis
qed

end
