(* ===== verification/Memory.thy ===== *)
theory Memory
  imports Keys
begin

text \<open>
  The bytes of the arena behind \<^verbatim>\<open>mallocated_data\<close>: a partial map from addresses to bytes whose
  domain is what was allocated, so an access outside of it has no result. Pointers stored in
  the arena (the free lists) are eight little-endian bytes of it.
\<close>

type_synonym mem = "addr \<Rightarrow> u8 option"

fun load_bytes :: "mem \<Rightarrow> addr \<Rightarrow> nat \<Rightarrow> u8 list option" where
  "load_bytes m a 0 = Some []"
| "load_bytes m a (Suc n) = do { b \<leftarrow> m a; bs \<leftarrow> load_bytes m (Suc a) n; Some (b # bs) }"

fun store_bytes :: "mem \<Rightarrow> addr \<Rightarrow> u8 list \<Rightarrow> mem option" where
  "store_bytes m a [] = Some m"
| "store_bytes m a (b # bs) = do { _ \<leftarrow> m a; store_bytes (m(a \<mapsto> b)) (Suc a) bs }"

definition load_ptr :: "mem \<Rightarrow> addr \<Rightarrow> addr option" where
  "load_ptr m a = map_option le_nat (load_bytes m a 8)"

definition store_ptr :: "mem \<Rightarrow> addr \<Rightarrow> addr \<Rightarrow> mem option" where
  "store_ptr m a p = store_bytes m a (le_bytes 8 p)"

text \<open>\<^verbatim>\<open>secure_zero\<close>: the byte loop of the portable branch.\<close>

fun secure_zero :: "mem \<Rightarrow> addr \<Rightarrow> nat \<Rightarrow> mem option" where
  "secure_zero m p 0 = Some m"
| "secure_zero m p (Suc n) = do { _ \<leftarrow> m p; secure_zero (m(p \<mapsto> 0)) (Suc p) n }"


section \<open>Reading and writing ranges\<close>

text \<open>The bytes \<open>a\<close> to \<open>a + n - 1\<close>.\<close>

abbreviation bytes :: "addr \<Rightarrow> nat \<Rightarrow> addr set" where
  "bytes a n \<equiv> {a..<a + n}"

lemma bytes_Suc: "bytes a (Suc n) = insert a (bytes (Suc a) n)"
  by auto

lemma store_bytes_eq:
  "bytes a (length bs) \<subseteq> dom m \<Longrightarrow> store_bytes m a bs =
     Some (\<lambda>x. if x \<in> bytes a (length bs) then Some (bs ! (x - a)) else m x)"
proof (induction bs arbitrary: m a)
  case (Cons b bs)
  have "insert a (bytes (Suc a) (length bs)) \<subseteq> dom m"
    using Cons.prems unfolding length_Cons bytes_Suc .
  then obtain y where y: "m a = Some y"
    and sub: "bytes (Suc a) (length bs) \<subseteq> dom (m(a \<mapsto> b))" by auto
  have "store_bytes m a (b # bs) = Some (\<lambda>x. if x \<in> bytes (Suc a) (length bs)
      then Some (bs ! (x - Suc a)) else (m(a \<mapsto> b)) x)"
    by (simp only: store_bytes.simps y Option.bind.bind_lunit Cons.IH [OF sub])
  also have "(\<lambda>x. if x \<in> bytes (Suc a) (length bs)
      then Some (bs ! (x - Suc a)) else (m(a \<mapsto> b)) x) =
      (\<lambda>x. if x \<in> bytes a (length (b # bs)) then Some ((b # bs) ! (x - a)) else m x)"
    by (rule ext) (auto simp: nth_Cons')
  finally show ?case .
qed simp

lemma store_bytes_SomeD: "store_bytes m a bs = Some m' \<Longrightarrow> bytes a (length bs) \<subseteq> dom m"
proof (induction bs arbitrary: m a)
  case (Cons b bs)
  from Cons.prems have "a \<in> dom m" "store_bytes (m(a \<mapsto> b)) (Suc a) bs = Some m'"
    by (auto split: bind_splits)
  with Cons.IH have "bytes (Suc a) (length bs) \<subseteq> insert a (dom m)" by fastforce
  with \<open>a \<in> dom m\<close> show ?case unfolding length_Cons bytes_Suc by blast
qed simp

lemma store_bytes_frame:
  "store_bytes m a bs = Some m' \<Longrightarrow> x \<notin> bytes a (length bs) \<Longrightarrow> m' x = m x"
  using store_bytes_eq [OF store_bytes_SomeD] by fastforce

lemma store_bytes_dom: "store_bytes m a bs = Some m' \<Longrightarrow> dom m' = dom m"
  using store_bytes_eq [OF store_bytes_SomeD, of m a bs m'] store_bytes_SomeD [of m a bs m']
  by (auto simp: dom_def subset_iff split: if_splits)

lemma load_bytes_cong:
  "(\<And>x. x \<in> bytes a n \<Longrightarrow> m x = m' x) \<Longrightarrow> load_bytes m a n = load_bytes m' a n"
proof (induction n arbitrary: a)
  case (Suc n)
  have "m a = m' a" by (rule Suc.prems) simp
  moreover have "load_bytes m (Suc a) n = load_bytes m' (Suc a) n"
    by (intro Suc.IH Suc.prems) auto
  ultimately show ?case by simp
qed simp

lemma load_bytes_eq:
  "(\<And>i. i < length bs \<Longrightarrow> m (a + i) = Some (bs ! i)) \<Longrightarrow> load_bytes m a (length bs) = Some bs"
proof (induction bs arbitrary: a)
  case (Cons b bs)
  have "m a = Some b" using Cons.prems [of 0] by simp
  moreover have "load_bytes m (Suc a) (length bs) = Some bs"
    using Cons.prems [of "Suc _"] by (intro Cons.IH) simp
  ultimately show ?case by simp
qed simp

lemma load_bytes_Some: "bytes a n \<subseteq> dom m \<Longrightarrow> \<exists>bs. load_bytes m a n = Some bs \<and> length bs = n"
proof (induction n arbitrary: a)
  case (Suc n)
  have "insert a (bytes (Suc a) n) \<subseteq> dom m" using Suc.prems unfolding bytes_Suc .
  then obtain b bs where "m a = Some b" "load_bytes m (Suc a) n = Some bs" "length bs = n"
    using Suc.IH [of "Suc a"] by blast
  then show ?case by simp
qed simp

lemma load_bytes_nth: "load_bytes m a n = Some bs \<Longrightarrow> i < n \<Longrightarrow> m (a + i) = Some (bs ! i)"
proof (induction n arbitrary: a bs i)
  case (Suc n)
  then obtain b bs' where "m a = Some b" "load_bytes m (Suc a) n = Some bs'" "bs = b # bs'"
    by (auto split: bind_splits)
  then show ?case using Suc.IH [of "Suc a" bs' "i - 1"] Suc.prems(2) by (cases i) auto
qed simp

lemma load_bytes_length: "load_bytes m a n = Some bs \<Longrightarrow> length bs = n"
  by (induction n arbitrary: a bs) (auto split: bind_splits)

lemma load_store_bytes: "store_bytes m a bs = Some m' \<Longrightarrow> load_bytes m' a (length bs) = Some bs"
  using store_bytes_eq [OF store_bytes_SomeD, of m a bs m'] by (intro load_bytes_eq) auto

lemma load_store_bytes_other:
  "store_bytes m a bs = Some m' \<Longrightarrow> bytes b n \<inter> bytes a (length bs) = {} \<Longrightarrow>
   load_bytes m' b n = load_bytes m b n"
  by (rule load_bytes_cong) (blast intro: store_bytes_frame)


section \<open>Pointers in memory\<close>

lemma store_ptr_Some: "bytes a 8 \<subseteq> dom m \<Longrightarrow> \<exists>m'. store_ptr m a p = Some m'"
  using store_bytes_eq [of a "le_bytes 8 p" m] by (auto simp: store_ptr_def)

lemma store_ptr_frame: "store_ptr m a p = Some m' \<Longrightarrow> x \<notin> bytes a 8 \<Longrightarrow> m' x = m x"
  using store_bytes_frame [of m a "le_bytes 8 p" m' x] by (simp add: store_ptr_def)

lemma store_ptr_dom: "store_ptr m a p = Some m' \<Longrightarrow> dom m' = dom m"
  by (simp add: store_ptr_def store_bytes_dom)

lemma load_store_ptr: "store_ptr m a p = Some m' \<Longrightarrow> p < 2 ^ 64 \<Longrightarrow> load_ptr m' a = Some p"
  using load_store_bytes [of m a "le_bytes 8 p" m']
  by (simp add: store_ptr_def load_ptr_def le_nat_le_bytes)

lemma load_ptr_cong: "(\<And>x. x \<in> bytes a 8 \<Longrightarrow> m x = m' x) \<Longrightarrow> load_ptr m a = load_ptr m' a"
  unfolding load_ptr_def by (metis load_bytes_cong)

lemma load_ptr_Some: "bytes a 8 \<subseteq> dom m \<Longrightarrow> \<exists>p. load_ptr m a = Some p"
  using load_bytes_Some [of a 8 m] by (auto simp: load_ptr_def)


section \<open>Erasure\<close>

lemma secure_zero_store: "secure_zero m p n = store_bytes m p (replicate n 0)"
  by (induction n arbitrary: m p) simp_all

lemma secure_zero_Some:
  "bytes p n \<subseteq> dom m \<Longrightarrow> secure_zero m p n = Some (\<lambda>x. if x \<in> bytes p n then Some 0 else m x)"
  using store_bytes_eq [of p "replicate n 0" m] by (auto simp: secure_zero_store fun_eq_iff)

lemma secure_zero_frame: "secure_zero m p n = Some m' \<Longrightarrow> x \<notin> bytes p n \<Longrightarrow> m' x = m x"
  using store_bytes_frame [of m p "replicate n 0" m' x] by (simp add: secure_zero_store)

lemma secure_zero_dom: "secure_zero m p n = Some m' \<Longrightarrow> dom m' = dom m"
  by (simp add: secure_zero_store store_bytes_dom)

end
