(* ===== verification/Balloc.thy ===== *)
theory Balloc
  imports Memory
begin

unbundle bit_operations_syntax

text \<open>
  \<^verbatim>\<open>balloc.h\<close>: eleven buckets of blocks of one size each, from 128 bytes to 128 KiB, with the
  list of free blocks of a bucket threaded through the first eight bytes of the blocks
  themselves.
\<close>

section \<open>The code\<close>

text \<open>
  \<^verbatim>\<open>BLOB_ALLOC_LOG_OF_SIZE_MIN\<close>, \<^verbatim>\<open>BLOB_LOG_OF_SIZE_MAX\<close>, \<^verbatim>\<open>BLOB_SIZE_MAX\<close>, \<^verbatim>\<open>BUCKETS_COUNT\<close>.
\<close>

definition LOG_MIN :: u64 where "LOG_MIN = 7"
definition LOG_MAX :: u64 where "LOG_MAX = LOG_MIN + 10"
definition BLOB_SIZE_MAX :: u64 where "BLOB_SIZE_MAX = push_bit (unat LOG_MAX) 1"
definition BUCKETS_COUNT :: u64 where "BUCKETS_COUNT = LOG_MAX - LOG_MIN + 1"

record bucket_t =
  next_free :: addr
  bucket_blk :: blk_t
  bucket_free :: u32

type_synonym balloc_t = "bucket_t list"

text \<open>\<^verbatim>\<open>sizeof(bucket_t)\<close>: a pointer, a block and a 32-bit counter, aligned to 16.\<close>

definition sizeof_bucket_t :: u64 where "sizeof_bucket_t = 32"

definition bbucket_capacity :: "u64 \<Rightarrow> u64" where
  "bbucket_capacity index = push_bit (unat (LOG_MAX - index)) 1"

definition bbucket_item_size_max :: "u64 \<Rightarrow> u64" where
  "bbucket_item_size_max index = push_bit (unat (LOG_MIN + index)) 1"

definition bbucket_items_free :: "balloc_t \<Rightarrow> u64 \<Rightarrow> u64 option" where
  "bbucket_items_free ba index = do { b \<leftarrow> rd ba index; Some (ucast (bucket_free b)) }"

text \<open>The local variables \<^verbatim>\<open>count\<close> and \<^verbatim>\<open>item_size\<close> are 32-bit.\<close>

definition bfootprint :: u64 where
  "bfootprint = foldl
     (\<lambda>footprint i.
        (let count = ucast (bbucket_capacity (of_nat i)) :: u32;
             item_size = ucast (bbucket_item_size_max (of_nat i)) :: u32
         in footprint + ucast (count * item_size)))
     (sizeof_bucket_t * BUCKETS_COUNT) [0..<unat BUCKETS_COUNT]"

text \<open>The inner loop of \<^verbatim>\<open>binit\<close>: every item points to the one before it.\<close>

partial_function (option) binit_items ::
    "mem \<Rightarrow> addr \<Rightarrow> addr \<Rightarrow> nat \<Rightarrow> addr \<Rightarrow> (addr \<times> mem) option" where
  "binit_items m current_item arena_last item_size previous =
     (if current_item \<le> arena_last then do {
        m \<leftarrow> store_ptr m current_item previous;
        binit_items m (current_item + item_size) arena_last item_size current_item }
      else Some (previous, m))"

fun binit_buckets :: "nat list \<Rightarrow> mem \<Rightarrow> addr \<Rightarrow> (balloc_t \<times> mem) option" where
  "binit_buckets [] m ptr = Some ([], m)"
| "binit_buckets (i # is) m ptr =
     (let count = ucast (bbucket_capacity (of_nat i)) :: u32;
          item_size = ucast (bbucket_item_size_max (of_nat i)) :: u32;
          blk = \<lparr>blk_data = ptr, blk_size = ucast (count * item_size)\<rparr>;
          arena_last = ptr + unat ((count - 1) * item_size)
      in do {
        (previous, m) \<leftarrow> binit_items m ptr arena_last (unat item_size) 0;
        (bs, m) \<leftarrow> binit_buckets is m (ptr + unat (item_size * count));
        Some (\<lparr>next_free = previous, bucket_blk = blk, bucket_free = count\<rparr> # bs, m) })"

text \<open>
  The data come first; the bucket structures themselves, which this model keeps in a list of
  their own, take the last \<^verbatim>\<open>buckets_data_size\<close> bytes.
\<close>

definition binit :: "mem \<Rightarrow> addr \<Rightarrow> (balloc_t \<times> mem) option" where
  "binit m ptr = binit_buckets [0..<unat BUCKETS_COUNT] m ptr"

definition bindex :: "u64 \<Rightarrow> u64 option" where
  "bindex sz = do {
     lg \<leftarrow> ilog2_u64 (sz - 1);
     let index = lg - LOG_MIN + 1;
     let is_negative = drop_bit 63 index;
     let m = is_negative - 1;
     Some (index AND m) }"

definition balloc :: "balloc_t \<Rightarrow> mem \<Rightarrow> u64 \<Rightarrow> (blk_t \<times> balloc_t) option" where
  "balloc ba m sz = do {
     i \<leftarrow> bindex sz;
     b \<leftarrow> rd ba i;
     if bucket_free b \<noteq> 0 then do {
       let ret = \<lparr>blk_data = next_free b, blk_size = sz\<rparr>;
       p \<leftarrow> load_ptr m (blk_data ret);
       ba \<leftarrow> wr ba i (b\<lparr>next_free := p, bucket_free := bucket_free b - 1\<rparr>);
       Some (ret, ba) }
     else Some (null_blk, ba) }"

definition bfree :: "balloc_t \<Rightarrow> mem \<Rightarrow> blk_t \<Rightarrow> (balloc_t \<times> mem) option" where
  "bfree ba m blk = do {
     i \<leftarrow> bindex (blk_size blk);
     b \<leftarrow> rd ba i;
     m \<leftarrow> store_ptr m (blk_data blk) (next_free b);
     ba \<leftarrow> wr ba i (b\<lparr>next_free := blk_data blk, bucket_free := bucket_free b + 1\<rparr>);
     Some (ba, m) }"

lemmas balloc_consts = LOG_MIN_def LOG_MAX_def BUCKETS_COUNT_def sizeof_bucket_t_def


section \<open>The integer logarithm and the bucket index\<close>

lemma highest_bit:
  fixes i :: u64
  assumes "bit i b" "b < m"
  defines "c \<equiv> length (takeWhile (\<lambda>n. \<not> bit i n) (rev [0..<m]))"
  shows "c < m \<and> bit i (m - 1 - c) \<and> (\<forall>n. m - 1 - c < n \<longrightarrow> n < m \<longrightarrow> \<not> bit i n)"
  using assms(2) unfolding c_def
proof (induction m)
  case (Suc m)
  show ?case
  proof (cases "bit i m")
    case False
    then have "b < m" using Suc.prems assms(1) by (metis less_antisym)
    define L where "L = length (takeWhile (\<lambda>n. \<not> bit i n) (rev [0..<m]))"
    have IH: "L < m" "bit i (m - 1 - L)" "\<forall>n. m - 1 - L < n \<longrightarrow> n < m \<longrightarrow> \<not> bit i n"
      using Suc.IH [OF \<open>b < m\<close>, folded L_def] by blast+
    have len: "length (takeWhile (\<lambda>n. \<not> bit i n) (rev [0..<Suc m])) = Suc L"
      using False by (simp add: L_def)
    have "\<not> bit i n" if "m - 1 - L < n" "n < Suc m" for n
      using IH(3) that False less_antisym by blast
    then show ?thesis unfolding len using IH by simp
  qed simp
qed simp

lemma ilog2_u64_spec:
  assumes "i \<noteq> 0"
  obtains k where "k < 64" "ilog2_u64 i = Some (of_nat k)" "2 ^ k \<le> unat i" "unat i < 2 ^ Suc k"
proof -
  obtain b where b: "bit i b" using assms bit_eq_iff [of i 0] by auto
  have b64: "b < 64" using bit_imp_le_length [OF b] by simp
  define c where "c = length (takeWhile (\<lambda>n. \<not> bit i n) (rev [0..<64]))"
  have c: "c < 64" "bit i (63 - c)" "\<And>n. 63 - c < n \<Longrightarrow> n < 64 \<Longrightarrow> \<not> bit i n"
    using highest_bit [OF b b64, folded c_def] by simp_all
  let ?k = "63 - c"
  have "ilog2_u64 i = Some (63 - of_nat c)"
    unfolding ilog2_u64_def clzll_def c_def using assms
    by (simp only: if_False Option.bind.bind_lunit)
  also have "(63 :: u64) - of_nat c = of_nat ?k" using c(1) by (simp add: of_nat_diff)
  finally have lg: "ilog2_u64 i = Some (of_nat ?k)" .
  have "bit (unat i) ?k" using c(2) by (simp add: bit_unsigned_iff)
  then have "unat i div 2 ^ ?k \<noteq> 0" by (metis bit_iff_odd even_zero)
  then have lo: "2 ^ ?k \<le> unat i" by (metis div_less not_le)
  have "take_bit (Suc ?k) i = i"
  proof (rule bit_eqI)
    fix n
    show "bit (take_bit (Suc ?k) i) n \<longleftrightarrow> bit i n"
      using c(3) [of n] bit_imp_le_length [of i n]
      by (cases "n \<le> 63 - c") (auto simp: bit_take_bit_iff)
  qed
  then have "take_bit (Suc ?k) (unat i) = unat i" by (metis unsigned_take_bit_eq)
  then have "unat i < 2 ^ Suc ?k" by (metis take_bit_nat_less_exp)
  with lo lg show ?thesis by (intro that [of ?k]) auto
qed


lemma bindex_log:
  assumes sz: "2 \<le> unat sz" and k: "k < 64" "ilog2_u64 (sz - 1) = Some (of_nat k)"
  shows "bindex sz = Some (of_nat (k - 6))"
proof (cases "6 \<le> k")
  case True
  define j where "j = k - 6"
  have k': "k = j + 6" and j: "j < 64" using True k by (auto simp: j_def)
  have idx: "(of_nat k :: u64) - LOG_MIN + 1 = of_nat j" by (simp add: k' LOG_MIN_def)
  have "unat (of_nat j :: u64) = j" using j by (simp add: unat_of_nat)
  then have "unat (drop_bit 63 (of_nat j :: u64)) = 0"
    unfolding unat_drop_bit_eq using j by (simp add: drop_bit_eq_div)
  then have "drop_bit 63 (of_nat j :: u64) = 0" by (simp add: unat_eq_zero)
  then show ?thesis
    using k(2) by (simp add: bindex_def idx Let_def j_def)
next
  case False
  then have "k \<in> {0, 1, 2, 3, 4, 5}" by auto
  then show ?thesis using k(2) by (auto simp: bindex_def LOG_MIN_def Let_def)
qed

lemma unat_minus_one: "2 \<le> unat (sz :: u64) \<Longrightarrow> unat (sz - 1) = unat sz - 1"
  by (subst unat_sub) (auto simp: word_le_nat_alt)

text \<open>
  For a size the server accepts, the index is in the range of the bucket array, the blocks of
  this bucket are large enough, and those of the bucket below are not.
\<close>

lemma bindex_fits:
  assumes sz: "2 \<le> unat sz" "unat sz \<le> 2 ^ 17"
  obtains i where "i < 11" "bindex sz = Some (of_nat i)" "unat sz \<le> 2 ^ (7 + i)"
    "0 < i \<Longrightarrow> 2 ^ (6 + i) < unat sz"
proof -
  have ne: "sz - 1 \<noteq> 0" using sz unat_minus_one [of sz] by (auto simp flip: unat_eq_zero)
  obtain k where k: "k < 64" "ilog2_u64 (sz - 1) = Some (of_nat k)"
      "2 ^ k \<le> unat (sz - 1)" "unat (sz - 1) < 2 ^ Suc k"
    using ilog2_u64_spec [OF ne] .
  note u = unat_minus_one [OF sz(1)]
  have "(2 :: nat) ^ k < 2 ^ 17" using k(3) u sz by linarith
  then have "k < 17" by (rule power_less_imp_less_exp [rotated]) simp
  moreover have "unat sz \<le> 2 ^ (7 + (k - 6))"
  proof -
    have "unat sz \<le> 2 ^ Suc k" using k(4) u sz by linarith
    also have "(2 :: nat) ^ Suc k \<le> 2 ^ (7 + (k - 6))" by (rule power_increasing) auto
    finally show ?thesis .
  qed
  moreover have "2 ^ (6 + (k - 6)) < unat sz" if "0 < k - 6"
    using k(3) u sz that by simp
  ultimately show ?thesis using bindex_log [OF sz(1) k(1,2)] that [of "k - 6"] by simp
qed


section \<open>Blocks of the arena\<close>

text \<open>Bucket \<open>i\<close> has 16 MiB of the arena, cut into blocks of \<open>2 ^ (7 + i)\<close> bytes.\<close>

definition slots :: "addr \<Rightarrow> nat \<Rightarrow> addr set" where
  "slots base i = (\<lambda>k. base + i * 2 ^ 24 + k * 2 ^ (7 + i)) ` {..<2 ^ (17 - i)}"

definition arena_size :: nat where
  "arena_size = 11 * 2 ^ 24"

lemma slots_split: "i < 11 \<Longrightarrow> (2 :: nat) ^ (17 - i) * 2 ^ (7 + i) = 2 ^ 24"
  by (simp flip: power_add)

lemma slots_bucket:
  assumes "i < 11" "a \<in> slots base i"
  shows "bytes a (2 ^ (7 + i)) \<subseteq> bytes (base + i * 2 ^ 24) (2 ^ 24)"
proof -
  obtain k where k: "k < 2 ^ (17 - i)" "a = base + i * 2 ^ 24 + k * 2 ^ (7 + i)"
    using assms by (auto simp: slots_def)
  have "k * 2 ^ (7 + i) + 2 ^ (7 + i) = Suc k * 2 ^ (7 + i)" by simp
  also have "\<dots> \<le> 2 ^ (17 - i) * 2 ^ (7 + i)" using k by (intro mult_right_mono) auto
  also have "\<dots> = 2 ^ 24" using assms(1) by (rule slots_split)
  finally show ?thesis using k(2) by auto
qed

lemma bucket_arena:
  assumes "i < 11" shows "bytes (base + i * 2 ^ 24) (2 ^ 24) \<subseteq> bytes base arena_size"
proof -
  have "i * 2 ^ 24 + 2 ^ 24 \<le> (11 :: nat) * 2 ^ 24" using assms by simp
  then show ?thesis unfolding arena_size_def by auto
qed

lemma slots_arena: "i < 11 \<Longrightarrow> a \<in> slots base i \<Longrightarrow> bytes a (2 ^ (7 + i)) \<subseteq> bytes base arena_size"
  using slots_bucket bucket_arena by blast

lemma slots_ge: "a \<in> slots base i \<Longrightarrow> base \<le> a"
  by (auto simp: slots_def)

lemma slots_head: "bytes a 8 \<subseteq> bytes a (2 ^ (7 + i))"
proof -
  have "(2 :: nat) ^ 3 \<le> 2 ^ (7 + i)" by (rule power_increasing) auto
  then show ?thesis by auto
qed

text \<open>Different blocks do not overlap.\<close>

lemma slots_disjoint:
  assumes ij: "i < 11" "j < 11" and a: "a \<in> slots base i" and b: "b \<in> slots base j"
    and ne: "a \<noteq> b \<or> i \<noteq> j"
  shows "bytes a (2 ^ (7 + i)) \<inter> bytes b (2 ^ (7 + j)) = {}"
proof (cases "i = j")
  case True
  obtain k l where kl: "a = base + i * 2 ^ 24 + k * 2 ^ (7 + i)"
      "b = base + i * 2 ^ 24 + l * 2 ^ (7 + i)" "k \<noteq> l"
    using a b ne True by (auto simp: slots_def)
  consider "Suc k \<le> l" | "Suc l \<le> k" using kl(3) by linarith
  then show ?thesis
  proof cases
    case 1
    then have "Suc k * 2 ^ (7 + i) \<le> l * 2 ^ (7 + i)" by (rule mult_right_mono) simp
    then show ?thesis using kl True by auto
  next
    case 2
    then have "Suc l * 2 ^ (7 + i) \<le> k * 2 ^ (7 + i)" by (rule mult_right_mono) simp
    then show ?thesis using kl True by auto
  qed
next
  case False
  have "bytes (base + i * 2 ^ 24) (2 ^ 24) \<inter> bytes (base + j * 2 ^ 24) (2 ^ 24) = {}"
  proof -
    consider "Suc i \<le> j" | "Suc j \<le> i" using False by linarith
    then show ?thesis
    proof cases
      case 1
      then have "Suc i * 2 ^ 24 \<le> j * 2 ^ 24" by (rule mult_right_mono) simp
      then show ?thesis by auto
    next
      case 2
      then have "Suc j * 2 ^ 24 \<le> i * 2 ^ 24" by (rule mult_right_mono) simp
      then show ?thesis by auto
    qed
  qed
  then show ?thesis using slots_bucket [OF ij(1) a] slots_bucket [OF ij(2) b] by blast
qed


section \<open>Free lists\<close>

fun flist :: "mem \<Rightarrow> addr \<Rightarrow> addr list \<Rightarrow> bool" where
  "flist m p [] \<longleftrightarrow> p = 0"
| "flist m p (a # as) \<longleftrightarrow> p = a \<and> a \<noteq> 0 \<and> (case load_ptr m a of None \<Rightarrow> False | Some q \<Rightarrow> flist m q as)"

text \<open>At most \<open>n\<close> blocks of the list that starts at \<open>p\<close>.\<close>

fun free_list :: "mem \<Rightarrow> addr \<Rightarrow> nat \<Rightarrow> addr list" where
  "free_list m p 0 = []"
| "free_list m p (Suc n) =
     (if p = 0 then [] else p # (case load_ptr m p of None \<Rightarrow> [] | Some q \<Rightarrow> free_list m q n))"

lemma free_list_flist: "flist m p as \<Longrightarrow> free_list m p (length as) = as"
  by (induction as arbitrary: p) (auto split: option.splits)

lemma flist_cong:
  "(\<And>a x. a \<in> set as \<Longrightarrow> x \<in> bytes a 8 \<Longrightarrow> m x = m' x) \<Longrightarrow> flist m p as = flist m' p as"
proof (induction as arbitrary: p)
  case (Cons a as)
  have "load_ptr m a = load_ptr m' a" by (rule load_ptr_cong) (rule Cons.prems, simp_all)
  moreover have "flist m q as = flist m' q as" for q by (intro Cons.IH Cons.prems) auto
  ultimately show ?case by (auto split: option.splits)
qed simp

text \<open>The blocks of bucket \<open>i\<close> that are free, in the order they will be handed out.\<close>

definition bucket_list :: "balloc_t \<Rightarrow> mem \<Rightarrow> nat \<Rightarrow> addr list" where
  "bucket_list ba m i = free_list m (next_free (ba ! i)) (unat (bucket_free (ba ! i)))"

definition balloc_inv :: "addr \<Rightarrow> balloc_t \<Rightarrow> mem \<Rightarrow> bool" where
  "balloc_inv base ba m \<longleftrightarrow>
     length ba = 11 \<and> 0 < base \<and> base + arena_size < 2 ^ 64 \<and> bytes base arena_size \<subseteq> dom m \<and>
     (\<forall>i<11. flist m (next_free (ba ! i)) (bucket_list ba m i) \<and>
        distinct (bucket_list ba m i) \<and> set (bucket_list ba m i) \<subseteq> slots base i \<and>
        length (bucket_list ba m i) = unat (bucket_free (ba ! i)))"

text \<open>The blocks of bucket \<open>i\<close> that are in use.\<close>

definition live :: "addr \<Rightarrow> balloc_t \<Rightarrow> mem \<Rightarrow> nat \<Rightarrow> addr set" where
  "live base ba m i = slots base i - set (bucket_list ba m i)"

lemma bucket_listI:
  "flist m (next_free (ba ! i)) as \<Longrightarrow> length as = unat (bucket_free (ba ! i)) \<Longrightarrow>
   bucket_list ba m i = as"
  using free_list_flist by (fastforce simp: bucket_list_def)

lemma balloc_invI:
  assumes "length ba = 11" "0 < base" "base + arena_size < 2 ^ 64" "bytes base arena_size \<subseteq> dom m"
    and "\<And>i. i < 11 \<Longrightarrow> flist m (next_free (ba ! i)) (fl i) \<and> distinct (fl i) \<and>
      set (fl i) \<subseteq> slots base i \<and> length (fl i) = unat (bucket_free (ba ! i))"
  shows "balloc_inv base ba m" "i < 11 \<Longrightarrow> bucket_list ba m i = fl i"
proof -
  show l: "bucket_list ba m i = fl i" if "i < 11" for i
    using assms(5) [OF that] by (intro bucket_listI) auto
  show "balloc_inv base ba m" unfolding balloc_inv_def using assms l by simp
qed

lemma balloc_invD:
  assumes "balloc_inv base ba m"
  shows "length ba = 11" "0 < base" "base + arena_size < 2 ^ 64" "bytes base arena_size \<subseteq> dom m"
    and "i < 11 \<Longrightarrow> flist m (next_free (ba ! i)) (bucket_list ba m i)"
    and "i < 11 \<Longrightarrow> distinct (bucket_list ba m i)"
    and "i < 11 \<Longrightarrow> set (bucket_list ba m i) \<subseteq> slots base i"
    and "i < 11 \<Longrightarrow> length (bucket_list ba m i) = unat (bucket_free (ba ! i))"
  using assms by (auto simp: balloc_inv_def)

text \<open>A bucket has at most \<open>2 ^ 17\<close> blocks, so its 32-bit counter cannot wrap.\<close>

lemma card_slots: "i < 11 \<Longrightarrow> card (slots base i) = 2 ^ (17 - i)"
  unfolding slots_def by (subst card_image) (auto simp: inj_on_def)

lemma finite_slots [simp]: "finite (slots base i)"
  by (simp add: slots_def)

lemma bucket_list_le:
  assumes "balloc_inv base ba m" "i < 11"
  shows "length (bucket_list ba m i) \<le> 2 ^ (17 - i)"
  using card_mono [OF finite_slots balloc_invD(7) [OF assms]]
    distinct_card [OF balloc_invD(6) [OF assms]] card_slots [OF assms(2)] by simp


section \<open>Allocation and release\<close>

lemma unat_bucket: "i < 11 \<Longrightarrow> unat (of_nat i :: u64) = i"
  by (simp add: unat_of_nat)

lemma balloc_exhausted:
  assumes inv: "balloc_inv base ba m" and i: "i < 11" "bindex sz = Some (of_nat i)"
    and nil: "bucket_list ba m i = []"
  shows "balloc ba m sz = Some (null_blk, ba)"
  using balloc_invD(1) [OF inv] balloc_invD(8) [OF inv i(1)] i nil
  by (simp add: balloc_def unat_bucket unat_eq_zero)

lemma balloc_available:
  assumes inv: "balloc_inv base ba m" and i: "i < 11" "bindex sz = Some (of_nat i)"
    and cons: "bucket_list ba m i = a # as"
  obtains ba' where "balloc ba m sz = Some (\<lparr>blk_data = a, blk_size = sz\<rparr>, ba')"
    "balloc_inv base ba' m"
    "\<And>j. j < 11 \<Longrightarrow> bucket_list ba' m j = (if j = i then as else bucket_list ba m j)"
proof -
  note d = balloc_invD [OF inv]
  let ?b = "ba ! i"
  have fl: "flist m (next_free ?b) (a # as)" using d(5) [OF i(1)] cons by simp
  then obtain p where p: "load_ptr m a = Some p" "flist m p as" "next_free ?b = a" "a \<noteq> 0"
    by (auto split: option.splits)
  have len: "unat (bucket_free ?b) = Suc (length as)" using d(8) [OF i(1)] cons by simp
  then have ne: "bucket_free ?b \<noteq> 0" by auto
  then have dec: "unat (bucket_free ?b - 1) = length as"
    using len by (subst unat_sub) (auto simp: word_le_nat_alt)
  define ba' where "ba' = ba[i := ?b\<lparr>next_free := p, bucket_free := bucket_free ?b - 1\<rparr>]"
  let ?fl = "\<lambda>j. if j = i then as else bucket_list ba m j"
  have upd: "flist m (next_free (ba' ! j)) (?fl j) \<and> distinct (?fl j) \<and>
      set (?fl j) \<subseteq> slots base j \<and> length (?fl j) = unat (bucket_free (ba' ! j))" if "j < 11" for j
    using that d(1) d(5-8) [OF that] p(2) dec cons by (auto simp: ba'_def nth_list_update)
  have "balloc ba m sz = Some (\<lparr>blk_data = a, blk_size = sz\<rparr>, ba')"
    using i d(1) p ne by (simp add: balloc_def unat_bucket ba'_def Let_def)
  moreover have l: "length ba' = 11" using d(1) by (simp add: ba'_def)
  note inv' = balloc_invI [OF l d(2-4) upd]
  ultimately show ?thesis using inv' by (intro that) auto
qed

text \<open>Writing into a block in use does not disturb the allocator.\<close>

lemma balloc_inv_frame:
  assumes inv: "balloc_inv base ba m" and dom: "dom m' = dom m"
    and frame: "\<And>i a x. i < 11 \<Longrightarrow> a \<in> set (bucket_list ba m i) \<Longrightarrow> x \<in> bytes a 8 \<Longrightarrow> m' x = m x"
  shows "balloc_inv base ba m'" "i < 11 \<Longrightarrow> bucket_list ba m' i = bucket_list ba m i"
proof -
  note d = balloc_invD [OF inv]
  have dm: "bytes base arena_size \<subseteq> dom m'" using d(4) dom by simp
  have "flist m' (next_free (ba ! i)) (bucket_list ba m i)" if "i < 11" for i
    using d(5) [OF that] flist_cong [of "bucket_list ba m i" m m'] frame [OF that] by simp
  then have f: "flist m' (next_free (ba ! i)) (bucket_list ba m i) \<and> distinct (bucket_list ba m i) \<and>
      set (bucket_list ba m i) \<subseteq> slots base i \<and>
      length (bucket_list ba m i) = unat (bucket_free (ba ! i))" if "i < 11" for i
    using d(6-8) [OF that] that by simp
  show "balloc_inv base ba m'" by (rule balloc_invI(1) [OF d(1-3) dm f])
  show "i < 11 \<Longrightarrow> bucket_list ba m' i = bucket_list ba m i" by (rule balloc_invI(2) [OF d(1-3) dm f])
qed

lemma live_disjoint_free:
  assumes inv: "balloc_inv base ba m" and i: "i < 11" "a \<in> live base ba m i"
    and j: "j < 11" "b \<in> set (bucket_list ba m j)"
  shows "bytes a (2 ^ (7 + i)) \<inter> bytes b (2 ^ (7 + j)) = {}"
proof (rule slots_disjoint [OF i(1) j(1)])
  show "a \<in> slots base i" using i by (simp add: live_def)
  show "b \<in> slots base j" using balloc_invD(7) [OF inv j(1)] j(2) by blast
  show "a \<noteq> b \<or> i \<noteq> j" using i j by (auto simp: live_def)
qed

lemma balloc_inv_write_live:
  assumes inv: "balloc_inv base ba m" and i: "i < 11" "a \<in> live base ba m i"
    and m': "dom m' = dom m" "\<And>x. x \<notin> bytes a (2 ^ (7 + i)) \<Longrightarrow> m' x = m x"
  shows "balloc_inv base ba m'" "j < 11 \<Longrightarrow> bucket_list ba m' j = bucket_list ba m j"
proof -
  have f: "m' x = m x" if "j < 11" "b \<in> set (bucket_list ba m j)" "x \<in> bytes b 8" for j b x
    using live_disjoint_free [OF inv i that(1,2)] slots_head [of b j] that(3)
    by (intro m'(2)) blast
  show "balloc_inv base ba m'" by (rule balloc_inv_frame(1) [OF inv m'(1) f])
  show "j < 11 \<Longrightarrow> bucket_list ba m' j = bucket_list ba m j"
    by (rule balloc_inv_frame(2) [OF inv m'(1) f])
qed

lemma bfree_ok:
  assumes inv: "balloc_inv base ba m" and i: "i < 11" "bindex (blk_size blk) = Some (of_nat i)"
    and a: "blk_data blk \<in> live base ba m i"
  obtains ba' m' where "bfree ba m blk = Some (ba', m')" "balloc_inv base ba' m'"
    "\<And>j. j < 11 \<Longrightarrow> bucket_list ba' m' j =
       (if j = i then blk_data blk # bucket_list ba m i else bucket_list ba m j)"
    "dom m' = dom m" "\<And>x. x \<notin> bytes (blk_data blk) 8 \<Longrightarrow> m' x = m x"
proof -
  note d = balloc_invD [OF inv]
  let ?b = "ba ! i" and ?a = "blk_data blk"
  have slot: "?a \<in> slots base i" "?a \<notin> set (bucket_list ba m i)" using a by (auto simp: live_def)
  have in_arena: "bytes ?a (2 ^ (7 + i)) \<subseteq> dom m" using slots_arena [OF i(1) slot(1)] d(4) by blast
  obtain m' where m': "store_ptr m ?a (next_free ?b) = Some m'"
    using store_ptr_Some [of ?a m] slots_head [of ?a i] in_arena by blast
  have frame: "m' x = m x" if "x \<notin> bytes ?a 8" for x using store_ptr_frame [OF m' that] .
  have dom: "dom m' = dom m" using store_ptr_dom [OF m'] .
  have keep: "m' x = m x" if "x \<notin> bytes ?a (2 ^ (7 + i))" for x
    using frame that slots_head [of ?a i] by blast
  have w1: "balloc_inv base ba m'"
    using inv i(1) a dom keep by (rule balloc_inv_write_live(1))
  have w2: "bucket_list ba m' j = bucket_list ba m j" if "j < 11" for j
    using inv i(1) a dom keep that by (rule balloc_inv_write_live(2))
  note d' = balloc_invD [OF w1]
  have "next_free ?b < 2 ^ 64"
  proof (cases "bucket_list ba m i")
    case Nil
    then show ?thesis using d(5) [OF i(1)] by simp
  next
    case (Cons b bs)
    then have "next_free ?b = b" "b \<in> slots base i"
      using d(5,7) [OF i(1)] by (auto split: option.splits)
    then show ?thesis using slots_arena [OF i(1), of b base] d(3) by fastforce
  qed
  then have ld: "load_ptr m' ?a = Some (next_free ?b)" by (rule load_store_ptr [OF m'])
  have nz: "?a \<noteq> 0" using slots_ge [OF slot(1)] d(2) by simp
  have cnt: "unat (bucket_free ?b + 1) = Suc (unat (bucket_free ?b))"
  proof -
    have "(2 :: nat) ^ (17 - i) \<le> 2 ^ 17" by (rule power_increasing) auto
    then have "unat (bucket_free ?b) < 2 ^ 32 - 1"
      using bucket_list_le [OF inv i(1)] d(8) [OF i(1)] by simp
    then show ?thesis by (simp add: unat_word_ariths)
  qed
  define ba' where "ba' = ba[i := ?b\<lparr>next_free := ?a, bucket_free := bucket_free ?b + 1\<rparr>]"
  let ?fl = "\<lambda>j. if j = i then ?a # bucket_list ba m i else bucket_list ba m j"
  have upd: "flist m' (next_free (ba' ! j)) (?fl j) \<and> distinct (?fl j) \<and>
      set (?fl j) \<subseteq> slots base j \<and> length (?fl j) = unat (bucket_free (ba' ! j))" if "j < 11" for j
    using that d(1) d'(5-8) [OF that] w2 [OF that] slot nz ld cnt
    by (auto simp: ba'_def nth_list_update)
  have "bfree ba m blk = Some (ba', m')"
    using i d(1) m' by (simp add: bfree_def unat_bucket ba'_def)
  moreover have l: "length ba' = 11" using d(1) by (simp add: ba'_def)
  note inv' = balloc_invI [OF l d'(2-4) upd]
  ultimately show ?thesis using inv' frame dom by (intro that [of ba' m']) auto
qed


section \<open>Initialisation\<close>

lemma binit_items_ok:
  assumes sz: "8 \<le> sz"
  shows "ptr + n * sz = lst + sz \<Longrightarrow> 0 < ptr \<Longrightarrow> ptr + n * sz < 2 ^ 64 \<Longrightarrow>
    bytes ptr (n * sz) \<subseteq> dom m \<Longrightarrow> prev < 2 ^ 64 \<Longrightarrow> flist m prev as \<Longrightarrow>
    (\<And>a. a \<in> set as \<Longrightarrow> a + 8 \<le> ptr) \<Longrightarrow>
    \<exists>p m'. binit_items m ptr lst sz prev = Some (p, m') \<and>
      flist m' p (rev (map (\<lambda>k. ptr + k * sz) [0..<n]) @ as) \<and> dom m' = dom m \<and>
      (\<forall>x. x \<notin> bytes ptr (n * sz) \<longrightarrow> m' x = m x)"
proof (induction n arbitrary: ptr m prev as)
  case (0 ptr m prev as)
  then have "\<not> ptr \<le> lst" using sz by simp
  then show ?case using 0 by (subst binit_items.simps) simp
next
  case (Suc n)
  have le: "ptr \<le> lst" using Suc.prems(1) by simp
  have "bytes ptr 8 \<subseteq> bytes ptr (Suc n * sz)" using sz by auto
  then obtain m1 where m1: "store_ptr m ptr prev = Some m1"
    using store_ptr_Some [of ptr m prev] Suc.prems(4) by blast
  have fr: "m1 x = m x" if "x \<notin> bytes ptr 8" for x using store_ptr_frame [OF m1 that] .
  have ld: "load_ptr m1 ptr = Some prev" using load_store_ptr [OF m1 Suc.prems(5)] .
  have "flist m1 prev as = flist m prev as"
    using fr Suc.prems(7) by (intro flist_cong) fastforce
  then have fl: "flist m1 ptr (ptr # as)" using ld Suc.prems(2,6) by simp
  have sub: "bytes (ptr + sz) (n * sz) \<subseteq> dom m1"
  proof -
    have "bytes (ptr + sz) (n * sz) \<subseteq> bytes ptr (Suc n * sz)" by auto
    then show ?thesis using Suc.prems(4) store_ptr_dom [OF m1] by blast
  qed
  have "\<exists>p m'. binit_items m1 (ptr + sz) lst sz ptr = Some (p, m') \<and>
      flist m' p (rev (map (\<lambda>k. ptr + sz + k * sz) [0..<n]) @ ptr # as) \<and> dom m' = dom m1 \<and>
      (\<forall>x. x \<notin> bytes (ptr + sz) (n * sz) \<longrightarrow> m' x = m1 x)"
    using Suc.prems fl sub sz by (intro Suc.IH) (auto dest: Suc.prems(7))
  then obtain p m' where r: "binit_items m1 (ptr + sz) lst sz ptr = Some (p, m')"
      "flist m' p (rev (map (\<lambda>k. ptr + sz + k * sz) [0..<n]) @ ptr # as)" "dom m' = dom m1"
      "\<And>x. x \<notin> bytes (ptr + sz) (n * sz) \<Longrightarrow> m' x = m1 x" by blast
  have "map (\<lambda>k. ptr + k * sz) [0..<Suc n] = ptr # map (\<lambda>k. ptr + sz + k * sz) [0..<n]"
    unfolding upt_conv_Cons [OF zero_less_Suc] map_Suc_upt [symmetric]
    by (simp add: o_def del: map_Suc_upt)
  then have items: "rev (map (\<lambda>k. ptr + k * sz) [0..<Suc n]) @ as =
      rev (map (\<lambda>k. ptr + sz + k * sz) [0..<n]) @ ptr # as" by simp
  have "binit_items m ptr lst sz prev = Some (p, m')"
    using le m1 r(1) by (subst binit_items.simps) simp
  moreover have "dom m' = dom m" using r(3) store_ptr_dom [OF m1] by simp
  moreover have "m' x = m x" if "x \<notin> bytes ptr (Suc n * sz)" for x
  proof -
    have "x \<notin> bytes (ptr + sz) (n * sz)" "x \<notin> bytes ptr 8" using that sz by auto
    then show ?thesis using r(4) fr by metis
  qed
  ultimately show ?case unfolding items using r(2) by blast
qed


lemma bucket_sizes:
  assumes "i < 11"
  defines "count \<equiv> ucast (bbucket_capacity (of_nat i)) :: u32"
    and "item \<equiv> ucast (bbucket_item_size_max (of_nat i)) :: u32"
  shows "unat count = 2 ^ (17 - i)" "unat item = 2 ^ (7 + i)" "unat (item * count) = 2 ^ 24"
    "unat ((count - 1) * item) + 2 ^ (7 + i) = 2 ^ 24"
proof -
  have "i \<in> {0, 1, 2, 3, 4, 5, 6, 7, 8, 9, 10}"
    using assms(1) unfolding insert_iff empty_iff by presburger
  then show "unat count = 2 ^ (17 - i)" "unat item = 2 ^ (7 + i)" "unat (item * count) = 2 ^ 24"
    "unat ((count - 1) * item) + 2 ^ (7 + i) = 2 ^ 24"
    unfolding count_def item_def bbucket_capacity_def bbucket_item_size_max_def LOG_MAX_def LOG_MIN_def
    by (elim insertE emptyE; simp)+
qed

text \<open>The blocks of a bucket from the last to the first.\<close>

definition all_slots :: "addr \<Rightarrow> nat \<Rightarrow> addr list" where
  "all_slots base i = rev (map (\<lambda>k. base + i * 2 ^ 24 + k * 2 ^ (7 + i)) [0..<2 ^ (17 - i)])"

lemma all_slots:
  "set (all_slots base i) = slots base i" "distinct (all_slots base i)"
  "length (all_slots base i) = 2 ^ (17 - i)"
  by (auto simp: all_slots_def slots_def distinct_map inj_on_def)

lemma binit_buckets_ok:
  assumes "0 < base" "base + arena_size < 2 ^ 64"
  shows "bytes base arena_size \<subseteq> dom m \<Longrightarrow> j \<le> 11 \<Longrightarrow>
    \<exists>bs m'. binit_buckets [j..<11] m (base + j * 2 ^ 24) = Some (bs, m') \<and>
      length bs = 11 - j \<and> dom m' = dom m \<and> (\<forall>x<base + j * 2 ^ 24. m' x = m x) \<and>
      (\<forall>i. j \<le> i \<longrightarrow> i < 11 \<longrightarrow> flist m' (next_free (bs ! (i - j))) (all_slots base i) \<and>
         unat (bucket_free (bs ! (i - j))) = 2 ^ (17 - i))"
proof (induction "11 - j" arbitrary: j m)
  case 0
  then show ?case by simp
next
  case (Suc d j m)
  have j: "j < 11" using Suc.hyps(2) by simp
  let ?ptr = "base + j * 2 ^ 24"
  define count :: u32 where "count = ucast (bbucket_capacity (of_nat j))"
  define item :: u32 where "item = ucast (bbucket_item_size_max (of_nat j))"
  note z = bucket_sizes [OF j, folded count_def item_def]
  have prod: "2 ^ (17 - j) * 2 ^ (7 + j) = (2 :: nat) ^ 24" using j by (rule slots_split)
  have sub: "bytes ?ptr (2 ^ 24) \<subseteq> bytes base arena_size" by (rule bucket_arena [OF j])
  have top: "?ptr + 2 ^ 24 < 2 ^ 64"
    using assms(2) j unfolding arena_size_def by simp
  have "(2 :: nat) ^ 3 \<le> 2 ^ (7 + j)" by (rule power_increasing) auto
  then have ge8: "8 \<le> unat item" using z(2) by simp
  let ?last = "?ptr + unat ((count - 1) * item)"
  have "?ptr + 2 ^ (17 - j) * unat item = ?last + unat item" using z prod by simp
  moreover have "0 < ?ptr" using assms(1) by simp
  moreover have "?ptr + 2 ^ (17 - j) * unat item < 2 ^ 64" using top z(2) prod by simp
  moreover have "bytes ?ptr (2 ^ (17 - j) * unat item) \<subseteq> dom m"
    unfolding z(2) prod using sub Suc.prems(1) by blast
  ultimately have "\<exists>p m1. binit_items m ?ptr ?last (unat item) 0 = Some (p, m1) \<and>
      flist m1 p (rev (map (\<lambda>k. ?ptr + k * unat item) [0..<2 ^ (17 - j)]) @ []) \<and> dom m1 = dom m \<and>
      (\<forall>x. x \<notin> bytes ?ptr (2 ^ (17 - j) * unat item) \<longrightarrow> m1 x = m x)"
    by (rule binit_items_ok [OF ge8]) simp_all
  then obtain p m1 where it: "binit_items m ?ptr ?last (unat item) 0 = Some (p, m1)"
      "flist m1 p (all_slots base j)" "dom m1 = dom m"
      "\<And>x. x \<notin> bytes ?ptr (2 ^ 24) \<Longrightarrow> m1 x = m x"
    unfolding z(2) prod append_Nil2 all_slots_def by blast
  have next_ptr: "?ptr + unat (item * count) = base + Suc j * 2 ^ 24" using z(3) by simp
  obtain bs m' where r: "binit_buckets [Suc j..<11] m1 (base + Suc j * 2 ^ 24) = Some (bs, m')"
      "length bs = 11 - Suc j" "dom m' = dom m1" "\<forall>x<base + Suc j * 2 ^ 24. m' x = m1 x"
      "\<forall>i. Suc j \<le> i \<longrightarrow> i < 11 \<longrightarrow> flist m' (next_free (bs ! (i - Suc j))) (all_slots base i) \<and>
         unat (bucket_free (bs ! (i - Suc j))) = 2 ^ (17 - i)"
  proof -
    have "d = 11 - Suc j" "bytes base arena_size \<subseteq> dom m1" "Suc j \<le> 11"
      using Suc.hyps(2) Suc.prems(1) it(3) j by auto
    from Suc.hyps(1) [OF this] that show ?thesis by blast
  qed
  define b where "b = \<lparr>next_free = p, bucket_blk = \<lparr>blk_data = ?ptr, blk_size = ucast (count * item)\<rparr>,
    bucket_free = count\<rparr>"
  have run: "binit_buckets [j..<11] m ?ptr = Some (b # bs, m')"
    unfolding upt_conv_Cons [OF j] binit_buckets.simps Let_def count_def [symmetric]
      item_def [symmetric] it(1) Option.bind.bind_lunit prod.case next_ptr r(1) b_def ..
  have "flist m' p (all_slots base j) = flist m1 p (all_slots base j)"
  proof (rule flist_cong)
    fix a x
    assume "a \<in> set (all_slots base j)" "x \<in> bytes a 8"
    then have "x \<in> bytes ?ptr (2 ^ 24)"
      using slots_bucket [OF j, of a base] slots_head [of a j] by (auto simp: all_slots(1))
    then show "m' x = m1 x" using r(4) by simp
  qed
  then have here: "flist m' (next_free b) (all_slots base j)" "unat (bucket_free b) = 2 ^ (17 - j)"
    using it(2) z(1) by (simp_all add: b_def)
  have nth: "flist m' (next_free ((b # bs) ! (i - j))) (all_slots base i) \<and>
      unat (bucket_free ((b # bs) ! (i - j))) = 2 ^ (17 - i)" if "j \<le> i" "i < 11" for i
  proof (cases "i = j")
    case False
    then have "Suc j \<le> i" "i - j = Suc (i - Suc j)" using that by auto
    then show ?thesis using r(5) that by simp
  qed (use here in simp)
  have "m' x = m x" if "x < ?ptr" for x using r(4) it(4) that by simp
  with run r(2,3) it(3) nth j show ?case by (intro exI [of _ "b # bs"] exI [of _ m']) simp
qed

text \<open>The fresh allocator satisfies the invariant and has every block of every bucket free.\<close>

lemma binit_ok:
  assumes "0 < base" "base + arena_size < 2 ^ 64" "bytes base arena_size \<subseteq> dom m"
  obtains ba m' where "binit m base = Some (ba, m')" "balloc_inv base ba m'" "dom m' = dom m"
    "\<And>i. i < 11 \<Longrightarrow> bucket_list ba m' i = all_slots base i"
proof -
  have c: "unat BUCKETS_COUNT = 11" by (simp add: balloc_consts)
  obtain ba m' where r: "binit m base = Some (ba, m')" "length ba = 11" "dom m' = dom m"
      "\<And>i. i < 11 \<Longrightarrow> flist m' (next_free (ba ! i)) (all_slots base i) \<and>
         unat (bucket_free (ba ! i)) = 2 ^ (17 - i)"
    using binit_buckets_ok [OF assms(1,2,3), of 0] by (auto simp: binit_def c)
  have f: "flist m' (next_free (ba ! i)) (all_slots base i) \<and> distinct (all_slots base i) \<and>
      set (all_slots base i) \<subseteq> slots base i \<and> length (all_slots base i) = unat (bucket_free (ba ! i))"
    if "i < 11" for i
    using r(4) [OF that] all_slots by simp
  have dm: "bytes base arena_size \<subseteq> dom m'" using assms(3) r(3) by simp
  show ?thesis
    using balloc_invI [OF r(2) assms(1,2) dm f] r by (intro that [of ba m']) auto
qed

end
