(* ===== verification/Block_Pool.thy ===== *)
theory Block_Pool
  imports Balloc
begin

text \<open>
  Ownership of the blocks of \<^verbatim>\<open>balloc.h\<close>. The allocator keeps no record of the blocks it has
  handed out; \<open>pool_inv\<close> relates its state to the set of blocks that somebody holds. The
  contract of an allocator of byte ranges is the locale \<open>block_pool\<close>, which the allocator of
  the request contexts fulfils too.
\<close>

section \<open>The contract\<close>

text \<open>
  \<open>inv s B\<close>: the allocator is in state \<open>s\<close> and the blocks in \<open>B\<close> are handed out. An
  allocation fails without changing the state, or gives a block that shares no byte with one
  that is out.
\<close>

locale block_pool =
  fixes inv :: "'s \<Rightarrow> 'b set \<Rightarrow> bool"
    and extent :: "'b \<Rightarrow> addr set"
    and ok_request :: "'r \<Rightarrow> bool"
    and alloc :: "'s \<Rightarrow> 'r \<Rightarrow> ('b option \<times> 's) option"
    and release :: "'s \<Rightarrow> 'b \<Rightarrow> 's option"
  assumes disjoint: "inv s B \<Longrightarrow> b \<in> B \<Longrightarrow> b' \<in> B \<Longrightarrow> b \<noteq> b' \<Longrightarrow> extent b \<inter> extent b' = {}"
    and alloc_ok: "inv s B \<Longrightarrow> ok_request r \<Longrightarrow> alloc s r = Some (None, s) \<or>
      (\<exists>b s'. alloc s r = Some (Some b, s') \<and> b \<notin> B \<and> inv s' (insert b B))"
    and release_ok: "inv s B \<Longrightarrow> b \<in> B \<Longrightarrow> \<exists>s'. release s b = Some s' \<and> inv s' (B - {b})"
begin

text \<open>
  A client that only releases what it was given: a history is the list of its requests
  (\<^const>\<open>Inl\<close>) and of the positions, in the list of blocks it holds, that it gives back
  (\<^const>\<open>Inr\<close>). It never gets stuck and never holds overlapping blocks.
\<close>

primrec run :: "('r + nat) list \<Rightarrow> 's \<Rightarrow> 'b list \<Rightarrow> ('s \<times> 'b list) option" where
  "run [] s held = Some (s, held)"
| "run (e # es) s held = (case e of
     Inl r \<Rightarrow> Option.bind (alloc s r) (\<lambda>(b, s'). run es s' (case b of None \<Rightarrow> held | Some b \<Rightarrow> b # held))
   | Inr i \<Rightarrow> (if i < length held
       then Option.bind (release s (held ! i)) (\<lambda>s'. run es s' (take i held @ drop (Suc i) held))
       else run es s held))"

lemma set_drop_one:
  assumes "distinct xs" "i < length xs"
  shows "set (take i xs @ drop (Suc i) xs) = set xs - {xs ! i}"
    "distinct (take i xs @ drop (Suc i) xs)"
proof -
  have "xs = take i xs @ xs ! i # drop (Suc i) xs" using assms(2) by (rule id_take_nth_drop)
  then have "distinct (take i xs @ xs ! i # drop (Suc i) xs)"
      "set xs = set (take i xs @ xs ! i # drop (Suc i) xs)"
    using assms(1) by auto
  then show "set (take i xs @ drop (Suc i) xs) = set xs - {xs ! i}"
    "distinct (take i xs @ drop (Suc i) xs)" by auto
qed

lemma run_ok:
  "inv s (set held) \<Longrightarrow> distinct held \<Longrightarrow> \<forall>e\<in>set es. case e of Inl r \<Rightarrow> ok_request r | Inr _ \<Rightarrow> True \<Longrightarrow>
   \<exists>s' held'. run es s held = Some (s', held') \<and> inv s' (set held') \<and> distinct held'"
proof (induction es arbitrary: s held)
  case (Cons e es)
  note IH = Cons.IH and inv = Cons.prems(1) and d = Cons.prems(2)
  have es: "\<forall>e\<in>set es. case e of Inl r \<Rightarrow> ok_request r | Inr _ \<Rightarrow> True"
    using Cons.prems(3) by simp
  show ?case
  proof (cases e)
    case (Inl r)
    then have "ok_request r" using Cons.prems(3) by simp
    then consider "alloc s r = Some (None, s)"
      | b s' where "alloc s r = Some (Some b, s')" "b \<notin> set held" "inv s' (insert b (set held))"
      using alloc_ok [OF inv] by blast
    then show ?thesis
    proof cases
      case 1
      then show ?thesis using IH [OF inv d es] Inl by simp
    next
      case 2
      then show ?thesis using IH [of s' "b # held"] d es Inl by simp
    qed
  next
    case (Inr i)
    show ?thesis
    proof (cases "i < length held")
      case True
      then obtain s' where s': "release s (held ! i) = Some s'" "inv s' (set held - {held ! i})"
        using release_ok [OF inv] by (meson nth_mem)
      have "inv s' (set (take i held @ drop (Suc i) held))"
        using s'(2) set_drop_one(1) [OF d True] by argo
      then show ?thesis
        using IH [of s' "take i held @ drop (Suc i) held"] set_drop_one(2) [OF d True] es s'(1) Inr True
        by simp
    next
      case False
      then show ?thesis using IH [OF inv d es] Inr by simp
    qed
  qed
qed simp

lemma run_disjoint:
  assumes "inv s {}" "\<forall>e\<in>set es. case e of Inl r \<Rightarrow> ok_request r | Inr _ \<Rightarrow> True"
  shows "\<exists>s' held. run es s [] = Some (s', held) \<and> inv s' (set held) \<and> distinct held \<and>
    (\<forall>b\<in>set held. \<forall>b'\<in>set held. b \<noteq> b' \<longrightarrow> extent b \<inter> extent b' = {})"
  using run_ok [of s "[]" es] assms disjoint by (metis empty_set distinct.simps(1))

end


section \<open>Blocks and their owners\<close>

text \<open>The bucket of a block size, and the sizes that have one.\<close>

definition bucket_of :: "u64 \<Rightarrow> nat" where
  "bucket_of sz = (case bindex sz of None \<Rightarrow> 0 | Some i \<Rightarrow> unat i)"

definition size_ok :: "u64 \<Rightarrow> bool" where
  "size_ok sz \<longleftrightarrow> 2 \<le> unat sz \<and> unat sz \<le> 2 ^ 17"

lemma bucket_of_ok:
  assumes "size_ok sz"
  shows "bucket_of sz < 11" "bindex sz = Some (of_nat (bucket_of sz))"
    "unat sz \<le> 2 ^ (7 + bucket_of sz)"
proof -
  obtain i where i: "i < 11" "bindex sz = Some (of_nat i)" "unat sz \<le> 2 ^ (7 + i)"
    using assms bindex_fits [of sz] unfolding size_ok_def by metis
  then have "bucket_of sz = i" by (simp add: bucket_of_def unat_bucket)
  then show "bucket_of sz < 11" "bindex sz = Some (of_nat (bucket_of sz))"
    "unat sz \<le> 2 ^ (7 + bucket_of sz)" using i by simp_all
qed

text \<open>The bytes of a block that its owner may use, and the whole slot behind it.\<close>

definition extent :: "blk_t \<Rightarrow> addr set" where
  "extent b = bytes (blk_data b) (unat (blk_size b))"

definition slot_bytes :: "blk_t \<Rightarrow> addr set" where
  "slot_bytes b = bytes (blk_data b) (2 ^ (7 + bucket_of (blk_size b)))"

lemma extent_slot: "size_ok (blk_size b) \<Longrightarrow> extent b \<subseteq> slot_bytes b"
  using bucket_of_ok(3) by (fastforce simp: extent_def slot_bytes_def)

text \<open>
  \<open>H\<close> is the set of held blocks, each with its owner: no two owners hold the same block, a held
  block is not in a free list, and a block that is in no free list is held (nothing leaks).
\<close>

definition pool_inv :: "addr \<Rightarrow> balloc_t \<Rightarrow> mem \<Rightarrow> ('o \<times> blk_t) set \<Rightarrow> bool" where
  "pool_inv base ba m H \<longleftrightarrow> balloc_inv base ba m \<and>
     (\<forall>(o', b)\<in>H. size_ok (blk_size b) \<and> blk_data b \<in> live base ba m (bucket_of (blk_size b))) \<and>
     inj_on (\<lambda>(o', b). blk_data b) H \<and>
     (\<forall>i<11. live base ba m i \<subseteq> (\<lambda>(o', b). blk_data b) ` {(o', b) \<in> H. bucket_of (blk_size b) = i})"

lemma pool_invD:
  assumes "pool_inv base ba m H"
  shows "balloc_inv base ba m"
    and "(o', b) \<in> H \<Longrightarrow> size_ok (blk_size b)"
    and "(o', b) \<in> H \<Longrightarrow> blk_data b \<in> live base ba m (bucket_of (blk_size b))"
    and "(o1, b1) \<in> H \<Longrightarrow> (o2, b2) \<in> H \<Longrightarrow> blk_data b1 = blk_data b2 \<Longrightarrow> o1 = o2 \<and> b1 = b2"
    and "i < 11 \<Longrightarrow> a \<in> live base ba m i \<Longrightarrow>
      \<exists>o' b. (o', b) \<in> H \<and> blk_data b = a \<and> bucket_of (blk_size b) = i"
proof -
  have p: "balloc_inv base ba m" "inj_on (\<lambda>(o', b). blk_data b) H"
      "\<forall>(o', b)\<in>H. size_ok (blk_size b) \<and> blk_data b \<in> live base ba m (bucket_of (blk_size b))"
      "\<forall>i<11. live base ba m i \<subseteq> (\<lambda>(o', b). blk_data b) ` {(o', b) \<in> H. bucket_of (blk_size b) = i}"
    using assms unfolding pool_inv_def by blast+
  show "balloc_inv base ba m" "(o', b) \<in> H \<Longrightarrow> size_ok (blk_size b)"
    "(o', b) \<in> H \<Longrightarrow> blk_data b \<in> live base ba m (bucket_of (blk_size b))"
    using p by blast+
  show "(o1, b1) \<in> H \<Longrightarrow> (o2, b2) \<in> H \<Longrightarrow> blk_data b1 = blk_data b2 \<Longrightarrow> o1 = o2 \<and> b1 = b2"
    using inj_onD [OF p(2), of "(o1, b1)" "(o2, b2)"] by simp
  show "\<exists>o' b. (o', b) \<in> H \<and> blk_data b = a \<and> bucket_of (blk_size b) = i"
    if "i < 11" "a \<in> live base ba m i" using p(4) that by (fastforce simp: image_iff)
qed

lemma pool_invI:
  assumes "balloc_inv base ba m"
    and "\<And>o' b. (o', b) \<in> H \<Longrightarrow> size_ok (blk_size b) \<and> blk_data b \<in> live base ba m (bucket_of (blk_size b))"
    and "\<And>o1 b1 o2 b2. (o1, b1) \<in> H \<Longrightarrow> (o2, b2) \<in> H \<Longrightarrow> blk_data b1 = blk_data b2 \<Longrightarrow> o1 = o2 \<and> b1 = b2"
    and "\<And>i a. i < 11 \<Longrightarrow> a \<in> live base ba m i \<Longrightarrow>
      \<exists>o' b. (o', b) \<in> H \<and> blk_data b = a \<and> bucket_of (blk_size b) = i"
  shows "pool_inv base ba m H"
  unfolding pool_inv_def inj_on_def using assms by (intro conjI) fastforce+

text \<open>Held blocks lie in the arena, are not null, and do not overlap.\<close>

lemma pool_slot:
  assumes "pool_inv base ba m H" "(o', b) \<in> H"
  shows "blk_data b \<in> slots base (bucket_of (blk_size b))" "slot_bytes b \<subseteq> bytes base arena_size"
    "slot_bytes b \<subseteq> dom m" "blk_data b \<noteq> 0" "blk_size b \<noteq> 0" "b \<noteq> null_blk"
proof -
  note d = pool_invD [OF assms(1)]
  have i: "bucket_of (blk_size b) < 11" using bucket_of_ok(1) d(2) [OF assms(2)] by blast
  show s: "blk_data b \<in> slots base (bucket_of (blk_size b))"
    using d(3) [OF assms(2)] by (simp add: live_def)
  show a: "slot_bytes b \<subseteq> bytes base arena_size"
    unfolding slot_bytes_def using slots_arena [OF i s] .
  then show "slot_bytes b \<subseteq> dom m" using balloc_invD(4) [OF d(1)] by blast
  show n: "blk_data b \<noteq> 0" using slots_ge [OF s] balloc_invD(2) [OF d(1)] by simp
  show "blk_size b \<noteq> 0" using d(2) [OF assms(2)] by (auto simp: size_ok_def)
  show "b \<noteq> null_blk" using n by (auto simp: null_blk_def)
qed

lemma pool_disjoint:
  assumes inv: "pool_inv base ba m H" and b: "(o1, b1) \<in> H" "(o2, b2) \<in> H" "(o1, b1) \<noteq> (o2, b2)"
  shows "slot_bytes b1 \<inter> slot_bytes b2 = {}"
proof -
  have "blk_data b1 \<noteq> blk_data b2" using pool_invD(4) [OF inv b(1,2)] b(3) by blast
  then show ?thesis
    unfolding slot_bytes_def
    using slots_disjoint [OF _ _ pool_slot(1) [OF inv b(1)] pool_slot(1) [OF inv b(2)]]
      bucket_of_ok(1) pool_invD(2) [OF inv] b by blast
qed


section \<open>What the operations do to the owners\<close>

text \<open>
  \<^verbatim>\<open>balloc\<close> fails exactly when all the blocks of the bucket are held; a new block is not one that
  is held.
\<close>

lemma pool_alloc_full:
  assumes inv: "pool_inv base ba m H" and sz: "size_ok sz"
    and nil: "bucket_list ba m (bucket_of sz) = []"
  shows "balloc ba m sz = Some (null_blk, ba)"
  using balloc_exhausted [OF pool_invD(1) [OF inv] bucket_of_ok(1,2) [OF sz] nil] .

lemma pool_alloc:
  assumes inv: "pool_inv base ba m H" and sz: "size_ok sz"
    and ne: "bucket_list ba m (bucket_of sz) \<noteq> []"
  obtains b ba' where "balloc ba m sz = Some (b, ba')" "blk_size b = sz"
    "blk_data b \<notin> (\<lambda>(o', b). blk_data b) ` H" "\<And>o'. pool_inv base ba' m (insert (o', b) H)"
proof -
  note d = pool_invD [OF inv] and i = bucket_of_ok [OF sz]
  let ?i = "bucket_of sz"
  obtain a as where cons: "bucket_list ba m ?i = a # as" using ne by (cases "bucket_list ba m ?i") auto
  obtain ba' where ba': "balloc ba m sz = Some (\<lparr>blk_data = a, blk_size = sz\<rparr>, ba')"
      "balloc_inv base ba' m"
      "\<And>j. j < 11 \<Longrightarrow> bucket_list ba' m j = (if j = ?i then as else bucket_list ba m j)"
    using balloc_available [OF d(1) i(1,2) cons] by blast
  let ?b = "\<lparr>blk_data = a, blk_size = sz\<rparr>"
  have a: "a \<in> slots base ?i" "a \<notin> set as"
    using balloc_invD(6,7) [OF d(1) i(1)] cons by auto
  have live': "live base ba' m j = (if j = ?i then insert a (live base ba m j) else live base ba m j)"
    if "j < 11" for j
    using ba'(3) [OF that] cons a by (auto simp: live_def)
  have fresh: "blk_data b \<noteq> a" if "(o', b) \<in> H" for o' b
  proof
    assume eq: "blk_data b = a"
    let ?j = "bucket_of (blk_size b)"
    have j: "?j < 11" using bucket_of_ok(1) d(2) [OF that] by blast
    have "a \<in> bytes a (2 ^ (7 + ?j))" "a \<in> bytes a (2 ^ (7 + ?i))" by simp_all
    then show False
      using live_disjoint_free [OF d(1) j _ i(1), of a a] d(3) [OF that] cons eq by auto
  qed
  have "pool_inv base ba' m (insert (o', ?b) H)" for o'
  proof (rule pool_invI)
    show "balloc_inv base ba' m" by fact
    show "size_ok (blk_size b) \<and> blk_data b \<in> live base ba' m (bucket_of (blk_size b))"
      if "(o1, b) \<in> insert (o', ?b) H" for o1 b
    proof (cases "(o1, b) \<in> H")
      case True
      then show ?thesis using d(2,3) [OF True] live' bucket_of_ok(1) by auto
    next
      case False
      then show ?thesis using that sz live' [OF i(1)] by simp
    qed
    show "o1 = o2 \<and> b1 = b2"
      if "(o1, b1) \<in> insert (o', ?b) H" "(o2, b2) \<in> insert (o', ?b) H" "blk_data b1 = blk_data b2"
      for o1 b1 o2 b2
      using that d(4) [of o1 b1 o2 b2] fresh [of o1 b1] fresh [of o2 b2] by auto
    show "\<exists>o1 b. (o1, b) \<in> insert (o', ?b) H \<and> blk_data b = c \<and> bucket_of (blk_size b) = j"
      if "j < 11" "c \<in> live base ba' m j" for j c
    proof (cases "j = ?i \<and> c = a")
      case False
      then have "c \<in> live base ba m j" using that live' by (auto split: if_splits)
      then show ?thesis using d(5) [OF that(1)] by blast
    qed (intro exI [of _ o'] exI [of _ "?b"], simp)
  qed
  then show ?thesis using that [of ?b ba'] ba'(1) fresh by fastforce
qed

text \<open>An owner may write its block: the free lists do not change.\<close>

lemma pool_write:
  assumes inv: "pool_inv base ba m H" and b: "(o', b) \<in> H"
    and m': "dom m' = dom m" "\<And>x. x \<notin> slot_bytes b \<Longrightarrow> m' x = m x"
  shows "pool_inv base ba m' H"
proof -
  note d = pool_invD [OF inv]
  let ?i = "bucket_of (blk_size b)"
  have i: "?i < 11" using bucket_of_ok(1) d(2) [OF b] by blast
  have w: "balloc_inv base ba m'" "j < 11 \<Longrightarrow> bucket_list ba m' j = bucket_list ba m j" for j
    using balloc_inv_write_live [OF d(1) i d(3) [OF b] m'(1)] m'(2) by (auto simp: slot_bytes_def)
  have "live base ba m' j = live base ba m j" if "j < 11" for j
    using w(2) [OF that] by (simp add: live_def)
  then show ?thesis
    using w(1) d(2-5) bucket_of_ok(1) by (intro pool_invI) metis+
qed

text \<open>Passing a block on.\<close>

lemma pool_transfer:
  assumes inv: "pool_inv base ba m H" and b: "(o1, b) \<in> H"
  shows "pool_inv base ba m (insert (o2, b) (H - {(o1, b)}))"
proof -
  note d = pool_invD [OF inv]
  show ?thesis
  proof (rule pool_invI)
    show "o3 = o4 \<and> b3 = b4"
      if "(o3, b3) \<in> insert (o2, b) (H - {(o1, b)})" "(o4, b4) \<in> insert (o2, b) (H - {(o1, b)})"
        "blk_data b3 = blk_data b4" for o3 b3 o4 b4
      using that d(4) [of _ _ o1 b] d(4) b by blast
    show "\<exists>o' b'. (o', b') \<in> insert (o2, b) (H - {(o1, b)}) \<and> blk_data b' = a \<and>
        bucket_of (blk_size b') = i" if "i < 11" "a \<in> live base ba m i" for i a
      using d(5) [OF that] by blast
  qed (use d b in auto)
qed

lemma pool_bfree:
  assumes inv: "pool_inv base ba m H" and b: "(o', b) \<in> H"
  obtains ba' m' where "bfree ba m b = Some (ba', m')" "pool_inv base ba' m' (H - {(o', b)})"
    "dom m' = dom m" "\<And>x. x \<notin> bytes (blk_data b) 8 \<Longrightarrow> m' x = m x"
    "blk_data b \<in> set (bucket_list ba' m' (bucket_of (blk_size b)))"
proof -
  note d = pool_invD [OF inv]
  let ?i = "bucket_of (blk_size b)"
  note i = bucket_of_ok [OF d(2) [OF b]]
  obtain ba' m' where r: "bfree ba m b = Some (ba', m')" "balloc_inv base ba' m'"
      "\<And>j. j < 11 \<Longrightarrow> bucket_list ba' m' j =
         (if j = ?i then blk_data b # bucket_list ba m ?i else bucket_list ba m j)"
      "dom m' = dom m" "\<And>x. x \<notin> bytes (blk_data b) 8 \<Longrightarrow> m' x = m x"
    using bfree_ok [OF d(1) i(1,2) d(3) [OF b]] by blast
  have live': "live base ba' m' j = live base ba m j - (if j = ?i then {blk_data b} else {})"
    if "j < 11" for j
    using r(3) [OF that] by (auto simp: live_def)
  have "pool_inv base ba' m' (H - {(o', b)})"
  proof (rule pool_invI)
    show "size_ok (blk_size b2) \<and> blk_data b2 \<in> live base ba' m' (bucket_of (blk_size b2))"
      if "(o2, b2) \<in> H - {(o', b)}" for o2 b2
    proof -
      have "size_ok (blk_size b2)" "blk_data b2 \<in> live base ba m (bucket_of (blk_size b2))"
          "blk_data b2 \<noteq> blk_data b"
        using d(2-4) b that by blast+
      then show ?thesis using live' bucket_of_ok(1) by simp
    qed
    show "\<exists>o2 b2. (o2, b2) \<in> H - {(o', b)} \<and> blk_data b2 = a \<and> bucket_of (blk_size b2) = j"
      if "j < 11" "a \<in> live base ba' m' j" for j a
      using d(5) [OF that(1), of a] that live' by (auto split: if_splits)
  qed (use r(2) d(4) in blast)+
  then show ?thesis using that r i(1) by simp
qed

text \<open>
  \<^verbatim>\<open>storage_blob_free\<close> zeroes a block before it gives it back: of its bytes, only the pointer of
  the free list is not zero.
\<close>

lemma pool_zero_free:
  assumes inv: "pool_inv base ba m H" and b: "(o', b) \<in> H"
  obtains m1 ba' m' where "secure_zero m (blk_data b) (unat (blk_size b)) = Some m1"
    "bfree ba m1 b = Some (ba', m')" "pool_inv base ba' m' (H - {(o', b)})" "dom m' = dom m"
    "\<And>x. x \<notin> slot_bytes b \<Longrightarrow> m' x = m x"
    "\<And>x. x \<in> extent b \<Longrightarrow> x \<notin> bytes (blk_data b) 8 \<Longrightarrow> m' x = Some 0"
proof -
  note e = extent_slot [OF pool_invD(2) [OF inv b]]
  have "extent b \<subseteq> dom m" using e pool_slot(3) [OF inv b] by blast
  then obtain m1 where m1: "secure_zero m (blk_data b) (unat (blk_size b)) = Some m1"
      "\<And>x. m1 x = (if x \<in> extent b then Some 0 else m x)"
    using secure_zero_Some by (fastforce simp: extent_def)
  have dom1: "dom m1 = dom m" using secure_zero_dom [OF m1(1)] .
  have inv1: "pool_inv base ba m1 H"
    using pool_write [OF inv b dom1] m1(2) e by (metis subsetD)
  have "bytes (blk_data b) 8 \<subseteq> slot_bytes b" unfolding slot_bytes_def by (rule slots_head)
  then show ?thesis
    using pool_bfree [OF inv1 b] that [of m1] m1 dom1 e by (smt (verit) subsetD)
qed

text \<open>The initial allocator: every block is free, none is held.\<close>

lemma pool_init:
  assumes "0 < base" "base + arena_size < 2 ^ 64" "bytes base arena_size \<subseteq> dom m"
  obtains ba m' where "binit m base = Some (ba, m')" "pool_inv base ba m' ({} :: ('o \<times> blk_t) set)"
    "dom m' = dom m"
proof -
  obtain ba m' where r: "binit m base = Some (ba, m')" "balloc_inv base ba m'" "dom m' = dom m"
      "\<And>i. i < 11 \<Longrightarrow> bucket_list ba m' i = all_slots base i"
    using binit_ok [OF assms] by blast
  have "live base ba m' i = {}" if "i < 11" for i
    using r(4) [OF that] by (simp add: live_def all_slots(1))
  then have "pool_inv base ba m' ({} :: ('o \<times> blk_t) set)"
    using r(2) by (intro pool_invI) auto
  then show ?thesis using that r by blast
qed


section \<open>The allocator fulfils the contract\<close>

text \<open>
  The test for failure is the one of \<^verbatim>\<open>storage_blob_create\<close>: the block is smaller than asked.
\<close>

definition balloc_or_fail :: "balloc_t \<times> mem \<Rightarrow> u64 \<Rightarrow> (blk_t option \<times> balloc_t \<times> mem) option" where
  "balloc_or_fail = (\<lambda>(ba, m) sz. do {
     (b, ba') \<leftarrow> balloc ba m sz;
     Some (if blk_size b < sz then None else Some b, ba', m) })"

lemma size_ok_pos: "size_ok sz \<Longrightarrow> 0 < sz"
  by (auto simp: size_ok_def word_less_nat_alt)

interpretation bp: block_pool "\<lambda>(ba, m) B. pool_inv base ba m (Pair () ` B)" extent size_ok
  balloc_or_fail "\<lambda>(ba, m) b. bfree ba m b" for base :: addr
proof (unfold_locales, goal_cases)
  case (1 s B b b')
  obtain ba m where s: "s = (ba, m)" by (cases s)
  have in_H: "((), b) \<in> Pair () ` B" "((), b') \<in> Pair () ` B" using 1 by auto
  have inv: "pool_inv base ba m (Pair () ` B)" using 1(1) s by simp
  have "slot_bytes b \<inter> slot_bytes b' = {}" using pool_disjoint [OF inv in_H] 1(4) by simp
  then show ?case
    using extent_slot pool_invD(2) [OF inv] in_H by blast
next
  case (2 s B r)
  obtain ba m where s: "s = (ba, m)" by (cases s)
  have inv: "pool_inv base ba m (Pair () ` B)" using 2(1) s by simp
  show ?case
  proof (cases "bucket_list ba m (bucket_of r) = []")
    case True
    then show ?thesis
      using pool_alloc_full [OF inv 2(2)] size_ok_pos [OF 2(2)]
      by (simp add: balloc_or_fail_def s null_blk_def)
  next
    case False
    obtain b ba' where b: "balloc ba m r = Some (b, ba')" "blk_size b = r"
        "blk_data b \<notin> (\<lambda>(o', b). blk_data b) ` Pair () ` B"
        "pool_inv base ba' m (insert ((), b) (Pair () ` B))"
      using pool_alloc [OF inv 2(2) False] by metis
    have "b \<notin> B" using b(3) by (force simp: image_iff)
    then show ?thesis using b by (intro disjI2) (simp add: balloc_or_fail_def s)
  qed
next
  case (3 s B b)
  obtain ba m where s: "s = (ba, m)" by (cases s)
  have inv: "pool_inv base ba m (Pair () ` B)" using 3(1) s by simp
  have "((), b) \<in> Pair () ` B" using 3(2) by simp
  from pool_bfree [OF inv this] obtain ba' m' where
    "bfree ba m b = Some (ba', m')" "pool_inv base ba' m' (Pair () ` B - {((), b)})" by metis
  moreover have "Pair () ` B - {((), b)} = Pair () ` (B - {b})" by auto
  ultimately show ?case by (simp add: s)
qed

end
