(* ===== verification/Storage.thy ===== *)
theory Storage
  imports Key_Table Block_Pool
begin

unbundle bit_operations_syntax

text \<open>
  \<^verbatim>\<open>storage.c\<close>: the blob store. A blob is created under an id, filled by the server, published
  with an expiry time, handed out once by \<^verbatim>\<open>storage_blob_get\<close> and freed by its new owner; the
  reaper removes what has expired.
\<close>

section \<open>The code\<close>

definition VALID_UNTIL_EMPTY :: u32 where "VALID_UNTIL_EMPTY = 0xFFFFFFFF"
definition VALID_UNTIL_NOT_PUBLISHED :: u32 where
  "VALID_UNTIL_NOT_PUBLISHED = VALID_UNTIL_EMPTY - 1"

text \<open>The static variables of \<^verbatim>\<open>storage.c\<close>, and the bytes of the allocated memory.\<close>

record storage =
  tab :: htab
  htable_free :: u64
  htable_size :: u64
  blob_ids_invalid :: "htable_key_t list"
  blob_ids_invalid_count :: u64
  mallocated_data :: blk_t
  balloc_data :: balloc_t
  memory :: mem

definition htable_get_blob_index :: "storage \<Rightarrow> htable_key_t \<Rightarrow> (bool \<times> u64) option" where
  "htable_get_blob_index s bid = do {
     index \<leftarrow> lp_lookup htable_hash (blob_ids (tab s)) bid (htable_size s);
     Some (index \<noteq> htable_size s, index) }"

text \<open>\<^verbatim>\<open>false\<close> is the inner \<^const>\<open>None\<close>.\<close>

definition htable_find_free_slot :: "storage \<Rightarrow> htable_key_t \<Rightarrow> u64 option option" where
  "htable_find_free_slot s bid =
     (if htable_free s = 0 then Some None
      else do {
        index \<leftarrow> lp_find_free_slot htable_hash (blob_ids (tab s)) bid (htable_size s);
        Some (Some index) })"

definition htable_erase_slot :: "storage \<Rightarrow> u64 \<Rightarrow> (storage \<times> u64) option" where
  "htable_erase_slot s i = do {
     (t, hole) \<leftarrow> lp_erase htable_hash (tab s) i (htable_size s);
     Some (s\<lparr>tab := t\<rparr>, hole) }"

text \<open>
  \<^verbatim>\<open>storage_init\<close>. The result of \<^verbatim>\<open>posix_memalign\<close> (\<^const>\<open>None\<close> is its failure) and that of \<^verbatim>\<open>mlock\<close>
  (\<^const>\<open>True\<close> also when the build does not lock memory) are arguments; \<^const>\<open>Inl\<close> is an
  \<^verbatim>\<open>exit(EXIT_FAILURE)\<close>. The memory is one allocation: the invalid ids, the ids, the expiry times and
  the blocks, which this model keeps in lists, then the arena of the blobs, and the buckets.
\<close>

datatype init_error = Cannot_allocate | Cannot_lock

definition arena :: "storage \<Rightarrow> addr" where
  "arena s = blk_data (mallocated_data s) + (16 + 16 + 4 + 16) * unat (htable_size s)"

definition buckets_byte_size :: u64 where
  "buckets_byte_size = sizeof_bucket_t * BUCKETS_COUNT"

fun init_valid_until :: "nat list \<Rightarrow> u32 list \<Rightarrow> u32 list option" where
  "init_valid_until [] vs = Some vs"
| "init_valid_until (i # rest) vs = do {
     vs \<leftarrow> wr vs (of_nat i) VALID_UNTIL_EMPTY;
     init_valid_until rest vs }"

definition storage_size_total :: "u64 \<Rightarrow> u64" where
  "storage_size_total n = 16 * n + 16 * n + 4 * n + 16 * n + bfootprint"

definition storage_init ::
    "addr option \<Rightarrow> bool \<Rightarrow> u64 \<Rightarrow> (init_error + storage) option" where
  "storage_init allocated locked n = (case allocated of
     None \<Rightarrow> Some (Inl Cannot_allocate)
   | Some p \<Rightarrow>
     if \<not> locked then Some (Inl Cannot_lock)
     else do {
       let blob_arena = p + unat (16 * n + 16 * n + 4 * n + 16 * n);
       let arena_bytes = unat (bfootprint - buckets_byte_size);
       let m = (\<lambda>x. if blob_arena \<le> x \<and> x < blob_arena + arena_bytes then Some 0 else None);
       vs \<leftarrow> init_valid_until [0..<unat n] (replicate (unat n) 0);
       (ba, m) \<leftarrow> binit m blob_arena;
       Some (Inr
         \<lparr>tab = \<lparr>blob_ids = replicate (unat n) null_key, blob_data = replicate (unat n) null_blk,
            blob_valid_until = vs\<rparr>,
          htable_free = n, htable_size = n,
          blob_ids_invalid = replicate (unat n) null_key, blob_ids_invalid_count = 0,
          mallocated_data = \<lparr>blk_data = p, blk_size = storage_size_total n\<rparr>,
          balloc_data = ba, memory = m\<rparr>) })"

text \<open>\<^verbatim>\<open>storage_zero\<close> erases the whole allocation; the number of secrets it drops is for the log.\<close>

definition storage_zero :: "storage \<Rightarrow> (u64 \<times> storage) option" where
  "storage_zero s = do {
     let used = htable_size s - htable_free s;
     m \<leftarrow> secure_zero (memory s) (arena s) (unat (bfootprint - buckets_byte_size));
     Some (used, s\<lparr>
       tab := \<lparr>blob_ids = map (\<lambda>_. null_key) (blob_ids (tab s)),
         blob_data = map (\<lambda>_. null_blk) (blob_data (tab s)),
         blob_valid_until = map (\<lambda>_. 0) (blob_valid_until (tab s))\<rparr>,
       blob_ids_invalid := map (\<lambda>_. null_key) (blob_ids_invalid s),
       balloc_data := map (\<lambda>_. \<lparr>next_free = 0, bucket_blk = null_blk, bucket_free = 0\<rparr>) (balloc_data s),
       memory := m\<rparr>) }"

definition storage_blob_free :: "storage \<Rightarrow> blk_t \<Rightarrow> storage option" where
  "storage_blob_free s block = do {
     m \<leftarrow> secure_zero (memory s) (blk_data block) (unat (blk_size block));
     (ba, m) \<leftarrow> bfree (balloc_data s) m block;
     Some (s\<lparr>balloc_data := ba, memory := m\<rparr>) }"

definition storage_blob_create ::
    "storage \<Rightarrow> htable_key_t \<Rightarrow> u64 \<Rightarrow> (blk_t \<times> storage) option" where
  "storage_blob_create s bid sz =
     (if key_is_null bid then Some (null_blk, s)
      else do {
        slot \<leftarrow> htable_find_free_slot s bid;
        case slot of
          None \<Rightarrow> Some (null_blk, s)
        | Some index \<Rightarrow> do {
            (blk, ba) \<leftarrow> balloc (balloc_data s) (memory s) sz;
            if blk_size blk < sz then Some (null_blk, s\<lparr>balloc_data := ba\<rparr>)
            else do {
              t \<leftarrow> tab_put (tab s) index bid (blk, VALID_UNTIL_NOT_PUBLISHED);
              Some (blk, s\<lparr>balloc_data := ba, tab := t, htable_free := htable_free s - 1\<rparr>) } } })"

definition storage_blob_publish :: "storage \<Rightarrow> htable_key_t \<Rightarrow> u32 \<Rightarrow> (bool \<times> storage) option" where
  "storage_blob_publish s bid valid_until = do {
     (found, index) \<leftarrow> htable_get_blob_index s bid;
     if found then do {
       vs \<leftarrow> wr (blob_valid_until (tab s)) index valid_until;
       Some (True, s\<lparr>tab := (tab s)\<lparr>blob_valid_until := vs\<rparr>\<rparr>) }
     else Some (False, s) }"

text \<open>
  The stores that \<^verbatim>\<open>storage_blob_abort\<close> and \<^verbatim>\<open>storage_blob_get\<close> make to the erased slot:
  \<^verbatim>\<open>secure_zero(blob_ids[index].bytes, 16)\<close> and the reset of the expiry time.
\<close>

definition zero_slot_id :: "storage \<Rightarrow> u64 \<Rightarrow> storage option" where
  "zero_slot_id s index = do {
     ids \<leftarrow> wr (blob_ids (tab s)) index null_key;
     Some (s\<lparr>tab := (tab s)\<lparr>blob_ids := ids\<rparr>\<rparr>) }"

definition reset_slot_time :: "storage \<Rightarrow> u64 \<Rightarrow> storage option" where
  "reset_slot_time s index = do {
     vs \<leftarrow> wr (blob_valid_until (tab s)) index VALID_UNTIL_EMPTY;
     Some (s\<lparr>tab := (tab s)\<lparr>blob_valid_until := vs\<rparr>, htable_free := htable_free s + 1\<rparr>) }"

definition storage_blob_abort :: "storage \<Rightarrow> htable_key_t \<Rightarrow> storage option" where
  "storage_blob_abort s bid = do {
     (found, index) \<leftarrow> htable_get_blob_index s bid;
     if found then do {
       (s, index) \<leftarrow> htable_erase_slot s index;
       s \<leftarrow> zero_slot_id s index;
       block \<leftarrow> rd (blob_data (tab s)) index;
       s \<leftarrow> storage_blob_free s block;
       ds \<leftarrow> wr (blob_data (tab s)) index null_blk;
       reset_slot_time (s\<lparr>tab := (tab s)\<lparr>blob_data := ds\<rparr>\<rparr>) index }
     else Some s }"

definition storage_blob_is_already_taken :: "storage \<Rightarrow> htable_key_t \<Rightarrow> bool option" where
  "storage_blob_is_already_taken s bid = do {
     i \<leftarrow> lp_lookup htable_hash (blob_ids (tab s)) bid (htable_size s);
     Some (htable_size s \<noteq> i) }"

definition storage_blob_get :: "storage \<Rightarrow> htable_key_t \<Rightarrow> (blk_t \<times> storage) option" where
  "storage_blob_get s bid = do {
     (found, index) \<leftarrow> htable_get_blob_index s bid;
     if found then do {
       v \<leftarrow> rd (blob_valid_until (tab s)) index;
       if VALID_UNTIL_NOT_PUBLISHED \<noteq> v then do {
         ret \<leftarrow> rd (blob_data (tab s)) index;
         (s, index) \<leftarrow> htable_erase_slot s index;
         s \<leftarrow> zero_slot_id s index;
         s \<leftarrow> reset_slot_time s index;
         Some (ret, s) }
       else Some (null_blk, s) }
     else Some (null_blk, s) }"

text \<open>The reaper: gather the expired ids, then take and free each of them.\<close>

fun reaper_gather :: "nat list \<Rightarrow> u32 \<Rightarrow> storage \<Rightarrow> storage option" where
  "reaper_gather [] time_now s = Some s"
| "reaper_gather (i # rest) time_now s = do {
     v \<leftarrow> rd (blob_valid_until (tab s)) (of_nat i);
     if v < time_now then do {
       k \<leftarrow> rd (blob_ids (tab s)) (of_nat i);
       invalid \<leftarrow> wr (blob_ids_invalid s) (blob_ids_invalid_count s) k;
       reaper_gather rest time_now
         (s\<lparr>blob_ids_invalid := invalid, blob_ids_invalid_count := blob_ids_invalid_count s + 1\<rparr>) }
     else reaper_gather rest time_now s }"

fun storage_rip :: "nat list \<Rightarrow> storage \<Rightarrow> storage option" where
  "storage_rip [] s = Some s"
| "storage_rip (i # rest) s = do {
     k \<leftarrow> rd (blob_ids_invalid s) (of_nat i);
     (block, s) \<leftarrow> storage_blob_get s k;
     ensure (\<not> (blk_size block = 0 \<or> blk_data block = 0));
     s \<leftarrow> storage_blob_free s block;
     storage_rip rest s }"

definition storage_reaper :: "storage \<Rightarrow> u32 \<Rightarrow> storage option" where
  "storage_reaper s time_now = do {
     s \<leftarrow> reaper_gather [0..<unat (htable_size s)] time_now s;
     s \<leftarrow> storage_rip [0..<unat (blob_ids_invalid_count s)] s;
     ensure (unat (blob_ids_invalid_count s) \<le> length (blob_ids_invalid s));
     let c = unat (blob_ids_invalid_count s);
     Some (s\<lparr>blob_ids_invalid := replicate c null_key @ drop c (blob_ids_invalid s),
       blob_ids_invalid_count := 0\<rparr>) }"

text \<open>\<^verbatim>\<open>storage_status\<close>: the blocks in use and the capacity, bucket by bucket.\<close>

definition storage_status :: "storage \<Rightarrow> (u64 \<times> u64) list option" where
  "storage_status s = those (map
     (\<lambda>i. do {
        let mx = bbucket_capacity (of_nat i);
        fr \<leftarrow> bbucket_items_free (balloc_data s) (of_nat i);
        Some (mx - fr, mx) }) [0..<unat BUCKETS_COUNT])"

end
