(* ===== verification/Storage_Inv.thy ===== *)
theory Storage_Inv
  imports Storage
begin

text \<open>
  The invariant of the blob store and what each operation does to it. The store is described
  by its table, read as a map from ids to blocks and expiry times, by the blocks that
  \<^verbatim>\<open>storage_blob_get\<close> has handed out and that are not freed yet, and by the bytes of these blocks.
\<close>

section \<open>The invariant\<close>

text \<open>
  The owners of blocks: an id of the table holds its block, and the caller of
  \<^verbatim>\<open>storage_blob_get\<close> holds what it was given (\<^const>\<open>None\<close>).
\<close>

definition holders ::
    "(htable_key_t \<Rightarrow> (blk_t \<times> u32) option) \<Rightarrow> blk_t set \<Rightarrow> (htable_key_t option \<times> blk_t) set" where
  "holders V out = {(Some k, b) |k b. \<exists>v. V k = Some (b, v)} \<union> Pair None ` out"

text \<open>The expiry time of a free slot is the largest one, so the reaper passes over it.\<close>

definition free_times_empty :: "htab \<Rightarrow> nat \<Rightarrow> bool" where
  "free_times_empty t n \<longleftrightarrow>
     (\<forall>p<n. \<not> occ (blob_ids t) p \<longrightarrow> blob_valid_until t ! p = VALID_UNTIL_EMPTY)"

definition storage_inv :: "storage \<Rightarrow> blk_t set \<Rightarrow> bool" where
  "storage_inv s out \<longleftrightarrow>
     tab_inv htable_hash (htable_size s) (tab s) \<and>
     unat (htable_free s) + tab_used (tab s) = unat (htable_size s) \<and>
     free_times_empty (tab s) (unat (htable_size s)) \<and>
     length (blob_ids_invalid s) = unat (htable_size s) \<and> blob_ids_invalid_count s = 0 \<and>
     pool_inv (arena s) (balloc_data s) (memory s) (holders (tab_view (tab s)) out)"

lemma storage_invD:
  assumes "storage_inv s out"
  shows "tab_inv htable_hash (htable_size s) (tab s)"
    "unat (htable_free s) + tab_used (tab s) = unat (htable_size s)"
    "free_times_empty (tab s) (unat (htable_size s))"
    "length (blob_ids_invalid s) = unat (htable_size s)" "blob_ids_invalid_count s = 0"
    "pool_inv (arena s) (balloc_data s) (memory s) (holders (tab_view (tab s)) out)"
  using assms by (simp_all add: storage_inv_def)

lemma holders_iff [simp]:
  "(Some k, b) \<in> holders V out \<longleftrightarrow> (\<exists>v. V k = Some (b, v))" "(None, b) \<in> holders V out \<longleftrightarrow> b \<in> out"
  by (auto simp: holders_def)

lemma holders_eqI:
  assumes "\<And>k b. (Some k, b) \<in> A \<longleftrightarrow> (Some k, b) \<in> B" "\<And>b. (None, b) \<in> A \<longleftrightarrow> (None, b) \<in> B"
  shows "A = B"
proof (rule set_eqI)
  fix x
  show "x \<in> A \<longleftrightarrow> x \<in> B" using assms by (cases x; cases "fst x") auto
qed

lemma holders_insert: "V k = None \<Longrightarrow> holders (V(k \<mapsto> (b, v))) out = insert (Some k, b) (holders V out)"
  by (rule holders_eqI) (auto split: if_splits)

lemma holders_delete:
  "V k = Some (b, v) \<Longrightarrow> holders (V(k := None)) out = holders V out - {(Some k, b)}"
  by (rule holders_eqI) (auto split: if_splits)

lemma holders_time: "V k = Some (b, v) \<Longrightarrow> holders (V(k \<mapsto> (b, v'))) out = holders V out"
  by (rule holders_eqI) (auto split: if_splits)

lemma holders_out: "holders V (insert b out) = insert (None, b) (holders V out)"
  "holders V (out - {b}) = holders V out - {(None, b)}"
  by (rule holders_eqI; auto)+

text \<open>The store as a map from ids to contents and expiry times.\<close>

definition contents :: "storage \<Rightarrow> blk_t \<Rightarrow> u8 list option" where
  "contents s b = load_bytes (memory s) (blk_data b) (unat (blk_size b))"

definition blob_at :: "storage \<Rightarrow> htable_key_t \<Rightarrow> (u8 list \<times> u32) option" where
  "blob_at s k = (case tab_view (tab s) k of
     None \<Rightarrow> None
   | Some (b, v) \<Rightarrow> map_option (\<lambda>c. (c, v)) (contents s b))"

lemma contents_cong:
  "(\<And>x. x \<in> extent b \<Longrightarrow> memory s' x = memory s x) \<Longrightarrow> contents s' b = contents s b"
  unfolding contents_def extent_def by (rule load_bytes_cong) simp

lemma contents_held:
  assumes "storage_inv s out" "(o', b) \<in> holders (tab_view (tab s)) out"
  shows "\<exists>c. contents s b = Some c \<and> length c = unat (blk_size b)"
proof -
  note p = storage_invD(6) [OF assms(1)]
  have "extent b \<subseteq> dom (memory s)"
    using extent_slot [OF pool_invD(2) [OF p assms(2)]] pool_slot(3) [OF p assms(2)] by blast
  then show ?thesis unfolding contents_def extent_def by (rule load_bytes_Some)
qed

lemma blob_at_SomeE:
  assumes "blob_at s k = Some (c, v)"
  obtains b where "tab_view (tab s) k = Some (b, v)" "contents s b = Some c"
  using assms by (auto simp: blob_at_def split: option.splits)

lemma dom_blob_at: "storage_inv s out \<Longrightarrow> dom (blob_at s) = dom (tab_view (tab s))"
proof -
  assume i: "storage_inv s out"
  have "blob_at s k \<noteq> None" if "tab_view (tab s) k = Some (b, v)" for k b v
    using contents_held [OF i, of "Some k" b] that by (auto simp: blob_at_def)
  then show ?thesis by (auto simp: dom_def blob_at_def split: option.splits)
qed

text \<open>
  Two states whose memories agree outside of one block, which somebody held before: the
  contents of every other held block are the same.
\<close>

lemma contents_other:
  assumes inv: "storage_inv s out" and b: "(o1, b1) \<in> holders (tab_view (tab s)) out"
    "(o2, b2) \<in> holders (tab_view (tab s)) out" "(o1, b1) \<noteq> (o2, b2)"
    and m: "\<And>x. x \<notin> slot_bytes b1 \<Longrightarrow> memory s' x = memory s x"
  shows "contents s' b2 = contents s b2"
proof (rule contents_cong)
  fix x assume "x \<in> extent b2"
  then have "x \<in> slot_bytes b2"
    using extent_slot pool_invD(2) [OF storage_invD(6) [OF inv] b(2)] by blast
  then show "memory s' x = memory s x"
    using pool_disjoint [OF storage_invD(6) [OF inv] b] by (intro m) blast
qed


section \<open>Looking up and counting\<close>

lemma htable_get_blob_index_absent:
  assumes "storage_inv s out" "tab_view (tab s) k = None"
  shows "htable_get_blob_index s k = Some (False, htable_size s)"
  using tab_find_miss [OF storage_invD(1) [OF assms(1)] assms(2)]
  by (simp add: htable_get_blob_index_def)

lemma htable_get_blob_index_present:
  assumes "storage_inv s out" "tab_view (tab s) k = Some (b, v)"
  obtains p where "p < unat (htable_size s)" "occ (blob_ids (tab s)) p" "blob_ids (tab s) ! p = k"
    "blob_data (tab s) ! p = b" "blob_valid_until (tab s) ! p = v"
    "htable_get_blob_index s k = Some (True, of_nat p)" "unat (of_nat p :: u64) = p"
proof -
  obtain p where p: "p < unat (htable_size s)" "occ (blob_ids (tab s)) p" "blob_ids (tab s) ! p = k"
      "(b, v) = (blob_data (tab s) ! p, blob_valid_until (tab s) ! p)"
      "lp_lookup htable_hash (blob_ids (tab s)) k (htable_size s) = Some (of_nat p)"
      "of_nat p \<noteq> htable_size s"
    using storage_invD(1) [OF assms(1)] assms(2) by (rule tab_find_hit)
  then show ?thesis
    using that [of p] unat_of_nat_slot [OF p(1)] by (simp add: htable_get_blob_index_def)
qed

lemma tab_lengths:
  assumes "storage_inv s out"
  shows "length (blob_ids (tab s)) = unat (htable_size s)"
    "length (blob_data (tab s)) = unat (htable_size s)"
    "length (blob_valid_until (tab s)) = unat (htable_size s)"
  using tab_invD(2) [OF storage_invD(1) [OF assms]] unfolding htab_len_def by simp_all

lemma htable_free_zero:
  assumes "storage_inv s out"
  shows "htable_free s = 0 \<longleftrightarrow> \<not> tab_used (tab s) < unat (htable_size s)"
  using storage_invD(2) [OF assms] by (simp add: unat_eq_zero [symmetric]) linarith

lemma unat_dec: "(x :: u64) \<noteq> 0 \<Longrightarrow> unat (x - 1) + 1 = unat x"
  by (subst unat_sub) (auto simp: word_le_nat_alt unat_gt_0 Suc_le_eq)

lemma unat_inc: "unat (x :: u64) + k = unat (n :: u64) \<Longrightarrow> 0 < k \<Longrightarrow> unat (x + 1) = Suc (unat x)"
  by (rule unat_Suc_less [of x n]) (simp add: word_less_nat_alt)

section \<open>Creation\<close>

lemma create_null_key: "key_is_null k \<Longrightarrow> storage_blob_create s k sz = Some (null_blk, s)"
  by (simp add: storage_blob_create_def)

lemma create_table_full:
  "htable_free s = 0 \<Longrightarrow> storage_blob_create s k sz = Some (null_blk, s)"
  by (simp add: storage_blob_create_def htable_find_free_slot_def)

text \<open>The slot that \<^verbatim>\<open>htable_find_free_slot\<close> finds for a new id.\<close>

lemma htable_find_free_slot_ok:
  assumes inv: "storage_inv s out" and k: "\<not> key_is_null k" "tab_view (tab s) k = None"
    and room: "htable_free s \<noteq> 0"
  obtains p where "p < unat (htable_size s)" "htable_find_free_slot s k = Some (Some (of_nat p))"
    "\<not> occ (blob_ids (tab s)) p" "unat (of_nat p :: u64) = p"
    "\<And>b v t'. t' = (tab s)\<lparr>blob_ids := (blob_ids (tab s))[p := k],
        blob_data := (blob_data (tab s))[p := b],
        blob_valid_until := (blob_valid_until (tab s))[p := v]\<rparr> \<Longrightarrow>
      tab_put (tab s) (of_nat p) k (b, v) = Some t' \<and> tab_inv htable_hash (htable_size s) t' \<and>
      tab_view t' = (tab_view (tab s))(k \<mapsto> (b, v)) \<and> tab_used t' = Suc (tab_used (tab s))"
proof -
  have used: "tab_used (tab s) < unat (htable_size s)" using room htable_free_zero [OF inv] by simp
  obtain p where p: "p < unat (htable_size s)"
      "lp_find_free_slot htable_hash (blob_ids (tab s)) k (htable_size s) = Some (of_nat p)"
      "\<not> occ (blob_ids (tab s)) p"
      "\<And>b v t'. t' = (tab s)\<lparr>blob_ids := (blob_ids (tab s))[p := k],
          blob_data := (blob_data (tab s))[p := b],
          blob_valid_until := (blob_valid_until (tab s))[p := v]\<rparr> \<Longrightarrow>
        tab_put (tab s) (of_nat p) k (b, v) = Some t' \<and> tab_inv htable_hash (htable_size s) t' \<and>
        tab_view t' = (tab_view (tab s))(k \<mapsto> (b, v)) \<and> tab_used t' = Suc (tab_used (tab s))"
    by (rule tab_insert [OF storage_invD(1) [OF inv] k used]) (rule that)
  have "htable_find_free_slot s k = Some (Some (of_nat p))"
    using p(2) room by (simp add: htable_find_free_slot_def)
  then show ?thesis using that p(1,3,4) unat_of_nat_slot [OF p(1)] by blast
qed

lemma create_no_block:
  assumes inv: "storage_inv s out" and k: "tab_view (tab s) k = None" and sz: "size_ok sz"
    and nil: "bucket_list (balloc_data s) (memory s) (bucket_of sz) = []"
  shows "storage_blob_create s k sz = Some (null_blk, s)"
proof (cases "key_is_null k \<or> htable_free s = 0")
  case False
  then have a: "\<not> key_is_null k" "htable_free s \<noteq> 0" by auto
  obtain p where "htable_find_free_slot s k = Some (Some (of_nat p))"
    by (rule htable_find_free_slot_ok [OF inv a(1) k a(2)]) (erule that)
  then show ?thesis
    using pool_alloc_full [OF storage_invD(6) [OF inv] sz nil] size_ok_pos [OF sz] False
    by (simp add: storage_blob_create_def null_blk_def)
qed (auto simp: create_null_key create_table_full)

lemma create_ok:
  assumes inv: "storage_inv s out" and k: "\<not> key_is_null k" "tab_view (tab s) k = None"
    and room: "htable_free s \<noteq> 0" and sz: "size_ok sz"
    and ne: "bucket_list (balloc_data s) (memory s) (bucket_of sz) \<noteq> []"
  obtains b s' where "storage_blob_create s k sz = Some (b, s')" "blk_size b = sz"
    "storage_inv s' out" "memory s' = memory s" "htable_size s' = htable_size s"
    "tab_view (tab s') = (tab_view (tab s))(k \<mapsto> (b, VALID_UNTIL_NOT_PUBLISHED))"
    "arena s' = arena s"
    "blk_data b \<notin> (\<lambda>(o', b). blk_data b) ` holders (tab_view (tab s)) out"
proof -
  note d = storage_invD [OF inv]
  let ?v = VALID_UNTIL_NOT_PUBLISHED
  obtain p where p: "p < unat (htable_size s)" "htable_find_free_slot s k = Some (Some (of_nat p))"
      "\<not> occ (blob_ids (tab s)) p"
    and put: "\<And>b v t'. t' = (tab s)\<lparr>blob_ids := (blob_ids (tab s))[p := k],
        blob_data := (blob_data (tab s))[p := b],
        blob_valid_until := (blob_valid_until (tab s))[p := v]\<rparr> \<Longrightarrow>
      tab_put (tab s) (of_nat p) k (b, v) = Some t' \<and> tab_inv htable_hash (htable_size s) t' \<and>
      tab_view t' = (tab_view (tab s))(k \<mapsto> (b, v)) \<and> tab_used t' = Suc (tab_used (tab s))"
    using htable_find_free_slot_ok [OF inv k room] by metis
  obtain b ba' where b: "balloc (balloc_data s) (memory s) sz = Some (b, ba')" "blk_size b = sz"
      "blk_data b \<notin> (\<lambda>(o', b). blk_data b) ` holders (tab_view (tab s)) out"
      "pool_inv (arena s) ba' (memory s) (insert (Some k, b) (holders (tab_view (tab s)) out))"
    using pool_alloc [OF d(6) sz ne] by metis
  define t' where "t' = (tab s)\<lparr>blob_ids := (blob_ids (tab s))[p := k],
    blob_data := (blob_data (tab s))[p := b], blob_valid_until := (blob_valid_until (tab s))[p := ?v]\<rparr>"
  have t': "tab_put (tab s) (of_nat p) k (b, ?v) = Some t'" "tab_inv htable_hash (htable_size s) t'"
      "tab_view t' = (tab_view (tab s))(k \<mapsto> (b, ?v))" "tab_used t' = Suc (tab_used (tab s))"
    using put [OF t'_def] by blast+
  define s' where "s' = s\<lparr>balloc_data := ba', tab := t', htable_free := htable_free s - 1\<rparr>"
  have run: "storage_blob_create s k sz = Some (b, s')"
    using k(1) p(2) b(1,2) t'(1) by (simp add: storage_blob_create_def s'_def)
  have times: "free_times_empty t' (unat (htable_size s))"
    using d(3) p(1,3) k(1) tab_lengths [OF inv]
    by (auto simp: free_times_empty_def t'_def occ_def nth_list_update)
  have arena: "arena s' = arena s" by (simp add: s'_def arena_def)
  have "storage_inv s' out"
    unfolding storage_inv_def arena
    using t' times d(2,4,5) b(4) unat_dec [OF room] holders_insert [where V = "tab_view (tab s)", OF k(2)]
    by (simp add: s'_def)
  then show ?thesis using that run b t'(3) arena by (simp add: s'_def)
qed


section \<open>Publication\<close>

lemma publish_absent:
  assumes "storage_inv s out" "tab_view (tab s) k = None"
  shows "storage_blob_publish s k v = Some (False, s)"
  using htable_get_blob_index_absent [OF assms] by (simp add: storage_blob_publish_def)

lemma publish_ok:
  assumes inv: "storage_inv s out" and k: "tab_view (tab s) k = Some (b, v)"
  obtains s' where "storage_blob_publish s k v' = Some (True, s')" "storage_inv s' out"
    "memory s' = memory s" "htable_size s' = htable_size s" "arena s' = arena s"
    "balloc_data s' = balloc_data s"
    "tab_view (tab s') = (tab_view (tab s))(k \<mapsto> (b, v'))"
proof -
  note d = storage_invD [OF inv]
  obtain p where p: "p < unat (htable_size s)" "occ (blob_ids (tab s)) p" "blob_ids (tab s) ! p = k"
      "blob_data (tab s) ! p = b" "htable_get_blob_index s k = Some (True, of_nat p)"
      "unat (of_nat p :: u64) = p"
    using htable_get_blob_index_present [OF assms] by metis
  define t' where "t' = (tab s)\<lparr>blob_valid_until := (blob_valid_until (tab s))[p := v']\<rparr>"
  note t' = tab_set_time [OF d(1) p(1,2) t'_def]
  have run: "storage_blob_publish s k v' = Some (True, s\<lparr>tab := t'\<rparr>)"
    using p(1,5,6) tab_lengths(3) [OF inv] by (simp add: storage_blob_publish_def t'_def)
  have view: "tab_view t' = (tab_view (tab s))(k \<mapsto> (b, v'))" using t'(2) p(3,4) by simp
  have times: "free_times_empty t' (unat (htable_size s))"
    using d(3) p(2) unfolding free_times_empty_def t'_def
    by (auto simp: nth_list_update) (metis nth_list_update_neq)
  have "storage_inv (s\<lparr>tab := t'\<rparr>) out"
    using d t'(1,3) times holders_time [where V = "tab_view (tab s)", OF k, of v' out] view
    by (simp add: storage_inv_def arena_def)
  then show ?thesis using that run view by (simp add: arena_def)
qed

section \<open>Removal\<close>

text \<open>
  What \<^verbatim>\<open>storage_blob_get\<close> and \<^verbatim>\<open>storage_blob_abort\<close> do to the table: the entry of the id is gone, the
  hole is a free slot like any other.
\<close>

lemma erase_and_clear:
  assumes inv: "storage_inv s out" and k: "tab_view (tab s) k = Some (b, v)"
  obtains p hole t1 where "p < unat (htable_size s)" "unat (of_nat p :: u64) = p"
    "htable_get_blob_index s k = Some (True, of_nat p)"
    "blob_data (tab s) ! p = b" "blob_valid_until (tab s) ! p = v"
    "htable_erase_slot s (of_nat p) = Some (s\<lparr>tab := t1\<rparr>, of_nat hole)"
    "hole < unat (htable_size s)" "unat (of_nat hole :: u64) = hole"
    "htab_len t1 (unat (htable_size s))" "blob_data t1 ! hole = b"
    "tab_used (tab s) = Suc (tab_used t1)"
    "\<And>d t2. t2 = t1\<lparr>blob_ids := (blob_ids t1)[hole := null_key], blob_data := (blob_data t1)[hole := d],
        blob_valid_until := (blob_valid_until t1)[hole := VALID_UNTIL_EMPTY]\<rparr> \<Longrightarrow>
      tab_inv htable_hash (htable_size s) t2 \<and> tab_view t2 = (tab_view (tab s))(k := None) \<and>
      tab_used t2 = tab_used t1 \<and> free_times_empty t2 (unat (htable_size s))"
proof -
  note d = storage_invD [OF inv]
  obtain p where p: "p < unat (htable_size s)" "occ (blob_ids (tab s)) p" "blob_ids (tab s) ! p = k"
      "blob_data (tab s) ! p = b" "blob_valid_until (tab s) ! p = v"
      "htable_get_blob_index s k = Some (True, of_nat p)" "unat (of_nat p :: u64) = p"
    using inv k by (rule htable_get_blob_index_present)
  obtain t1 hole where e: "lp_erase htable_hash (tab s) (of_nat p) (htable_size s) = Some (t1, of_nat hole)"
      "hole < unat (htable_size s)" "tab_inv htable_hash (htable_size s) t1"
      "tab_view t1 = (tab_view (tab s))(blob_ids (tab s) ! p := None)"
      "tab_used (tab s) = Suc (tab_used t1)"
      "blob_ids t1 ! hole = null_key" "blob_data t1 ! hole = blob_data (tab s) ! p"
      "blob_valid_until t1 ! hole = blob_valid_until (tab s) ! p"
    and rest: "\<And>q. q < unat (htable_size s) \<Longrightarrow> q \<noteq> hole \<Longrightarrow> \<not> occ (blob_ids t1) q \<Longrightarrow>
      entry t1 q = entry (tab s) q"
    by (rule tab_erase [OF d(1) p(1,2)]) (rule that)
  have hole: "\<not> occ (blob_ids t1) hole" using e(6) by (simp add: occ_def)
  have len: "length (blob_valid_until t1) = unat (htable_size s)"
    using tab_invD(2) [OF e(3)] unfolding htab_len_def by simp
  have t2: "tab_inv htable_hash (htable_size s) t2 \<and> tab_view t2 = (tab_view (tab s))(k := None) \<and>
      tab_used t2 = tab_used t1 \<and> free_times_empty t2 (unat (htable_size s))"
    if t2: "t2 = t1\<lparr>blob_ids := (blob_ids t1)[hole := null_key], blob_data := (blob_data t1)[hole := x],
        blob_valid_until := (blob_valid_until t1)[hole := VALID_UNTIL_EMPTY]\<rparr>" for x t2
  proof -
    note u = tab_update_free [OF e(3) e(2) hole t2]
    have "blob_valid_until t2 ! q = VALID_UNTIL_EMPTY"
      if q: "q < unat (htable_size s)" "\<not> occ (blob_ids t2) q" for q
    proof (cases "q = hole")
      case False
      have "entry t1 q = entry (tab s) q" using rest q False u(4) by simp
      moreover have "\<not> occ (blob_ids (tab s)) q"
        using \<open>entry t1 q = entry (tab s) q\<close> q(2) u(4) by (simp add: entry_def occ_def)
      ultimately show ?thesis
        using d(3) q(1) False by (simp add: t2 entry_def free_times_empty_def)
    qed (simp add: t2 len e(2))
    then show ?thesis using u e(4) p(3) by (simp add: free_times_empty_def)
  qed
  show ?thesis
  proof (rule that [OF p(1,7,6,4,5) _ e(2) unat_of_nat_slot [OF e(2)] tab_invD(2) [OF e(3)] _ e(5)])
    show "htable_erase_slot s (of_nat p) = Some (s\<lparr>tab := t1\<rparr>, of_nat hole)"
      using e(1) by (simp add: htable_erase_slot_def)
    show "blob_data t1 ! hole = b" using e(7) p(4) by simp
  qed (rule t2)
qed

lemma get_absent:
  assumes "storage_inv s out" "tab_view (tab s) k = None"
  shows "storage_blob_get s k = Some (null_blk, s)"
  using htable_get_blob_index_absent [OF assms] by (simp add: storage_blob_get_def)

lemma get_unpublished:
  assumes inv: "storage_inv s out" and k: "tab_view (tab s) k = Some (b, VALID_UNTIL_NOT_PUBLISHED)"
  shows "storage_blob_get s k = Some (null_blk, s)"
proof -
  obtain p where "p < unat (htable_size s)" "blob_valid_until (tab s) ! p = VALID_UNTIL_NOT_PUBLISHED"
      "htable_get_blob_index s k = Some (True, of_nat p)" "unat (of_nat p :: u64) = p"
    using htable_get_blob_index_present [OF inv k] by metis
  then show ?thesis using tab_lengths(3) [OF inv] by (simp add: storage_blob_get_def)
qed

lemma get_ok:
  assumes inv: "storage_inv s out" and k: "tab_view (tab s) k = Some (b, v)"
    and v: "v \<noteq> VALID_UNTIL_NOT_PUBLISHED"
  obtains s' where "storage_blob_get s k = Some (b, s')" "storage_inv s' (insert b out)"
    "memory s' = memory s" "htable_size s' = htable_size s" "arena s' = arena s"
    "balloc_data s' = balloc_data s" "blob_ids_invalid s' = blob_ids_invalid s"
    "blob_ids_invalid_count s' = blob_ids_invalid_count s"
    "tab_view (tab s') = (tab_view (tab s))(k := None)"
proof -
  note d = storage_invD [OF inv]
  obtain p hole t1 where p: "p < unat (htable_size s)" "unat (of_nat p :: u64) = p"
      "htable_get_blob_index s k = Some (True, of_nat p)"
      "blob_data (tab s) ! p = b" "blob_valid_until (tab s) ! p = v"
    and e: "htable_erase_slot s (of_nat p) = Some (s\<lparr>tab := t1\<rparr>, of_nat hole)"
      "hole < unat (htable_size s)" "unat (of_nat hole :: u64) = hole"
      "htab_len t1 (unat (htable_size s))" "blob_data t1 ! hole = b"
      "tab_used (tab s) = Suc (tab_used t1)"
    and clear: "\<And>d t2. t2 = t1\<lparr>blob_ids := (blob_ids t1)[hole := null_key],
          blob_data := (blob_data t1)[hole := d],
          blob_valid_until := (blob_valid_until t1)[hole := VALID_UNTIL_EMPTY]\<rparr> \<Longrightarrow>
        tab_inv htable_hash (htable_size s) t2 \<and> tab_view t2 = (tab_view (tab s))(k := None) \<and>
        tab_used t2 = tab_used t1 \<and> free_times_empty t2 (unat (htable_size s))"
    by (rule erase_and_clear [OF inv k]) (rule that)
  have l: "length (blob_ids t1) = unat (htable_size s)" "length (blob_data t1) = unat (htable_size s)"
      "length (blob_valid_until t1) = unat (htable_size s)"
    using e(4) unfolding htab_len_def by simp_all
  define t2 where "t2 = t1\<lparr>blob_ids := (blob_ids t1)[hole := null_key],
    blob_valid_until := (blob_valid_until t1)[hole := VALID_UNTIL_EMPTY]\<rparr>"
  have "t2 = t1\<lparr>blob_ids := (blob_ids t1)[hole := null_key],
      blob_data := (blob_data t1)[hole := blob_data t1 ! hole],
      blob_valid_until := (blob_valid_until t1)[hole := VALID_UNTIL_EMPTY]\<rparr>"
    by (simp add: t2_def)
  note t2 = clear [OF this]
  define s' where "s' = s\<lparr>tab := t2, htable_free := htable_free s + 1\<rparr>"
  have run: "storage_blob_get s k = Some (b, s')"
    using p e(1-3) v l tab_lengths [OF inv]
    by (simp add: storage_blob_get_def zero_slot_id_def reset_slot_time_def s'_def t2_def)
  have "unat (htable_free s + 1) = Suc (unat (htable_free s))"
    using unat_inc [OF d(2)] e(6) by simp
  moreover have "pool_inv (arena s) (balloc_data s) (memory s)
      (insert (None, b) (holders (tab_view (tab s)) out - {(Some k, b)}))"
    using pool_transfer [OF d(6)] k by simp
  ultimately have "storage_inv s' (insert b out)"
    using t2 d(2,4,5) e(6) holders_delete [where V = "tab_view (tab s)", OF k]
    by (simp add: storage_inv_def s'_def arena_def holders_out)
  then show ?thesis using that run t2 by (simp add: s'_def arena_def)
qed

section \<open>Giving a block back\<close>

text \<open>The bytes of a freed block: all zero, but for the eight of the free list.\<close>

definition erased :: "storage \<Rightarrow> blk_t \<Rightarrow> bool" where
  "erased s b \<longleftrightarrow> (\<forall>x\<in>extent b - bytes (blk_data b) 8. memory s x = Some 0)"

lemma storage_blob_free_pool:
  assumes "pool_inv (arena s) (balloc_data s) (memory s) H" "(o', b) \<in> H"
  obtains ba' m' where "storage_blob_free s b = Some (s\<lparr>balloc_data := ba', memory := m'\<rparr>)"
    "pool_inv (arena s) ba' m' (H - {(o', b)})" "dom m' = dom (memory s)"
    "\<And>x. x \<notin> slot_bytes b \<Longrightarrow> m' x = memory s x"
    "\<And>x. x \<in> extent b \<Longrightarrow> x \<notin> bytes (blk_data b) 8 \<Longrightarrow> m' x = Some 0"
proof -
  obtain m1 ba' m' where r: "secure_zero (memory s) (blk_data b) (unat (blk_size b)) = Some m1"
      "bfree (balloc_data s) m1 b = Some (ba', m')" "pool_inv (arena s) ba' m' (H - {(o', b)})"
      "dom m' = dom (memory s)" "\<And>x. x \<notin> slot_bytes b \<Longrightarrow> m' x = memory s x"
      "\<And>x. x \<in> extent b \<Longrightarrow> x \<notin> bytes (blk_data b) 8 \<Longrightarrow> m' x = Some 0"
    by (rule pool_zero_free [OF assms]) (rule that)
  have "storage_blob_free s b = Some (s\<lparr>balloc_data := ba', memory := m'\<rparr>)"
    using r(1,2) by (simp add: storage_blob_free_def)
  then show ?thesis using that r(3-6) by blast
qed

lemma free_ok:
  assumes inv: "storage_inv s out" and b: "b \<in> out"
  obtains s' where "storage_blob_free s b = Some s'" "storage_inv s' (out - {b})" "tab s' = tab s"
    "htable_size s' = htable_size s" "arena s' = arena s" "htable_free s' = htable_free s"
    "blob_ids_invalid s' = blob_ids_invalid s" "blob_ids_invalid_count s' = blob_ids_invalid_count s"
    "\<And>x. x \<notin> slot_bytes b \<Longrightarrow> memory s' x = memory s x" "erased s' b"
    "dom (memory s') = dom (memory s)"
proof -
  note d = storage_invD [OF inv]
  have bH: "(None, b) \<in> holders (tab_view (tab s)) out" using b by simp
  obtain ba' m' where r: "storage_blob_free s b = Some (s\<lparr>balloc_data := ba', memory := m'\<rparr>)"
      "pool_inv (arena s) ba' m' (holders (tab_view (tab s)) out - {(None, b)})"
      "dom m' = dom (memory s)" "\<And>x. x \<notin> slot_bytes b \<Longrightarrow> m' x = memory s x"
      "\<And>x. x \<in> extent b \<Longrightarrow> x \<notin> bytes (blk_data b) 8 \<Longrightarrow> m' x = Some 0"
    by (rule storage_blob_free_pool [OF d(6) bH]) (rule that)
  let ?s' = "s\<lparr>balloc_data := ba', memory := m'\<rparr>"
  have "storage_inv ?s' (out - {b})"
    using d r(2) by (simp add: storage_inv_def arena_def holders_out)
  moreover have "erased ?s' b" using r(5) by (simp add: erased_def)
  ultimately show ?thesis using that [of ?s'] r by (simp add: arena_def)
qed

lemma abort_absent:
  assumes "storage_inv s out" "tab_view (tab s) k = None"
  shows "storage_blob_abort s k = Some s"
  using htable_get_blob_index_absent [OF assms] by (simp add: storage_blob_abort_def)

lemma abort_ok:
  assumes inv: "storage_inv s out" and k: "tab_view (tab s) k = Some (b, v)"
  obtains s' where "storage_blob_abort s k = Some s'" "storage_inv s' out"
    "tab_view (tab s') = (tab_view (tab s))(k := None)" "htable_size s' = htable_size s"
    "arena s' = arena s" "\<And>x. x \<notin> slot_bytes b \<Longrightarrow> memory s' x = memory s x" "erased s' b"
    "dom (memory s') = dom (memory s)"
proof -
  note d = storage_invD [OF inv]
  obtain p hole t1 where p: "p < unat (htable_size s)" "unat (of_nat p :: u64) = p"
      "htable_get_blob_index s k = Some (True, of_nat p)"
      "blob_data (tab s) ! p = b" "blob_valid_until (tab s) ! p = v"
    and e: "htable_erase_slot s (of_nat p) = Some (s\<lparr>tab := t1\<rparr>, of_nat hole)"
      "hole < unat (htable_size s)" "unat (of_nat hole :: u64) = hole"
      "htab_len t1 (unat (htable_size s))" "blob_data t1 ! hole = b"
      "tab_used (tab s) = Suc (tab_used t1)"
    and clear: "\<And>d t2. t2 = t1\<lparr>blob_ids := (blob_ids t1)[hole := null_key],
          blob_data := (blob_data t1)[hole := d],
          blob_valid_until := (blob_valid_until t1)[hole := VALID_UNTIL_EMPTY]\<rparr> \<Longrightarrow>
        tab_inv htable_hash (htable_size s) t2 \<and> tab_view t2 = (tab_view (tab s))(k := None) \<and>
        tab_used t2 = tab_used t1 \<and> free_times_empty t2 (unat (htable_size s))"
    by (rule erase_and_clear [OF inv k]) (rule that)
  have l: "length (blob_ids t1) = unat (htable_size s)" "length (blob_data t1) = unat (htable_size s)"
      "length (blob_valid_until t1) = unat (htable_size s)"
    using e(4) unfolding htab_len_def by simp_all
  define t2 where "t2 = t1\<lparr>blob_ids := (blob_ids t1)[hole := null_key],
    blob_data := (blob_data t1)[hole := null_blk],
    blob_valid_until := (blob_valid_until t1)[hole := VALID_UNTIL_EMPTY]\<rparr>"
  note t2 = clear [OF t2_def]
  define s1 where "s1 = s\<lparr>tab := t1\<lparr>blob_ids := (blob_ids t1)[hole := null_key]\<rparr>\<rparr>"
  have p1: "pool_inv (arena s1) (balloc_data s1) (memory s1) (holders (tab_view (tab s)) out)"
    using d(6) by (simp add: s1_def arena_def)
  have bH: "(Some k, b) \<in> holders (tab_view (tab s)) out" using k by simp
  obtain ba' m' where r: "storage_blob_free s1 b = Some (s1\<lparr>balloc_data := ba', memory := m'\<rparr>)"
      "pool_inv (arena s1) ba' m' (holders (tab_view (tab s)) out - {(Some k, b)})"
      "dom m' = dom (memory s1)" "\<And>x. x \<notin> slot_bytes b \<Longrightarrow> m' x = memory s1 x"
      "\<And>x. x \<in> extent b \<Longrightarrow> x \<notin> bytes (blk_data b) 8 \<Longrightarrow> m' x = Some 0"
    by (rule storage_blob_free_pool [OF p1 bH]) (rule that)
  define s' where "s' = s\<lparr>tab := t2, htable_free := htable_free s + 1, balloc_data := ba', memory := m'\<rparr>"
  have zero: "zero_slot_id (s\<lparr>tab := t1\<rparr>) (of_nat hole) = Some s1"
    using e(2,3) l by (simp add: zero_slot_id_def s1_def)
  have "rd (blob_data (tab s1)) (of_nat hole) = Some b"
    using e(2,3,5) l by (simp add: s1_def)
  then have run: "storage_blob_abort s k = Some s'"
    using p e(1-3) l zero r(1)
    by (simp add: storage_blob_abort_def reset_slot_time_def) (simp add: s1_def s'_def t2_def)
  have "unat (htable_free s + 1) = Suc (unat (htable_free s))"
    using unat_inc [OF d(2)] e(6) by simp
  then have "storage_inv s' out"
    using t2 d(2,4,5) e(6) r(2) holders_delete [where V = "tab_view (tab s)", OF k]
    by (simp add: storage_inv_def s'_def s1_def arena_def)
  moreover have "erased s' b" using r(5) by (simp add: erased_def s'_def)
  ultimately show ?thesis using that [of s'] run t2 r(3,4) by (simp add: s'_def s1_def arena_def)
qed

end
