(* ===== verification/Reaper.thy ===== *)
theory Reaper
  imports Storage_Inv
begin

text \<open>
  \<^verbatim>\<open>storage_reaper\<close>: the ids whose time is over are gathered in \<^verbatim>\<open>blob_ids_invalid\<close>, then each is
  taken out of the table and its block is freed. The scan of the expiry times exists twice,
  as a plain loop and with AVX2 instructions; the two gather the same ids.
\<close>

section \<open>Gathering\<close>

definition expired_ids :: "htab \<Rightarrow> u32 \<Rightarrow> nat list \<Rightarrow> htable_key_t list" where
  "expired_ids t now is = map (\<lambda>i. blob_ids t ! i) (filter (\<lambda>i. blob_valid_until t ! i < now) is)"

lemma take_write:
  assumes "c < length xs" "take c xs = ys"
  shows "take (Suc c) (xs[c := k]) = ys @ [k]"
  using assms by (simp add: take_Suc_conv_app_nth)

lemma reaper_gather_ok:
  assumes "length (blob_ids (tab s)) = n" "length (blob_valid_until (tab s)) = n"
    and "length (blob_ids_invalid s) = n" "n < 2 ^ 64" "\<forall>i\<in>set is. i < n"
    and "unat (blob_ids_invalid_count s) + length is \<le> n"
    and "take (unat (blob_ids_invalid_count s)) (blob_ids_invalid s) = ys"
  shows "\<exists>inv c. reaper_gather is now s =
      Some (s\<lparr>blob_ids_invalid := inv, blob_ids_invalid_count := c\<rparr>) \<and> length inv = n \<and>
      unat c = length (ys @ expired_ids (tab s) now is) \<and>
      take (unat c) inv = ys @ expired_ids (tab s) now is"
  using assms
proof (induction "is" arbitrary: s ys)
  case Nil
  then have "length ys = unat (blob_ids_invalid_count s)" by auto
  then show ?case
    using Nil.prems by (intro exI [of _ "blob_ids_invalid s"] exI [of _ "blob_ids_invalid_count s"])
      (simp add: expired_ids_def)
next
  case (Cons i rest)
  let ?c = "blob_ids_invalid_count s"
  have i: "i < n" "unat (of_nat i :: u64) = i"
    using Cons.prems(4,5) unat_of_nat_small [of i] by auto
  have c: "unat ?c < n" using Cons.prems(6) by simp
  show ?case
  proof (cases "blob_valid_until (tab s) ! i < now")
    case False
    then show ?thesis
      using Cons.IH [of s ys] Cons.prems i by (simp add: expired_ids_def)
  next
    case True
    let ?k = "blob_ids (tab s) ! i"
    let ?s = "s\<lparr>blob_ids_invalid := (blob_ids_invalid s)[unat ?c := ?k], blob_ids_invalid_count := ?c + 1\<rparr>"
    have inc: "unat (?c + 1) = Suc (unat ?c)"
      using unat_inc [of ?c "n - unat ?c" "of_nat n"] c Cons.prems(4)
      by (simp add: unat_of_nat_small)
    have "take (unat (?c + 1)) ((blob_ids_invalid s)[unat ?c := ?k]) = ys @ [?k]"
      unfolding inc using c Cons.prems(3,7) by (intro take_write) auto
    then have "\<exists>inv c. reaper_gather rest now ?s =
        Some (?s\<lparr>blob_ids_invalid := inv, blob_ids_invalid_count := c\<rparr>) \<and> length inv = n \<and>
        unat c = length ((ys @ [?k]) @ expired_ids (tab ?s) now rest) \<and>
        take (unat c) inv = (ys @ [?k]) @ expired_ids (tab ?s) now rest"
      using Cons.prems inc c by (intro Cons.IH) simp_all
    moreover have "reaper_gather (i # rest) now s = reaper_gather rest now ?s"
      using True i c Cons.prems(1-3) by simp
    ultimately show ?thesis using True by (simp add: expired_ids_def)
  qed
qed


section \<open>Taking out and freeing\<close>

text \<open>The operations do not look at the list of invalid ids.\<close>

lemma get_invalid:
  "storage_blob_get (s\<lparr>blob_ids_invalid_count := c\<rparr>) k =
     map_option (\<lambda>(b, s'). (b, s'\<lparr>blob_ids_invalid_count := c\<rparr>)) (storage_blob_get s k)"
  by (auto simp: storage_blob_get_def htable_get_blob_index_def htable_erase_slot_def zero_slot_id_def
      reset_slot_time_def split: bind_splits)

lemma free_invalid:
  "storage_blob_free (s\<lparr>blob_ids_invalid_count := c\<rparr>) b =
     map_option (\<lambda>s'. s'\<lparr>blob_ids_invalid_count := c\<rparr>) (storage_blob_free s b)"
  by (auto simp: storage_blob_free_def split: bind_splits)

lemma rip_invalid:
  "storage_rip is (s\<lparr>blob_ids_invalid_count := c\<rparr>) =
     map_option (\<lambda>s'. s'\<lparr>blob_ids_invalid_count := c\<rparr>) (storage_rip is s)"
proof (induction "is" arbitrary: s)
  case (Cons i rest)
  show ?case
    by (auto simp: get_invalid free_invalid Cons.IH split: bind_splits option.splits)
qed simp

text \<open>The blocks of some ids.\<close>

definition blocks_of :: "storage \<Rightarrow> htable_key_t set \<Rightarrow> blk_t set" where
  "blocks_of s K = {b. \<exists>k\<in>K. \<exists>v. tab_view (tab s) k = Some (b, v)}"

lemma blocks_of_disjoint:
  assumes inv: "storage_inv s out" and "k \<notin> K" "tab_view (tab s) k = Some (b, v)" "b' \<in> blocks_of s K"
  shows "slot_bytes b \<inter> slot_bytes b' = {}"
proof -
  obtain k' v' where k': "k' \<in> K" "tab_view (tab s) k' = Some (b', v')"
    using assms(4) by (auto simp: blocks_of_def)
  then have "(Some k, b) \<noteq> (Some k', b')" using assms(2) by auto
  then show ?thesis
    using pool_disjoint [OF storage_invD(6) [OF inv], of "Some k" b "Some k'" b'] k'(2) assms(3)
    by simp
qed

text \<open>Erasure is final: what is written later is in other blocks.\<close>

lemma erased_frame:
  assumes "erased s b" "extent b \<subseteq> slot_bytes b" "\<And>b'. b' \<in> B \<Longrightarrow> slot_bytes b \<inter> slot_bytes b' = {}"
    and "\<And>x. x \<notin> (\<Union>b'\<in>B. slot_bytes b') \<Longrightarrow> memory s' x = memory s x"
  shows "erased s' b"
  unfolding erased_def
proof
  fix x assume x: "x \<in> extent b - bytes (blk_data b) 8"
  then have "x \<notin> (\<Union>b'\<in>B. slot_bytes b')" using assms(2,3) by blast
  then show "memory s' x = Some 0" using assms(1,4) x by (simp add: erased_def)
qed

lemma rip_ok:
  assumes "storage_inv s out" "\<forall>i\<in>set is. i < unat (htable_size s)"
    and "map (\<lambda>i. blob_ids_invalid s ! i) is = ks" "distinct ks"
    and "\<forall>k\<in>set ks. \<exists>b v. tab_view (tab s) k = Some (b, v) \<and> v \<noteq> VALID_UNTIL_NOT_PUBLISHED"
  shows "\<exists>s'. storage_rip is s = Some s' \<and> storage_inv s' out \<and>
    tab_view (tab s') = (\<lambda>k. if k \<in> set ks then None else tab_view (tab s) k) \<and>
    (\<forall>x. x \<notin> (\<Union>b\<in>blocks_of s (set ks). slot_bytes b) \<longrightarrow> memory s' x = memory s x) \<and>
    (\<forall>b\<in>blocks_of s (set ks). erased s' b) \<and> htable_size s' = htable_size s \<and>
    blob_ids_invalid s' = blob_ids_invalid s \<and> arena s' = arena s"
  using assms
proof (induction "is" arbitrary: s ks)
  case Nil
  then show ?case by (simp add: blocks_of_def)
next
  case (Cons i rest)
  note inv = Cons.prems(1)
  obtain k ks' where ks: "ks = k # ks'" "blob_ids_invalid s ! i = k"
      "map (\<lambda>i. blob_ids_invalid s ! i) rest = ks'" "k \<notin> set ks'" "distinct ks'"
    using Cons.prems(3,4) by auto
  have i: "i < unat (htable_size s)" "unat (of_nat i :: u64) = i"
    using Cons.prems(2) unat_of_nat_slot by auto
  obtain b v where b: "tab_view (tab s) k = Some (b, v)" "v \<noteq> VALID_UNTIL_NOT_PUBLISHED"
    using Cons.prems(5) ks(1) by auto
  obtain s1 where s1: "storage_blob_get s k = Some (b, s1)" "storage_inv s1 (insert b out)"
      "memory s1 = memory s" "htable_size s1 = htable_size s" "arena s1 = arena s"
      "blob_ids_invalid s1 = blob_ids_invalid s" "tab_view (tab s1) = (tab_view (tab s))(k := None)"
    using get_ok [OF inv b] by metis
  have bH: "(Some k, b) \<in> holders (tab_view (tab s)) out" using b(1) by simp
  note slot = pool_slot [OF storage_invD(6) [OF inv] bH]
  obtain s2 where s2: "storage_blob_free s1 b = Some s2" "storage_inv s2 (insert b out - {b})"
      "tab s2 = tab s1" "htable_size s2 = htable_size s" "arena s2 = arena s"
      "blob_ids_invalid s2 = blob_ids_invalid s" "\<And>x. x \<notin> slot_bytes b \<Longrightarrow> memory s2 x = memory s x"
      "erased s2 b"
    using free_ok [OF s1(2), of b] s1(3-6) by (metis insertI1)
  have "b \<notin> out"
    using pool_invD(4) [OF storage_invD(6) [OF inv], of "Some k" b None b] b(1) by auto
  then have inv2: "storage_inv s2 out" using s2(2) by simp
  have view2: "tab_view (tab s2) = (tab_view (tab s))(k := None)" using s1(7) s2(3) by simp
  have bl: "blocks_of s2 (set ks') = blocks_of s (set ks')" "blocks_of s (set ks) = insert b (blocks_of s (set ks'))"
    using view2 ks(1,4) b(1) by (auto simp: blocks_of_def)
  have pub: "\<forall>k'\<in>set ks'. \<exists>b v. tab_view (tab s2) k' = Some (b, v) \<and> v \<noteq> VALID_UNTIL_NOT_PUBLISHED"
  proof
    fix k' assume "k' \<in> set ks'"
    moreover from this have "k' \<noteq> k" using ks(4) by blast
    ultimately show "\<exists>b v. tab_view (tab s2) k' = Some (b, v) \<and> v \<noteq> VALID_UNTIL_NOT_PUBLISHED"
      using Cons.prems(5) ks(1) view2 by simp
  qed
  have idx: "\<forall>i\<in>set rest. i < unat (htable_size s2)" "map (\<lambda>i. blob_ids_invalid s2 ! i) rest = ks'"
    using Cons.prems(2) ks(3) s2(4,6) by simp_all
  obtain s' where s': "storage_rip rest s2 = Some s'" "storage_inv s' out"
      "tab_view (tab s') = (\<lambda>k. if k \<in> set ks' then None else tab_view (tab s2) k)"
      "\<And>x. x \<notin> (\<Union>b\<in>blocks_of s (set ks'). slot_bytes b) \<Longrightarrow> memory s' x = memory s2 x"
      "\<And>b. b \<in> blocks_of s (set ks') \<Longrightarrow> erased s' b" "htable_size s' = htable_size s2"
      "blob_ids_invalid s' = blob_ids_invalid s2" "arena s' = arena s2"
    using Cons.IH [OF inv2 idx ks(5) pub] unfolding bl by blast
  have er: "erased s' b"
    using s2(8) extent_slot [OF pool_invD(2) [OF storage_invD(6) [OF inv] bH]]
      blocks_of_disjoint [OF inv ks(4) b(1)] s'(4) by (rule erased_frame)
  have "storage_rip (i # rest) s = Some s'"
    using i storage_invD(4) [OF inv] ks(2) s1(1) s2(1) s'(1) slot(4,5) by simp
  moreover have "tab_view (tab s') = (\<lambda>k. if k \<in> set ks then None else tab_view (tab s) k)"
    using s'(3) view2 ks(1) by auto
  moreover have "memory s' x = memory s x" if "x \<notin> (\<Union>b\<in>blocks_of s (set ks). slot_bytes b)" for x
    using that s'(4) [of x] s2(7) [of x] unfolding bl(2) by simp
  moreover have "\<forall>b\<in>blocks_of s (set ks). erased s' b" unfolding bl(2) using s'(5) er by simp
  ultimately show ?case using s'(2,6-8) s2(4-6) by (intro exI [of _ s']) simp
qed


section \<open>The reaper\<close>

definition expired :: "storage \<Rightarrow> u32 \<Rightarrow> htable_key_t set" where
  "expired s now = {k. \<exists>b v. tab_view (tab s) k = Some (b, v) \<and> v < now}"

lemma expired_ids_ok:
  fixes now :: u32
  assumes inv: "storage_inv s out"
  defines "ks \<equiv> expired_ids (tab s) now [0..<unat (htable_size s)]"
  shows "set ks = expired s now" "distinct ks"
proof -
  note d = storage_invD [OF inv] and t = tab_invD [OF storage_invD(1) [OF inv]]
  let ?n = "unat (htable_size s)"
  have occ: "occ (blob_ids (tab s)) i" if "i < ?n" "blob_valid_until (tab s) ! i < now" for i
  proof (rule ccontr)
    assume "\<not> ?thesis"
    then have "VALID_UNTIL_EMPTY < now" using d(3) that by (simp add: free_times_empty_def)
    then show False
      using unsigned_less [of now, where 'a = nat] by (simp add: VALID_UNTIL_EMPTY_def word_less_nat_alt)
  qed
  show "set ks = expired s now"
    unfolding ks_def expired_ids_def expired_def
    using occ tab_view_ex [OF d(1)] by fastforce
  show "distinct ks"
    unfolding ks_def expired_ids_def
    using t(4,5) occ by (auto simp: distinct_map inj_on_def distinct_keys_def)
qed

text \<open>
  At every time but the last one the clock can show, the reaper removes exactly the expired
  blobs, erases their bytes and gives their blocks back. (At that last time a blob that is not
  published yet would count as expired.)
\<close>

lemma reaper_ok:
  assumes inv: "storage_inv s out" and now: "now \<noteq> VALID_UNTIL_EMPTY"
  obtains s' where "storage_reaper s now = Some s'" "storage_inv s' out"
    "tab_view (tab s') = (\<lambda>k. if k \<in> expired s now then None else tab_view (tab s) k)"
    "\<And>x. x \<notin> (\<Union>b\<in>blocks_of s (expired s now). slot_bytes b) \<Longrightarrow> memory s' x = memory s x"
    "\<And>b. b \<in> blocks_of s (expired s now) \<Longrightarrow> erased s' b" "htable_size s' = htable_size s"
    "arena s' = arena s"
proof -
  note d = storage_invD [OF inv]
  let ?n = "unat (htable_size s)"
  define ks where "ks = expired_ids (tab s) now [0..<?n]"
  note ks = expired_ids_ok [OF inv, of now, folded ks_def]
  obtain invalid c where g: "reaper_gather [0..<?n] now s =
        Some (s\<lparr>blob_ids_invalid := invalid, blob_ids_invalid_count := c\<rparr>)"
      "length invalid = ?n" "unat c = length ks" "take (unat c) invalid = ks"
    using reaper_gather_ok [of s ?n "[0..<?n]" "[]" now] d(4,5) tab_lengths [OF inv]
      unsigned_less [of "htable_size s", where 'a = nat] by (auto simp: ks_def)
  define s1 where "s1 = s\<lparr>blob_ids_invalid := invalid\<rparr>"
  have inv1: "storage_inv s1 out" using d g(2) by (simp add: storage_inv_def s1_def arena_def)
  have c_le: "unat c \<le> ?n" using arg_cong [OF g(4), of length] g(2,3) by simp
  have idx: "map (\<lambda>i. blob_ids_invalid s1 ! i) [0..<unat c] = ks"
  proof (rule nth_equalityI)
    fix i assume i: "i < length (map (\<lambda>i. blob_ids_invalid s1 ! i) [0..<unat c])"
    then have "ks ! i = invalid ! i" unfolding g(4) [symmetric] by simp
    then show "map (\<lambda>i. blob_ids_invalid s1 ! i) [0..<unat c] ! i = ks ! i"
      using i by (simp add: s1_def)
  qed (simp add: g(3))
  have pub: "\<forall>k\<in>set ks. \<exists>b v. tab_view (tab s1) k = Some (b, v) \<and> v \<noteq> VALID_UNTIL_NOT_PUBLISHED"
  proof
    fix k assume "k \<in> set ks"
    then obtain b v where "tab_view (tab s) k = Some (b, v)" "v < now"
      using ks(1) by (auto simp: expired_def)
    moreover have "v \<noteq> VALID_UNTIL_NOT_PUBLISHED"
      using \<open>v < now\<close> now unfolding VALID_UNTIL_NOT_PUBLISHED_def VALID_UNTIL_EMPTY_def
      by unat_arith simp
    ultimately show "\<exists>b v. tab_view (tab s1) k = Some (b, v) \<and> v \<noteq> VALID_UNTIL_NOT_PUBLISHED"
      by (simp add: s1_def)
  qed
  have bl: "blocks_of s1 (expired s now) = blocks_of s (expired s now)"
    by (simp add: blocks_of_def s1_def)
  obtain s2 where s2: "storage_rip [0..<unat c] s1 = Some s2" "storage_inv s2 out"
      "tab_view (tab s2) = (\<lambda>k. if k \<in> expired s now then None else tab_view (tab s) k)"
      "\<And>x. x \<notin> (\<Union>b\<in>blocks_of s (expired s now). slot_bytes b) \<Longrightarrow> memory s2 x = memory s x"
      "\<And>b. b \<in> blocks_of s (expired s now) \<Longrightarrow> erased s2 b"
      "htable_size s2 = htable_size s" "blob_ids_invalid s2 = invalid" "arena s2 = arena s"
  proof -
    have i: "\<forall>i\<in>set [0..<unat c]. i < unat (htable_size s1)" using c_le by (simp add: s1_def)
    have s1: "tab s1 = tab s" "memory s1 = memory s" "htable_size s1 = htable_size s"
        "blob_ids_invalid s1 = invalid" "arena s1 = arena s"
      by (simp_all add: s1_def arena_def)
    show ?thesis
      using rip_ok [OF inv1 i idx ks(2) pub, unfolded ks(1) s1 bl] that by blast
  qed
  define s' where "s' = s2\<lparr>blob_ids_invalid := replicate (unat c) null_key @ drop (unat c) invalid,
    blob_ids_invalid_count := 0\<rparr>"
  have "s\<lparr>blob_ids_invalid := invalid, blob_ids_invalid_count := c\<rparr> = s1\<lparr>blob_ids_invalid_count := c\<rparr>"
    by (simp add: s1_def)
  then have "storage_reaper s now = Some s'"
    using g(1,2) c_le s2(1,7) by (simp add: storage_reaper_def rip_invalid Let_def s'_def)
  moreover have "storage_inv s' out"
    using storage_invD [OF s2(2)] c_le g(2) s2(6,7) by (simp add: storage_inv_def s'_def arena_def)
  ultimately show ?thesis
    using that [of s'] s2 by (simp add: s'_def erased_def arena_def)
qed

end
