(* ===== verification/Storage_Life.thy ===== *)
theory Storage_Life
  imports Reaper
begin

text \<open>
  The beginning and the end of the store: \<^verbatim>\<open>storage_init\<close> lays out one allocation and gives a
  store that satisfies the invariant and holds nothing, \<^verbatim>\<open>storage_zero\<close> leaves no byte of it.
  Between the two, the owner of a block writes it.
\<close>

section \<open>Initialisation\<close>

lemma bfootprint_eq: "bfootprint = 184549728" "bfootprint - buckets_byte_size = 184549376"
  by (simp_all add: bfootprint_def buckets_byte_size_def balloc_consts bbucket_capacity_def
      bbucket_item_size_max_def upt_rec Let_def)

lemma arena_bytes: "unat (bfootprint - buckets_byte_size) = arena_size"
  by (simp add: bfootprint_eq(2) arena_size_def)

lemma lp_inv_empty: "0 < n \<Longrightarrow> lp_inv hash (replicate n null_key)"
  by (auto simp: lp_inv_def distinct_keys_def chain_def cut_at_def occ_def intro: exI [of _ 0])

lemma tab_empty:
  assumes "pow2_size n" "length vs = unat n"
  defines "t \<equiv> \<lparr>blob_ids = replicate (unat n) null_key, blob_data = replicate (unat n) null_blk,
    blob_valid_until = vs\<rparr>"
  shows "tab_inv hash n t" "tab_view t = Map.empty" "tab_used t = 0"
proof -
  show inv: "tab_inv hash n t"
    using assms(1,2) lp_inv_empty [OF pow2_size_pos [OF assms(1)]]
    by (simp add: tab_inv_def htab_len_def t_def)
  show "tab_used t = 0" by (simp add: tab_used_def t_def)
  show "tab_view t = Map.empty"
  proof (intro ext option_eqI)
    fix k e
    show "tab_view t k = Some e \<longleftrightarrow> None = Some e"
      unfolding tab_view_ex [OF inv] by (auto simp: t_def occ_def)
  qed
qed

lemma init_valid_until_ok:
  "length vs < 2 ^ 64 \<Longrightarrow> j \<le> length vs \<Longrightarrow>
   init_valid_until [j..<length vs] vs =
     Some (take j vs @ replicate (length vs - j) VALID_UNTIL_EMPTY)"
proof (induction "length vs - j" arbitrary: j vs)
  case (Suc d)
  then have j: "j < length vs" "unat (of_nat j :: u64) = j" by (simp_all add: unat_of_nat_small)
  let ?vs = "vs[j := VALID_UNTIL_EMPTY]"
  have "init_valid_until [Suc j..<length ?vs] ?vs =
      Some (take (Suc j) ?vs @ replicate (length ?vs - Suc j) VALID_UNTIL_EMPTY)"
    using Suc.hyps(2) Suc.prems j by (intro Suc.hyps(1)) auto
  then have "init_valid_until [j..<length vs] vs =
      Some (take (Suc j) ?vs @ replicate (length vs - Suc j) VALID_UNTIL_EMPTY)"
    using j by (simp add: upt_conv_Cons)
  also have "take (Suc j) ?vs = take j vs @ [VALID_UNTIL_EMPTY]"
    using j(1) by (rule take_write) simp
  also have "(take j vs @ [VALID_UNTIL_EMPTY]) @ replicate (length vs - Suc j) VALID_UNTIL_EMPTY =
      take j vs @ replicate (length vs - j) VALID_UNTIL_EMPTY"
    using j(1) by (simp add: Suc_diff_Suc flip: replicate_Suc)
  finally show ?case .
qed simp

text \<open>
  What \<^verbatim>\<open>posix_memalign\<close> promises: a block of \<^verbatim>\<open>size_total\<close> bytes that is not at address 0 and lies
  within the address space.
\<close>

definition allocated_ok :: "addr \<Rightarrow> u64 \<Rightarrow> bool" where
  "allocated_ok p n \<longleftrightarrow> 0 < p \<and> p + 52 * unat n + unat bfootprint < 2 ^ 64"

lemma unat_parts:
  assumes "allocated_ok p n"
  shows "unat (16 * n + 16 * n + 4 * n + 16 * n) = 52 * unat n"
    "unat (storage_size_total n) = 52 * unat n + unat bfootprint"
proof -
  have le: "52 * unat n + unat bfootprint < 2 ^ 64" using assms by (simp add: allocated_ok_def)
  have eq: "16 * n + 16 * n + 4 * n + 16 * n = of_nat (52 * unat n)" by simp
  show a: "unat (16 * n + 16 * n + 4 * n + 16 * n) = 52 * unat n"
    unfolding eq using le by (intro unat_of_nat_small) simp
  have "storage_size_total n = of_nat (52 * unat n + unat bfootprint)"
    by (simp add: storage_size_total_def)
  then show "unat (storage_size_total n) = 52 * unat n + unat bfootprint"
    using le unat_of_nat_small by presburger
qed

lemma init_ok:
  assumes n: "pow2_size n" and p: "allocated_ok p n"
  obtains s where "storage_init (Some p) True n = Some (Inr s)" "storage_inv s {}"
    "tab_view (tab s) = Map.empty" "htable_size s = n" "htable_free s = n"
    "arena s = p + 52 * unat n"
    "mallocated_data s = \<lparr>blk_data = p, blk_size = storage_size_total n\<rparr>"
    "dom (memory s) = bytes (arena s) arena_size"
    "\<And>i. i < 11 \<Longrightarrow> bucket_list (balloc_data s) (memory s) i = all_slots (arena s) i"
proof -
  let ?a = "p + 52 * unat n"
  define m where "m = (\<lambda>x. if ?a \<le> x \<and> x < ?a + arena_size then Some (0 :: u8) else None)"
  have fp: "unat bfootprint = 352 + arena_size" by (simp add: bfootprint_eq(1) arena_size_def)
  have a: "0 < ?a" "?a + arena_size < 2 ^ 64" "dom m = bytes ?a arena_size"
    using p fp by (auto simp: allocated_ok_def m_def dom_def)
  obtain ba m' where b: "binit m ?a = Some (ba, m')" "balloc_inv ?a ba m'" "dom m' = dom m"
      "\<And>i. i < 11 \<Longrightarrow> bucket_list ba m' i = all_slots ?a i"
    using binit_ok [OF a(1,2), of m] a(3) by blast
  have "pool_inv ?a ba m' {}"
    using b(2,4) by (intro pool_invI) (auto simp: live_def all_slots(1))
  define vs where "vs = replicate (unat n) VALID_UNTIL_EMPTY"
  have vs: "init_valid_until [0..<unat n] (replicate (unat n) 0) = Some vs"
    using init_valid_until_ok [of "replicate (unat n) 0" 0] unsigned_less [of n, where 'a = nat]
    by (simp add: vs_def)
  note t = tab_empty [OF n, of vs]
  define s where "s = \<lparr>tab = \<lparr>blob_ids = replicate (unat n) null_key, blob_data = replicate (unat n) null_blk,
        blob_valid_until = vs\<rparr>, htable_free = n, htable_size = n,
      blob_ids_invalid = replicate (unat n) null_key, blob_ids_invalid_count = 0,
      mallocated_data = \<lparr>blk_data = p, blk_size = storage_size_total n\<rparr>, balloc_data = ba, memory = m'\<rparr>"
  have ar: "arena s = ?a" by (simp add: arena_def s_def)
  have "storage_init (Some p) True n = Some (Inr s)"
    unfolding storage_init_def option.case unat_parts(1) [OF p] arena_bytes Let_def m_def [symmetric]
    using vs b(1) by (simp add: s_def)
  moreover have "holders Map.empty {} = {}" by (simp add: holders_def)
  then have "storage_inv s {}"
    using t \<open>pool_inv ?a ba m' {}\<close> unfolding storage_inv_def ar
    by (simp add: s_def vs_def free_times_empty_def)
  ultimately show ?thesis
    using that [of s] t(2) b a(3) ar by (simp add: s_def vs_def)
qed


section \<open>Writing a blob\<close>

text \<open>
  The server's \<^verbatim>\<open>memcpy(ctx->blk.data + ctx->size_current, upload_data, upload_data_size)\<close>.
\<close>

definition blob_write :: "storage \<Rightarrow> blk_t \<Rightarrow> nat \<Rightarrow> u8 list \<Rightarrow> storage option" where
  "blob_write s b off bs = do {
     m \<leftarrow> store_bytes (memory s) (blk_data b + off) bs;
     Some (s\<lparr>memory := m\<rparr>) }"

lemma blob_write_ok:
  assumes inv: "storage_inv s out" and b: "(o', b) \<in> holders (tab_view (tab s)) out"
    and fits: "off + length bs \<le> unat (blk_size b)"
  obtains s' where "blob_write s b off bs = Some s'" "storage_inv s' out" "tab s' = tab s"
    "s' = s\<lparr>memory := memory s'\<rparr>"
    "\<And>x. x \<notin> slot_bytes b \<Longrightarrow> memory s' x = memory s x"
    "\<And>x. memory s' x = (if x \<in> bytes (blk_data b + off) (length bs)
        then Some (bs ! (x - (blk_data b + off))) else memory s x)"
proof -
  note d = storage_invD [OF inv]
  let ?a = "blk_data b + off"
  have "bytes ?a (length bs) \<subseteq> extent b" using fits by (auto simp: extent_def)
  then have sub: "bytes ?a (length bs) \<subseteq> slot_bytes b"
    using extent_slot [OF pool_invD(2) [OF d(6) b]] by blast
  then have dom: "bytes ?a (length bs) \<subseteq> dom (memory s)" using pool_slot(3) [OF d(6) b] by blast
  define m where "m = (\<lambda>x. if x \<in> bytes ?a (length bs) then Some (bs ! (x - ?a)) else memory s x)"
  have st: "store_bytes (memory s) ?a bs = Some m" using store_bytes_eq [OF dom] by (simp add: m_def)
  have out: "m x = memory s x" if "x \<notin> slot_bytes b" for x
    using sub that by (auto simp: m_def)
  let ?s = "s\<lparr>memory := m\<rparr>"
  have "storage_inv ?s out"
    using d pool_write [OF d(6) b store_bytes_dom [OF st] out]
    by (simp add: storage_inv_def arena_def)
  then show ?thesis
    using that [of ?s] st out by (simp add: blob_write_def) (simp add: m_def)
qed


section \<open>The end\<close>

lemma zero_ok:
  assumes inv: "storage_inv s out"
  obtains s' where "storage_zero s = Some (of_nat (tab_used (tab s)), s')"
    "\<And>x. x \<in> bytes (arena s) arena_size \<Longrightarrow> memory s' x = Some 0"
    "\<forall>k\<in>set (blob_ids (tab s')). k = null_key" "\<forall>b\<in>set (blob_data (tab s')). b = null_blk"
    "\<forall>k\<in>set (blob_ids_invalid s'). k = null_key" "\<forall>v\<in>set (blob_valid_until (tab s')). v = 0"
proof -
  note d = storage_invD [OF inv]
  have dom: "bytes (arena s) arena_size \<subseteq> dom (memory s)"
    using balloc_invD(4) [OF pool_invD(1) [OF d(6)]] .
  have "htable_size s = htable_free s + of_nat (tab_used (tab s))"
    using arg_cong [OF d(2), of "of_nat :: nat \<Rightarrow> u64"] by simp
  then have "htable_size s - htable_free s = of_nat (tab_used (tab s))" by simp
  then show ?thesis
    using secure_zero_Some [OF dom]
    by (intro that) (auto simp: storage_zero_def arena_bytes)
qed

end
