(* ===== verification/Blob_Store.thy ===== *)
theory Blob_Store
  imports Storage_Life
begin

text \<open>
  The contract of the blob store, free of tables, slots and free lists: a map from ids to
  contents and expiry times, and blocks that are out with a reader. The operations of
  \<^verbatim>\<open>storage.c\<close> fulfil it; what a client can rely on is proved from the contract alone.
\<close>

section \<open>The contract\<close>

text \<open>\<open>splice c off bs\<close>: the bytes \<open>c\<close> with those from \<open>off\<close> on replaced by \<open>bs\<close>.\<close>

definition splice :: "'a list \<Rightarrow> nat \<Rightarrow> 'a list \<Rightarrow> 'a list" where
  "splice c off bs = take off c @ bs @ drop (off + length bs) c"

lemma splice_length: "off + length bs \<le> length c \<Longrightarrow> length (splice c off bs) = length c"
  by (simp add: splice_def)

lemma splice_all: "length bs = length c \<Longrightarrow> splice c 0 bs = bs"
  by (simp add: splice_def)

lemma splice_take: "off + length bs \<le> length c \<Longrightarrow> take (off + length bs) (splice c off bs) = take off c @ bs"
  by (simp add: splice_def)

lemma splice_append:
  assumes "off + length as + length bs \<le> length c"
  shows "splice (splice c off as) (off + length as) bs = splice c off (as @ bs)"
  using assms by (simp add: splice_def ac_simps)

lemma splice_nth:
  assumes "off + length bs \<le> length c" "i < length c"
  shows "splice c off bs ! i = (if off \<le> i \<and> i < off + length bs then bs ! (i - off) else c ! i)"
  using assms by (auto simp: splice_def nth_append)

definition live_at :: "'t :: linorder \<Rightarrow> ('k \<Rightarrow> ('c \<times> 't) option) \<Rightarrow> 'k \<Rightarrow> ('c \<times> 't) option" where
  "live_at now V k = (case V k of
     None \<Rightarrow> None
   | Some (c, t) \<Rightarrow> if t < now then None else Some (c, t))"

text \<open>
  \<open>inv s out\<close>: the store is in state \<open>s\<close> and the blocks \<open>out\<close> are with readers; \<open>view s\<close> is
  the map, \<open>owned s k\<close> the block the creator of \<open>k\<close> writes to, \<open>text_of s b\<close> the bytes of a block.
\<close>

locale blob_store =
  fixes inv :: "'s \<Rightarrow> 'b set \<Rightarrow> bool"
    and view :: "'s \<Rightarrow> 'k \<Rightarrow> ('c list \<times> 't :: linorder) option"
    and owned :: "'s \<Rightarrow> 'k \<Rightarrow> 'b option"
    and text_of :: "'s \<Rightarrow> 'b \<Rightarrow> 'c list option"
    and gone :: "'s \<Rightarrow> 'b \<Rightarrow> bool"
    and null :: 'b
    and unpublished :: 't
    and last_time :: 't
    and valid_key :: "'k \<Rightarrow> bool"
    and valid_size :: "nat \<Rightarrow> bool"
    and create :: "'s \<Rightarrow> 'k \<Rightarrow> nat \<Rightarrow> ('b \<times> 's) option"
    and fill :: "'s \<Rightarrow> 'b \<Rightarrow> nat \<Rightarrow> 'c list \<Rightarrow> 's option"
    and publish :: "'s \<Rightarrow> 'k \<Rightarrow> 't \<Rightarrow> (bool \<times> 's) option"
    and abort :: "'s \<Rightarrow> 'k \<Rightarrow> 's option"
    and fetch :: "'s \<Rightarrow> 'k \<Rightarrow> ('b \<times> 's) option"
    and release :: "'s \<Rightarrow> 'b \<Rightarrow> 's option"
    and reap :: "'s \<Rightarrow> 't \<Rightarrow> 's option"
  assumes create_law: "inv s out \<Longrightarrow> valid_key k \<Longrightarrow> view s k = None \<Longrightarrow> valid_size n \<Longrightarrow>
      create s k n = Some (null, s) \<or>
      (\<exists>b s' c. create s k n = Some (b, s') \<and> b \<noteq> null \<and> inv s' out \<and> owned s' k = Some b \<and>
         length c = n \<and> view s' = (view s)(k \<mapsto> (c, unpublished)) \<and>
         (\<forall>b'\<in>out. text_of s' b' = text_of s b'))"
    and fill_law: "inv s out \<Longrightarrow> owned s k = Some b \<Longrightarrow> view s k = Some (c, t) \<Longrightarrow>
      off + length bs \<le> length c \<Longrightarrow>
      \<exists>s'. fill s b off bs = Some s' \<and> inv s' out \<and> owned s' = owned s \<and>
        view s' = (view s)(k \<mapsto> (splice c off bs, t)) \<and> (\<forall>b'\<in>out. text_of s' b' = text_of s b')"
    and publish_law: "inv s out \<Longrightarrow>
      \<exists>s'. publish s k t = Some (k \<in> dom (view s), s') \<and> inv s' out \<and>
        view s' = (\<lambda>k'. if k' = k then map_option (\<lambda>(c, _). (c, t)) (view s k) else view s k') \<and>
        (\<forall>b'\<in>out. text_of s' b' = text_of s b')"
    and abort_law: "inv s out \<Longrightarrow>
      \<exists>s'. abort s k = Some s' \<and> inv s' out \<and> view s' = (view s)(k := None) \<and>
        (\<forall>b. owned s k = Some b \<longrightarrow> gone s' b) \<and> (\<forall>b'\<in>out. text_of s' b' = text_of s b')"
    and fetch_none: "inv s out \<Longrightarrow> view s k = None \<or> (\<exists>c. view s k = Some (c, unpublished)) \<Longrightarrow>
      fetch s k = Some (null, s)"
    and fetch_some: "inv s out \<Longrightarrow> view s k = Some (c, t) \<Longrightarrow> t \<noteq> unpublished \<Longrightarrow>
      \<exists>b s'. fetch s k = Some (b, s') \<and> b \<noteq> null \<and> b \<notin> out \<and> inv s' (insert b out) \<and>
        text_of s' b = Some c \<and> view s' = (view s)(k := None) \<and>
        (\<forall>b'\<in>out. text_of s' b' = text_of s b')"
    and release_law: "inv s out \<Longrightarrow> b \<in> out \<Longrightarrow>
      \<exists>s'. release s b = Some s' \<and> inv s' (out - {b}) \<and> view s' = view s \<and> gone s' b \<and>
        (\<forall>b'\<in>out - {b}. text_of s' b' = text_of s b')"
    and reap_law: "inv s out \<Longrightarrow> now \<noteq> last_time \<Longrightarrow>
      \<exists>s'. reap s now = Some s' \<and> inv s' out \<and> view s' = live_at now (view s) \<and>
        (\<forall>b'\<in>out. text_of s' b' = text_of s b')"
begin

text \<open>A secret is read at most once: a second reader gets nothing, whatever happened to the block.\<close>

lemma fetch_once:
  assumes "inv s out" "fetch s k = Some (b, s')"
  shows "fetch s' k = Some (null, s')"
proof (cases "view s k = None \<or> (\<exists>c. view s k = Some (c, unpublished))")
  case True
  then show ?thesis using fetch_none [OF assms(1)] assms(2) by simp
next
  case False
  then obtain c t where v: "view s k = Some (c, t)" "t \<noteq> unpublished" by (cases "view s k") auto
  then have "inv s' (insert b out)" "view s' k = None"
    using fetch_some [OF assms(1) v] assms(2) by auto
  then show ?thesis using fetch_none by blast
qed

text \<open>What was written is what the reader gets, if the reader comes before the expiry time.\<close>

lemma deposit_collect:
  assumes inv: "inv s out" and k: "valid_key k" "view s k = None" "valid_size (length secret)"
    and made: "create s k (length secret) = Some (b, s1)" "b \<noteq> null"
    and t: "t \<noteq> unpublished" "now \<le> t" "now \<noteq> last_time"
  shows "\<exists>s2 s3 s4 b' s5 s6. fill s1 b 0 secret = Some s2 \<and> publish s2 k t = Some (True, s3) \<and>
    reap s3 now = Some s4 \<and> fetch s4 k = Some (b', s5) \<and> text_of s5 b' = Some secret \<and>
    release s5 b' = Some s6 \<and> gone s6 b' \<and> inv s6 out \<and> fetch s6 k = Some (null, s6)"
proof -
  obtain c where s1: "inv s1 out" "owned s1 k = Some b" "length c = length secret"
      "view s1 = (view s)(k \<mapsto> (c, unpublished))"
    using create_law [OF inv k] made by auto
  obtain s2 where s2: "fill s1 b 0 secret = Some s2" "inv s2 out" "view s2 k = Some (secret, unpublished)"
    using fill_law [OF s1(1,2), of c unpublished 0 secret] s1(3,4) splice_all [of secret c] by auto
  obtain s3 where s3: "publish s2 k t = Some (True, s3)" "inv s3 out" "view s3 k = Some (secret, t)"
    using publish_law [OF s2(2), of k t] s2(3) by (auto simp: dom_def)
  obtain s4 where s4: "reap s3 now = Some s4" "inv s4 out" "view s4 k = Some (secret, t)"
    using reap_law [OF s3(2) t(3)] s3(3) t(2) by (auto simp: live_at_def)
  obtain b' s5 where s5: "fetch s4 k = Some (b', s5)" "b' \<notin> out" "inv s5 (insert b' out)"
      "text_of s5 b' = Some secret" "view s5 k = None"
    using fetch_some [OF s4(2,3) t(1)] by auto
  obtain s6 where s6: "release s5 b' = Some s6" "inv s6 (insert b' out - {b'})" "view s6 = view s5"
      "gone s6 b'"
    using release_law [OF s5(3), of b'] by auto
  have "inv s6 out" using s6(2) s5(2) by simp
  then show ?thesis using s2(1) s3(1) s4(1) s5 s6 fetch_none [of s6 out k] by auto
qed

text \<open>A blob whose creator has not published it, or has given it up, cannot be read.\<close>

lemma unpublished_unreadable:
  assumes "inv s out" "valid_key k" "view s k = None" "valid_size n" "create s k n = Some (b, s')"
  shows "fetch s' k = Some (null, s')"
  using create_law [OF assms(1-4)] assms(5) fetch_none assms(1,3) by auto

lemma aborted_unreadable:
  assumes "inv s out" "abort s k = Some s'"
  shows "fetch s' k = Some (null, s')" "owned s k = Some b \<Longrightarrow> gone s' b"
  using abort_law [OF assms(1), of k] assms(2) fetch_none by auto

text \<open>After the expiry time the reaper has made it unreadable.\<close>

lemma expired_unreadable:
  assumes "inv s out" "view s k = Some (c, t)" "t < now" "now \<noteq> last_time" "reap s now = Some s'"
  shows "fetch s' k = Some (null, s')"
  using reap_law [OF assms(1,4)] assms(2,3,5) fetch_none by (auto simp: live_at_def)

end


section \<open>\<^verbatim>\<open>storage.c\<close> read as a map\<close>

text \<open>The contents of the blobs that an operation does not touch.\<close>

lemma blob_at_cong:
  assumes "tab_view (tab s') k = tab_view (tab s) k"
    and "\<And>b v. tab_view (tab s) k = Some (b, v) \<Longrightarrow> contents s' b = contents s b"
  shows "blob_at s' k = blob_at s k"
  using assms by (auto simp: blob_at_def split: option.splits)

lemma contents_same: "memory s' = memory s \<Longrightarrow> contents s' b = contents s b"
  by (simp add: contents_def)

lemma blob_at_untouched:
  assumes inv: "storage_inv s out" and o': "(o', b) \<in> holders (tab_view (tab s)) out" "Some k \<noteq> o'"
    and view: "tab_view (tab s') k = tab_view (tab s) k"
    and m: "\<And>x. x \<notin> slot_bytes b \<Longrightarrow> memory s' x = memory s x"
  shows "blob_at s' k = blob_at s k"
  using view
proof (rule blob_at_cong)
  fix b' v assume "tab_view (tab s) k = Some (b', v)"
  then show "contents s' b' = contents s b'"
    using contents_other [OF inv o'(1), of "Some k" b' s'] m o'(2) by auto
qed

lemma contents_out:
  assumes inv: "storage_inv s out" and o': "(o', b) \<in> holders (tab_view (tab s)) out" "(o', b) \<noteq> (None, b')"
    and b': "b' \<in> out" and m: "\<And>x. x \<notin> slot_bytes b \<Longrightarrow> memory s' x = memory s x"
  shows "contents s' b' = contents s b'"
proof (rule contents_other [OF inv o'(1) _ o'(2) m])
  show "(None, b') \<in> holders (tab_view (tab s)) out" using b' by simp
qed

definition owned_block :: "storage \<Rightarrow> htable_key_t \<Rightarrow> blk_t option" where
  "owned_block s k = map_option fst (tab_view (tab s) k)"

lemma blob_at_None: "storage_inv s out \<Longrightarrow> blob_at s k = None \<longleftrightarrow> tab_view (tab s) k = None"
  using dom_blob_at [of s out] by (metis domIff)

lemma create_map:
  assumes inv: "storage_inv s out" and k: "\<not> key_is_null k" "blob_at s k = None" and sz: "size_ok sz"
    and room: "htable_free s \<noteq> 0" "bucket_list (balloc_data s) (memory s) (bucket_of sz) \<noteq> []"
  obtains b s' c where "storage_blob_create s k sz = Some (b, s')" "b \<noteq> null_blk" "blk_size b = sz"
    "storage_inv s' out" "owned_block s' k = Some b" "length c = unat sz"
    "blob_at s' = (blob_at s)(k \<mapsto> (c, VALID_UNTIL_NOT_PUBLISHED))" "memory s' = memory s"
    "htable_size s' = htable_size s" "\<And>j. j \<noteq> k \<Longrightarrow> owned_block s' j = owned_block s j"
proof -
  have v: "tab_view (tab s) k = None" using k(2) blob_at_None [OF inv] by simp
  obtain b s' where r: "storage_blob_create s k sz = Some (b, s')" "blk_size b = sz"
      "storage_inv s' out" "memory s' = memory s" "htable_size s' = htable_size s"
      "tab_view (tab s') = (tab_view (tab s))(k \<mapsto> (b, VALID_UNTIL_NOT_PUBLISHED))"
    using create_ok [OF inv k(1) v room(1) sz room(2)] by metis
  have bH: "(Some k, b) \<in> holders (tab_view (tab s')) out" using r(6) by simp
  obtain c where c: "contents s' b = Some c" "length c = unat sz"
    using contents_held [OF r(3) bH] r(2) by auto
  have "blob_at s' j = ((blob_at s)(k \<mapsto> (c, VALID_UNTIL_NOT_PUBLISHED))) j" for j
  proof (cases "j = k")
    case True
    then show ?thesis using r(6) c by (simp add: blob_at_def)
  next
    case False
    then show ?thesis using blob_at_cong [of s' j s] r(4,6) contents_same [of s' s] by simp
  qed
  then have "blob_at s' = (blob_at s)(k \<mapsto> (c, VALID_UNTIL_NOT_PUBLISHED))" by (rule ext)
  moreover have "owned_block s' k = Some b" "\<And>j. j \<noteq> k \<Longrightarrow> owned_block s' j = owned_block s j"
    using r(6) by (simp_all add: owned_block_def)
  ultimately show ?thesis
    using that r c(2) pool_slot(6) [OF storage_invD(6) [OF r(3)] bH] by blast
qed

text \<open>\<^verbatim>\<open>storage_blob_create\<close> fails exactly when the table or the bucket is full, and then does nothing.\<close>

lemma create_fails:
  assumes inv: "storage_inv s out" and k: "blob_at s k = None" and sz: "size_ok sz"
    and full: "htable_free s = 0 \<or> bucket_list (balloc_data s) (memory s) (bucket_of sz) = []"
  shows "storage_blob_create s k sz = Some (null_blk, s)"
  using full create_table_full create_no_block [OF inv _ sz] k blob_at_None [OF inv] by blast

lemma fill_map:
  assumes inv: "storage_inv s out" and o': "owned_block s k = Some b" and k: "blob_at s k = Some (c, t)"
    and fits: "off + length bs \<le> length c"
  obtains s' where "blob_write s b off bs = Some s'" "storage_inv s' out"
    "tab s' = tab s" "blob_at s' = (blob_at s)(k \<mapsto> (splice c off bs, t))"
    "\<And>b'. b' \<in> out \<Longrightarrow> contents s' b' = contents s b'" "htable_size s' = htable_size s"
proof -
  have v: "tab_view (tab s) k = Some (b, t)" and c: "contents s b = Some c"
    using o' k by (auto simp: owned_block_def blob_at_def split: option.splits)
  have bH: "(Some k, b) \<in> holders (tab_view (tab s)) out" using v by simp
  have len: "length c = unat (blk_size b)" using c by (simp add: contents_def load_bytes_length)
  obtain s' where r: "blob_write s b off bs = Some s'" "storage_inv s' out" "tab s' = tab s"
      "s' = s\<lparr>memory := memory s'\<rparr>" "\<And>x. x \<notin> slot_bytes b \<Longrightarrow> memory s' x = memory s x"
      "\<And>x. memory s' x = (if x \<in> bytes (blk_data b + off) (length bs)
        then Some (bs ! (x - (blk_data b + off))) else memory s x)"
    using blob_write_ok [OF inv bH, of off bs] fits len by metis
  have old: "memory s (blk_data b + i) = Some (c ! i)" if "i < length c" for i
    using c that len load_bytes_nth [of "memory s" "blk_data b" "length c" c i] by (simp add: contents_def)
  have "memory s' (blk_data b + i) = Some (splice c off bs ! i)" if "i < length (splice c off bs)" for i
    using that fits old [of i] by (auto simp: r(6) splice_nth splice_length)
  then have "contents s' b = Some (splice c off bs)"
    unfolding contents_def len [symmetric] splice_length [OF fits, symmetric] by (rule load_bytes_eq)
  then have "blob_at s' j = ((blob_at s)(k \<mapsto> (splice c off bs, t))) j" for j
    using v r(3) blob_at_untouched [OF inv bH, of j s'] r(5) by (cases "j = k") (auto simp: blob_at_def)
  then have "blob_at s' = (blob_at s)(k \<mapsto> (splice c off bs, t))" by (rule ext)
  moreover have "contents s' b' = contents s b'" if "b' \<in> out" for b'
    by (rule contents_out [OF inv bH _ that r(5)]) simp
  moreover have "htable_size s' = htable_size s" by (subst r(4)) simp
  ultimately show ?thesis using that r(1-3) by blast
qed

lemma publish_map:
  assumes inv: "storage_inv s out"
  obtains s' where "storage_blob_publish s k t = Some (k \<in> dom (blob_at s), s')" "storage_inv s' out"
    "blob_at s' = (\<lambda>j. if j = k then map_option (\<lambda>(c, _). (c, t)) (blob_at s k) else blob_at s j)"
    "memory s' = memory s" "owned_block s' = owned_block s" "htable_size s' = htable_size s"
proof (cases "tab_view (tab s) k")
  case None
  then have n: "blob_at s k = None" using blob_at_None [OF inv] by simp
  then have "(\<lambda>j. if j = k then map_option (\<lambda>(c, _). (c, t)) (blob_at s k) else blob_at s j) = blob_at s"
    by auto
  then show ?thesis using that [of s] publish_absent [OF inv None] inv n by (simp add: domIff)
next
  case (Some e)
  obtain b v where e: "tab_view (tab s) k = Some (b, v)" using Some by (cases e) auto
  have "blob_at s k \<noteq> None" using e blob_at_None [OF inv, of k] by simp
  then have dom: "k \<in> dom (blob_at s)" by (simp add: domIff)
  obtain s' where r: "storage_blob_publish s k t = Some (True, s')" "storage_inv s' out"
      "memory s' = memory s" "tab_view (tab s') = (tab_view (tab s))(k \<mapsto> (b, t))"
      "htable_size s' = htable_size s"
    using publish_ok [OF inv e] by metis
  have "blob_at s' j = (if j = k then map_option (\<lambda>(c, _). (c, t)) (blob_at s k) else blob_at s j)" for j
    using e r(4) contents_same [OF r(3)] blob_at_cong [of s' j s]
    by (cases "j = k") (auto simp: blob_at_def option.map_comp o_def)
  then have "blob_at s' = (\<lambda>j. if j = k then map_option (\<lambda>(c, _). (c, t)) (blob_at s k) else blob_at s j)"
    by (rule ext)
  moreover have "owned_block s' = owned_block s" using e r(4) by (auto simp: owned_block_def)
  ultimately show ?thesis using that [of s'] r(1-3,5) dom by simp
qed

lemma abort_map:
  assumes inv: "storage_inv s out"
  obtains s' where "storage_blob_abort s k = Some s'" "storage_inv s' out"
    "blob_at s' = (blob_at s)(k := None)" "\<And>b. owned_block s k = Some b \<Longrightarrow> erased s' b"
    "\<And>b'. b' \<in> out \<Longrightarrow> contents s' b' = contents s b'"
    "\<And>j. j \<noteq> k \<Longrightarrow> owned_block s' j = owned_block s j"
proof (cases "tab_view (tab s) k")
  case None
  then have "(blob_at s)(k := None) = blob_at s" using blob_at_None [OF inv, of k] by (simp add: fun_upd_idem)
  then show ?thesis
    using that [of s] abort_absent [OF inv None] inv None by (simp add: owned_block_def)
next
  case (Some e)
  obtain b v where e: "tab_view (tab s) k = Some (b, v)" using Some by (cases e) auto
  have bH: "(Some k, b) \<in> holders (tab_view (tab s)) out" using e by simp
  obtain s' where r: "storage_blob_abort s k = Some s'" "storage_inv s' out"
      "tab_view (tab s') = (tab_view (tab s))(k := None)"
      "\<And>x. x \<notin> slot_bytes b \<Longrightarrow> memory s' x = memory s x" "erased s' b"
    using abort_ok [OF inv e] by metis
  have "blob_at s' j = ((blob_at s)(k := None)) j" for j
    using r(3) blob_at_untouched [OF inv bH _ _ r(4), of j] by (cases "j = k") (auto simp: blob_at_def)
  then have "blob_at s' = (blob_at s)(k := None)" by (rule ext)
  moreover have "contents s' b' = contents s b'" if "b' \<in> out" for b'
    by (rule contents_out [OF inv bH _ that r(4)]) simp
  ultimately show ?thesis using that [of s'] r e by (simp add: owned_block_def)
qed

lemma get_none_map:
  assumes inv: "storage_inv s out"
    and k: "blob_at s k = None \<or> (\<exists>c. blob_at s k = Some (c, VALID_UNTIL_NOT_PUBLISHED))"
  shows "storage_blob_get s k = Some (null_blk, s)"
proof (cases "blob_at s k")
  case None
  then show ?thesis using get_absent [OF inv] blob_at_None [OF inv] by simp
next
  case (Some e)
  then show ?thesis using get_unpublished [OF inv] k by (auto elim: blob_at_SomeE)
qed

lemma get_some_map:
  assumes inv: "storage_inv s out" and k: "blob_at s k = Some (c, t)" "t \<noteq> VALID_UNTIL_NOT_PUBLISHED"
  obtains b s' where "storage_blob_get s k = Some (b, s')" "b \<noteq> null_blk" "b \<notin> out"
    "blk_size b \<noteq> 0" "length c = unat (blk_size b)" "size_ok (blk_size b)"
    "storage_inv s' (insert b out)" "contents s' b = Some c" "blob_at s' = (blob_at s)(k := None)"
    "memory s' = memory s" "\<And>j. j \<noteq> k \<Longrightarrow> owned_block s' j = owned_block s j"
proof -
  obtain b where v: "tab_view (tab s) k = Some (b, t)" "contents s b = Some c"
    using k(1) by (rule blob_at_SomeE)
  have bH: "(Some k, b) \<in> holders (tab_view (tab s)) out" using v by simp
  obtain s' where r: "storage_blob_get s k = Some (b, s')" "storage_inv s' (insert b out)"
      "memory s' = memory s" "tab_view (tab s') = (tab_view (tab s))(k := None)"
    using get_ok [OF inv v(1) k(2)] by metis
  have "blob_at s' j = ((blob_at s)(k := None)) j" for j
    using r(4) contents_same [OF r(3)] blob_at_cong [of s' j s] by (cases "j = k") (auto simp: blob_at_def)
  then have "blob_at s' = (blob_at s)(k := None)" by (rule ext)
  moreover have "b \<notin> out" using pool_invD(4) [OF storage_invD(6) [OF inv] bH, of None b] by auto
  moreover note p = pool_slot [OF storage_invD(6) [OF inv] bH] pool_invD(2) [OF storage_invD(6) [OF inv] bH]
  moreover have "length c = unat (blk_size b)" using v(2) by (simp add: contents_def load_bytes_length)
  ultimately show ?thesis
    using that [of b s'] r v(2) contents_same [OF r(3)] by (simp add: owned_block_def)
qed

lemma free_map:
  assumes inv: "storage_inv s out" and b: "b \<in> out"
  obtains s' where "storage_blob_free s b = Some s'" "storage_inv s' (out - {b})"
    "blob_at s' = blob_at s" "erased s' b" "\<And>b'. b' \<in> out - {b} \<Longrightarrow> contents s' b' = contents s b'"
    "owned_block s' = owned_block s"
proof -
  obtain s' where r: "storage_blob_free s b = Some s'" "storage_inv s' (out - {b})" "tab s' = tab s"
      "\<And>x. x \<notin> slot_bytes b \<Longrightarrow> memory s' x = memory s x" "erased s' b"
    using free_ok [OF assms] by metis
  have bH: "(None, b) \<in> holders (tab_view (tab s)) out" using b by simp
  have "blob_at s' j = blob_at s j" for j
    by (rule blob_at_untouched [OF inv bH _ _ r(4)]) (simp_all add: r(3))
  moreover have "contents s' b' = contents s b'" if "b' \<in> out - {b}" for b'
    by (rule contents_out [OF inv bH _ _ r(4)]) (use that in auto)
  ultimately show ?thesis using that [of s'] r by (simp add: fun_eq_iff owned_block_def)
qed

lemma reap_map:
  assumes inv: "storage_inv s out" and now: "now \<noteq> VALID_UNTIL_EMPTY"
  obtains s' where "storage_reaper s now = Some s'" "storage_inv s' out"
    "blob_at s' = live_at now (blob_at s)" "\<And>b'. b' \<in> out \<Longrightarrow> contents s' b' = contents s b'"
    "\<And>k c t b. blob_at s k = Some (c, t) \<Longrightarrow> t < now \<Longrightarrow> owned_block s k = Some b \<Longrightarrow> erased s' b"
    "\<And>k. blob_at s' k \<noteq> None \<Longrightarrow> owned_block s' k = owned_block s k"
proof -
  note p = storage_invD(6) [OF inv]
  obtain s' where r: "storage_reaper s now = Some s'" "storage_inv s' out"
      "tab_view (tab s') = (\<lambda>k. if k \<in> expired s now then None else tab_view (tab s) k)"
      "\<And>x. x \<notin> (\<Union>b\<in>blocks_of s (expired s now). slot_bytes b) \<Longrightarrow> memory s' x = memory s x"
      "\<And>b. b \<in> blocks_of s (expired s now) \<Longrightarrow> erased s' b"
    by (rule reaper_ok [OF assms]) (rule that)
  have keep: "contents s' b = contents s b"
    if b: "(o', b) \<in> holders (tab_view (tab s)) out" "\<forall>k\<in>expired s now. o' \<noteq> Some k" for o' b
  proof (rule contents_cong)
    fix x assume "x \<in> extent b"
    then have "x \<in> slot_bytes b" using extent_slot pool_invD(2) [OF p b(1)] by blast
    moreover have "slot_bytes b \<inter> slot_bytes b' = {}" if b': "b' \<in> blocks_of s (expired s now)" for b'
    proof -
      obtain k v where k: "k \<in> expired s now" "tab_view (tab s) k = Some (b', v)"
        using b' unfolding blocks_of_def by blast
      then have "(Some k, b') \<in> holders (tab_view (tab s)) out" "(o', b) \<noteq> (Some k, b')"
        using b(2) by auto
      then show ?thesis by (rule pool_disjoint [OF p b(1)])
    qed
    ultimately show "memory s' x = memory s x" by (intro r(4)) blast
  qed
  have "blob_at s' k = live_at now (blob_at s) k" for k
  proof (cases "k \<in> expired s now")
    case True
    then have "blob_at s' k = None" using r(3) by (simp add: blob_at_def)
    then show ?thesis
      using True by (auto simp: live_at_def expired_def blob_at_def split: option.splits)
  next
    case False
    then have "blob_at s' k = blob_at s k"
      using r(3) keep [of "Some k"] by (intro blob_at_cong) auto
    then show ?thesis
      using False by (auto simp: live_at_def expired_def blob_at_def split: option.splits)
  qed
  then have "blob_at s' = live_at now (blob_at s)" by (rule ext)
  moreover have "contents s' b' = contents s b'" if "b' \<in> out" for b' using keep [of None] that by simp
  moreover have "erased s' b" if "blob_at s k = Some (c, t)" "t < now" "owned_block s k = Some b" for k c t b
    using that by (intro r(5)) (auto simp: blocks_of_def expired_def owned_block_def elim!: blob_at_SomeE)
  moreover have "owned_block s' k = owned_block s k" if "blob_at s' k \<noteq> None" for k
    using that blob_at_None [OF r(2), of k] r(3) by (auto simp: owned_block_def)
  ultimately show ?thesis using that r(1,2) by blast
qed


section \<open>\<^verbatim>\<open>storage.c\<close> fulfils the contract\<close>

interpretation st: blob_store storage_inv blob_at owned_block contents erased null_blk
  VALID_UNTIL_NOT_PUBLISHED VALID_UNTIL_EMPTY "\<lambda>k. \<not> key_is_null k" "\<lambda>n. 2 \<le> n \<and> n \<le> 2 ^ 17"
  "\<lambda>s k n. storage_blob_create s k (of_nat n)" blob_write storage_blob_publish storage_blob_abort
  storage_blob_get storage_blob_free storage_reaper
proof (unfold_locales, goal_cases)
  case (1 s out k n)
  have n: "unat (of_nat n :: u64) = n" using 1(4) by (intro unat_of_nat_small) simp
  then have sz: "size_ok (of_nat n)" using 1(4) by (simp add: size_ok_def)
  show ?case
  proof (cases "htable_free s = 0 \<or> bucket_list (balloc_data s) (memory s) (bucket_of (of_nat n)) = []")
    case True
    then show ?thesis using create_fails [OF 1(1,3) sz] by simp
  next
    case False
    then show ?thesis
      using create_map [OF 1(1-3) sz] n contents_same by (metis (no_types, lifting))
  qed
next
  case (2 s out k b c t off bs)
  show ?case by (rule fill_map [OF 2]) (auto simp: owned_block_def)
next
  case (3 s out k t)
  show ?case by (rule publish_map [OF 3, of k t]) (auto intro: contents_same)
next
  case (4 s out k)
  show ?case by (rule abort_map [OF 4, of k]) auto
next
  case (5 s out k)
  then show ?case by (rule get_none_map)
next
  case (6 s out k c t)
  show ?case by (rule get_some_map [OF 6]) (auto intro: contents_same)
next
  case (7 s out b)
  show ?case by (rule free_map [OF 7]) auto
next
  case (8 s out now)
  show ?case by (rule reap_map [OF 8]) auto
qed

end
