(* ===== verification/Small_Store.thy ===== *)
theory Small_Store
  imports Blob_Store
begin

text \<open>
  A store of sixteen slots, laid out by \<^verbatim>\<open>storage_init\<close> at address 4096, for the examples that show
  the hypotheses of the theorems to be satisfiable.
\<close>

lemma allocated_small: "allocated_ok 4096 16" "pow2_size 16"
  by (simp_all add: allocated_ok_def bfootprint_eq pow2_sizeI [of 4])

definition small_key :: htable_key_t where
  "small_key = \<lparr>key_h = 1, key_l = 2\<rparr>"

lemma small_key_ok: "\<not> key_is_null small_key"
  by (simp add: small_key_def key_is_null_iff null_key_def)

lemma small_time: "(100 :: u32) \<noteq> VALID_UNTIL_NOT_PUBLISHED" "(60 :: u32) \<noteq> VALID_UNTIL_EMPTY"
  "(200 :: u32) \<noteq> VALID_UNTIL_EMPTY"
  by (simp_all add: VALID_UNTIL_NOT_PUBLISHED_def VALID_UNTIL_EMPTY_def)

lemma small_store:
  obtains s where "storage_init (Some 4096) True 16 = Some (Inr s)" "storage_inv s {}"
    "blob_at s = Map.empty" "htable_free s = 16" "htable_size s = 16"
    "\<And>i. i < 11 \<Longrightarrow> bucket_list (balloc_data s) (memory s) i \<noteq> []"
proof -
  obtain s where s: "storage_init (Some 4096) True 16 = Some (Inr s)" "storage_inv s {}"
      "tab_view (tab s) = Map.empty" "htable_size s = 16" "htable_free s = 16"
      "\<And>i. i < 11 \<Longrightarrow> bucket_list (balloc_data s) (memory s) i = all_slots (arena s) i"
    using init_ok [OF allocated_small(2,1)] by metis
  have "bucket_list (balloc_data s) (memory s) i \<noteq> []" if "i < 11" for i
    using s(6) [OF that] all_slots(3) [of "arena s" i] by force
  moreover have "blob_at s = Map.empty" using s(3) by (simp add: blob_at_def fun_eq_iff)
  ultimately show ?thesis using that s by blast
qed

lemma size_ok_small: "size_ok 50"
  by (simp add: size_ok_def)

text \<open>The same store with one unpublished blob.\<close>

lemma small_store_created:
  obtains s0 s b c where "storage_init (Some 4096) True 16 = Some (Inr s0)" "storage_inv s0 {}"
    "blob_at s0 = Map.empty" "storage_blob_create s0 small_key 50 = Some (b, s)" "b \<noteq> null_blk"
    "storage_inv s {}" "owned_block s small_key = Some b" "length c = 50"
    "blob_at s = [small_key \<mapsto> (c, VALID_UNTIL_NOT_PUBLISHED)]" "htable_size s = 16"
proof -
  obtain s0 where s0: "storage_init (Some 4096) True 16 = Some (Inr s0)" "storage_inv s0 {}"
      "blob_at s0 = Map.empty" "htable_free s0 = 16" "htable_size s0 = 16"
      "\<And>i. i < 11 \<Longrightarrow> bucket_list (balloc_data s0) (memory s0) i \<noteq> []"
    by (rule small_store) (rule that)
  have "htable_free s0 \<noteq> 0" using s0(4) by simp
  moreover have "bucket_list (balloc_data s0) (memory s0) (bucket_of 50) \<noteq> []"
    using s0(6) bucket_of_ok(1) [OF size_ok_small] by blast
  ultimately obtain b s c where "storage_blob_create s0 small_key 50 = Some (b, s)" "b \<noteq> null_blk"
      "storage_inv s {}" "owned_block s small_key = Some b" "length c = unat (50 :: u64)"
      "blob_at s = (blob_at s0)(small_key \<mapsto> (c, VALID_UNTIL_NOT_PUBLISHED))"
      "htable_size s = htable_size s0"
    using create_map [OF s0(2) small_key_ok _ size_ok_small] s0(3) by metis
  then show ?thesis using that [of s0 b s c] s0 by simp
qed

text \<open>The same store with one blob that expires at time 100.\<close>

lemma small_store_published:
  obtains s b c where "storage_inv s {}" "owned_block s small_key = Some b"
    "blob_at s = [small_key \<mapsto> (c, 100)]" "htable_size s = 16"
proof -
  obtain s0 s b c where s: "storage_inv s {}" "owned_block s small_key = Some b"
      "blob_at s = [small_key \<mapsto> (c, VALID_UNTIL_NOT_PUBLISHED)]" "htable_size s = 16"
    by (rule small_store_created) (rule that)
  show ?thesis
    by (rule publish_map [OF s(1), of small_key 100]) (rule that, auto simp: s fun_eq_iff)
qed

end
