(* ===== verification/Reaper_Simd.thy ===== *)
theory Reaper_Simd
  imports Small_Store
begin

unbundle bit_operations_syntax

text \<open>
  The reaper's search with AVX2, eight expiry times at a time. Its comparison is signed, so both sides are
  flipped in the sign bit; the hits come as a bit mask that is emptied from the lowest bit on.
\<close>

section \<open>The code\<close>

text \<open>Vectors of eight 32-bit numbers.\<close>

definition loadu_epi32 :: "u32 list \<Rightarrow> nat \<Rightarrow> u32 list option" where
  "loadu_epi32 d i = (if i + 8 \<le> length d then Some (take 8 (drop i d)) else None)"

definition set1_epi32 :: "u32 \<Rightarrow> u32 list" where
  "set1_epi32 v = replicate 8 v"

definition xor_vec :: "u32 list \<Rightarrow> u32 list \<Rightarrow> u32 list" where
  "xor_vec a b = map2 (\<lambda>x y. x XOR y) a b"

definition cmpgt_epi32 :: "u32 list \<Rightarrow> u32 list \<Rightarrow> u32 list" where
  "cmpgt_epi32 a b = map2 (\<lambda>x y. if y <s x then - 1 else 0) a b"

definition movemask_ps :: "u32 list \<Rightarrow> u32" where
  "movemask_ps v = horner_sum of_bool 2 (map (\<lambda>x. bit x 31) v)"

text \<open>\<^verbatim>\<open>__builtin_ctz\<close>, undefined for 0.\<close>

definition ctz :: "u32 \<Rightarrow> nat option" where
  "ctz m = (if m = 0 then None else Some (length (takeWhile (\<lambda>i. \<not> bit m i) [0..<32])))"

lemma clear_bit_less: "m \<noteq> 0 \<Longrightarrow> unat (m AND (m - 1)) < unat m" for m :: u32
proof -
  assume "m \<noteq> 0"
  then have "unat (m - 1) + 1 = unat m"
    by (subst unat_sub) (auto simp: word_le_nat_alt unat_gt_0 Suc_le_eq)
  moreover have "m AND (m - 1) \<le> m - 1" by (rule word_and_le1)
  ultimately show ?thesis by (simp add: word_le_nat_alt)
qed

text \<open>The loop over the mask, with the ids gathered so far and their number.\<close>

function mask_gather :: "htable_key_t list \<Rightarrow> nat \<Rightarrow> u32 \<Rightarrow> htable_key_t list \<Rightarrow> u64 \<Rightarrow>
    (htable_key_t list \<times> u64) option" where
  "mask_gather ids i m invalid count =
     (if m = 0 then Some (invalid, count)
      else do {
        idx \<leftarrow> ctz m;
        k \<leftarrow> rd ids (of_nat (i + idx));
        invalid \<leftarrow> wr invalid count k;
        mask_gather ids i (m AND (m - 1)) invalid (count + 1) })"
  by pat_completeness auto
termination by (relation "measure (\<lambda>(ids, i, m, invalid, count). unat m)") (auto intro: clear_bit_less)

declare mask_gather.simps [simp del]

text \<open>The loop over the blocks of eight, and the one over the rest.\<close>

fun tail_gather :: "htab \<Rightarrow> u32 \<Rightarrow> nat list \<Rightarrow> htable_key_t list \<times> u64 \<Rightarrow> (htable_key_t list \<times> u64) option" where
  "tail_gather t time_now [] g = Some g"
| "tail_gather t time_now (i # rest) (invalid, count) = do {
     v \<leftarrow> rd (blob_valid_until t) (of_nat i);
     if v < time_now then do {
       k \<leftarrow> rd (blob_ids t) (of_nat i);
       invalid \<leftarrow> wr invalid count k;
       tail_gather t time_now rest (invalid, count + 1) }
     else tail_gather t time_now rest (invalid, count) }"

function block_gather :: "htab \<Rightarrow> u32 \<Rightarrow> nat \<Rightarrow> nat \<Rightarrow> htable_key_t list \<times> u64 \<Rightarrow> (htable_key_t list \<times> u64) option" where
  "block_gather t time_now n i g =
     (if i + 8 \<le> n then do {
        let bias = set1_epi32 0x80000000;
        let time_vec = xor_vec (set1_epi32 time_now) bias;
        until_vec \<leftarrow> loadu_epi32 (blob_valid_until t) i;
        let cmp = cmpgt_epi32 time_vec (xor_vec until_vec bias);
        g \<leftarrow> mask_gather (blob_ids t) i (movemask_ps cmp) (fst g) (snd g);
        block_gather t time_now n (i + 8) g }
      else tail_gather t time_now [i..<n] g)"
  by pat_completeness auto
termination by (relation "measure (\<lambda>(t, time_now, n, i, g). n - i)") auto

declare block_gather.simps [simp del]

text \<open>\<^verbatim>\<open>storage_reaper\<close> in a build with AVX2.\<close>

definition storage_reaper_avx2 :: "storage \<Rightarrow> u32 \<Rightarrow> storage option" where
  "storage_reaper_avx2 s time_now = do {
     (invalid, count) \<leftarrow> block_gather (tab s) time_now (unat (htable_size s)) 0
       (blob_ids_invalid s, blob_ids_invalid_count s);
     let s = s\<lparr>blob_ids_invalid := invalid, blob_ids_invalid_count := count\<rparr>;
     s \<leftarrow> storage_rip [0..<unat (blob_ids_invalid_count s)] s;
     ensure (unat (blob_ids_invalid_count s) \<le> length (blob_ids_invalid s));
     let c = unat (blob_ids_invalid_count s);
     Some (s\<lparr>blob_ids_invalid := replicate c null_key @ drop c (blob_ids_invalid s),
       blob_ids_invalid_count := 0\<rparr>) }"


section \<open>The comparison\<close>

lemma sint_flip: "sint (x XOR 0x80000000 :: u32) = uint x - 2 ^ 31"
proof -
  have b: "0 \<le> uint x" "uint x < 2 ^ 32" using uint_bounded [of x] by simp_all
  have "uint (x + 0x80000000) = (uint x + 2 ^ 31) mod 2 ^ 32" by (simp add: uint_word_ariths)
  then have "sint (x XOR 0x80000000) = ((uint x + 2 ^ 31) mod 2 ^ 32 + 2 ^ 31) mod 2 ^ 32 - 2 ^ 31"
    unfolding xor_sign_bit sint_u32 by simp
  also have "\<dots> = (uint x + 2 ^ 32) mod 2 ^ 32 - 2 ^ 31" by (simp add: mod_add_left_eq)
  finally show ?thesis using b by simp
qed

lemma flipped_less: "(y XOR 0x80000000) <s (x XOR 0x80000000 :: u32) \<longleftrightarrow> y < x"
  by (simp add: word_sless_alt sint_flip word_less_def)

lemma cmp_bits:
  assumes "length v = 8"
  shows "map (\<lambda>x. bit x 31) (cmpgt_epi32 (xor_vec (set1_epi32 now) (set1_epi32 0x80000000))
      (xor_vec v (set1_epi32 0x80000000))) = map (\<lambda>u. u < now) v"
  using assms
  by (auto simp: cmpgt_epi32_def xor_vec_def set1_epi32_def flipped_less intro!: nth_equalityI split: if_splits)


section \<open>The mask\<close>

definition bits_of :: "bool list \<Rightarrow> int" where
  "bits_of bs = horner_sum of_bool 2 bs"

lemma bits_of_simps [simp]: "bits_of [] = 0" "bits_of (b # bs) = of_bool b + 2 * bits_of bs"
  by (simp_all add: bits_of_def)

definition lowest :: "bool list \<Rightarrow> nat" where
  "lowest bs = length (takeWhile Not bs)"

lemma bits_of_zero: "bits_of bs = 0 \<longleftrightarrow> True \<notin> set bs"
proof (induction bs)
  case (Cons b bs)
  have "0 \<le> bits_of bs" by (induction bs) auto
  then show ?case using Cons by (cases b) auto
qed simp

lemma clear_lowest: "True \<in> set bs \<Longrightarrow> bits_of bs AND (bits_of bs - 1) = bits_of (bs[lowest bs := False])"
proof (induction bs)
  case (Cons b bs)
  show ?case
  proof (cases b)
    case True
    then show ?thesis by (simp add: lowest_def and_int_rec [of "1 + 2 * bits_of bs"])
  next
    case False
    then have IH: "bits_of bs AND (bits_of bs - 1) = bits_of (bs[lowest bs := False])" using Cons by simp
    have "odd (2 * bits_of bs - 1)" by simp
    moreover have "(2 * bits_of bs - 1) div 2 = bits_of bs - 1" by presburger
    ultimately have "(2 * bits_of bs) AND (2 * bits_of bs - 1) = 2 * (bits_of bs AND (bits_of bs - 1))"
      by (simp only: and_int_rec [of "2 * bits_of bs"]) simp
    then show ?thesis using False IH by (simp add: lowest_def)
  qed
qed simp

text \<open>The mask as a word.\<close>

definition mask_of :: "bool list \<Rightarrow> u32" where
  "mask_of bs = horner_sum of_bool 2 bs"

lemma mask_of_int: "mask_of bs = of_int (bits_of bs)"
  unfolding mask_of_def by (induction bs) simp_all

lemma bit_mask_of: "bit (mask_of bs) i \<longleftrightarrow> i < 32 \<and> i < length bs \<and> bs ! i"
  by (auto simp: mask_of_def bit_horner_sum_bit_iff)

lemma mask_of_clear: "True \<in> set bs \<Longrightarrow> mask_of bs AND (mask_of bs - 1) = mask_of (bs[lowest bs := False])"
  using clear_lowest [of bs, symmetric] by (simp add: mask_of_int of_int_and_eq)

lemma lowest_props:
  assumes "True \<in> set bs"
  shows "lowest bs < length bs" "bs ! lowest bs" "j < lowest bs \<Longrightarrow> \<not> bs ! j"
proof -
  show l: "lowest bs < length bs"
    using assms unfolding lowest_def by (induction bs) auto
  then show "bs ! lowest bs" unfolding lowest_def using nth_length_takeWhile [of Not bs] by simp
  assume "j < lowest bs"
  then have j: "j < length (takeWhile Not bs)" by (simp add: lowest_def)
  then have "takeWhile Not bs ! j = bs ! j" by (rule takeWhile_nth)
  moreover have "takeWhile Not bs ! j \<in> set (takeWhile Not bs)" using j by (rule nth_mem)
  ultimately show "\<not> bs ! j" by (auto dest: set_takeWhileD)
qed

lemma ctz_mask:
  assumes "True \<in> set bs" "length bs \<le> 32"
  shows "mask_of bs \<noteq> 0" "ctz (mask_of bs) = Some (lowest bs)"
proof -
  note l = lowest_props [OF assms(1)]
  have "bit (mask_of bs) (lowest bs)" using l assms(2) by (simp add: bit_mask_of)
  then show n: "mask_of bs \<noteq> 0" by auto
  have "takeWhile (\<lambda>i. \<not> bit (mask_of bs) i) [0..<32] = take (lowest bs) [0..<32]"
    using l assms(2) by (intro takeWhile_eq_take_P_nth) (auto simp: bit_mask_of)
  then show "ctz (mask_of bs) = Some (lowest bs)" using n l(1) assms(2) by (simp add: ctz_def)
qed

definition hits :: "bool list \<Rightarrow> nat list" where
  "hits bs = filter (\<lambda>j. bs ! j) [0..<length bs]"

lemma hits_lowest:
  assumes "True \<in> set bs"
  shows "hits bs = lowest bs # hits (bs[lowest bs := False])"
proof -
  let ?l = "lowest bs" and ?n = "length bs"
  note l = lowest_props [OF assms]
  have split: "[0..<?n] = [0..<?l] @ ?l # [Suc ?l..<?n]"
    using l(1) upt_add_eq_append [of 0 ?l "?n - ?l"] by (simp add: upt_conv_Cons)
  have "filter (\<lambda>j. bs ! j) [0..<?l] = []" using l(3) by (simp add: filter_empty_conv)
  moreover have "filter (\<lambda>j. bs[?l := False] ! j) [0..<?l] = []" using l(3) by (simp add: filter_empty_conv)
  moreover have "filter (\<lambda>j. bs[?l := False] ! j) [Suc ?l..<?n] = filter (\<lambda>j. bs ! j) [Suc ?l..<?n]"
    by (intro filter_cong) auto
  ultimately show ?thesis unfolding hits_def length_list_update split using l(1,2) by simp
qed


section \<open>Both searches gather the same ids\<close>

fun push_ids :: "htable_key_t list \<Rightarrow> nat list \<Rightarrow> htable_key_t list \<Rightarrow> u64 \<Rightarrow> (htable_key_t list \<times> u64) option" where
  "push_ids ids [] invalid count = Some (invalid, count)"
| "push_ids ids (i # rest) invalid count = do {
     k \<leftarrow> rd ids (of_nat i);
     invalid \<leftarrow> wr invalid count k;
     push_ids ids rest invalid (count + 1) }"

lemma push_ids_append:
  "push_ids ids (xs @ ys) invalid count = do {
     (invalid, count) \<leftarrow> push_ids ids xs invalid count;
     push_ids ids ys invalid count }"
  by (induction xs arbitrary: invalid count) (auto split: bind_splits)

lemma mask_gather_push:
  "length bs \<le> 32 \<Longrightarrow> mask_gather ids i (mask_of bs) invalid count = push_ids ids (map ((+) i) (hits bs)) invalid count"
proof (induction "unat (mask_of bs)" arbitrary: bs invalid count rule: less_induct)
  case less
  show ?case
  proof (cases "True \<in> set bs")
    case False
    then have "mask_of bs = 0" using bits_of_zero [of bs] by (simp add: mask_of_int)
    moreover have "hits bs = []" using False by (auto simp: hits_def filter_empty_conv in_set_conv_nth)
    ultimately show ?thesis by (simp add: mask_gather.simps [of ids i 0])
  next
    case True
    note c = ctz_mask [OF True less.prems]
    let ?bs = "bs[lowest bs := False]"
    have m: "mask_of bs AND (mask_of bs - 1) = mask_of ?bs" using mask_of_clear [OF True] .
    then have "unat (mask_of ?bs) < unat (mask_of bs)" using clear_bit_less [OF c(1)] by simp
    from less.hyps [OF this] less.prems
    have IH: "mask_gather ids i (mask_of ?bs) inv n = push_ids ids (map ((+) i) (hits ?bs)) inv n" for inv n by simp
    show ?thesis
      using c m by (simp add: mask_gather.simps [of ids i "mask_of bs"] hits_lowest [OF True] IH)
  qed
qed

text \<open>The scalar loops, over the rest of the table and over the whole of it.\<close>

definition late :: "htab \<Rightarrow> u32 \<Rightarrow> nat list \<Rightarrow> nat list" where
  "late t now js = filter (\<lambda>i. blob_valid_until t ! i < now) js"

lemma tail_gather_push:
  assumes "length (blob_valid_until t) < 2 ^ 64"
  shows "\<forall>i\<in>set js. i < length (blob_valid_until t) \<Longrightarrow>
    tail_gather t now js (invalid, count) = push_ids (blob_ids t) (late t now js) invalid count"
  by (induction js arbitrary: invalid count) (use assms in \<open>simp_all add: late_def unat_of_nat_small\<close>)

lemma reaper_gather_push:
  assumes "length (blob_valid_until (tab s)) < 2 ^ 64"
  shows "\<forall>i\<in>set js. i < length (blob_valid_until (tab s)) \<Longrightarrow>
    reaper_gather js now (s\<lparr>blob_ids_invalid := invalid, blob_ids_invalid_count := count\<rparr>) =
      map_option (\<lambda>(invalid, count). s\<lparr>blob_ids_invalid := invalid, blob_ids_invalid_count := count\<rparr>)
        (push_ids (blob_ids (tab s)) (late (tab s) now js) invalid count)"
proof (induction js arbitrary: invalid count)
  case (Cons j js)
  then have "unat (of_nat j :: u64) = j" using assms by (intro unat_of_nat_small) simp
  then show ?case
    using Cons by (cases "rd (blob_ids (tab s)) (of_nat j)"; cases "blob_valid_until (tab s) ! j < now")
      (auto simp: late_def split: bind_splits)
qed (simp add: late_def)

lemma block_gather_push:
  assumes n: "length (blob_valid_until t) = n" "n < 2 ^ 64"
  shows "i \<le> n \<Longrightarrow> block_gather t now n i (invalid, count) =
    push_ids (blob_ids t) (late t now [i..<n]) invalid count"
proof (induction "n - i" arbitrary: i invalid count rule: less_induct)
  case less
  show ?case
  proof (cases "i + 8 \<le> n")
    case False
    then show ?thesis
      using tail_gather_push [of t "[i..<n]" now invalid count] n by (simp add: block_gather.simps [of t now n i])
  next
    case True
    let ?v = "take 8 (drop i (blob_valid_until t))"
    let ?bs = "map (\<lambda>u. u < now) ?v"
    have v: "loadu_epi32 (blob_valid_until t) i = Some ?v" "length ?v = 8" using True n by (simp_all add: loadu_epi32_def)
    have m: "movemask_ps (cmpgt_epi32 (xor_vec (set1_epi32 now) (set1_epi32 0x80000000))
        (xor_vec ?v (set1_epi32 0x80000000))) = mask_of ?bs"
      unfolding movemask_ps_def mask_of_def cmp_bits [OF v(2)] ..
    have h: "map ((+) i) (hits ?bs) = late t now [i..<i + 8]"
    proof -
      have u: "[i..<i + 8] = map ((+) i) [0..<8]" by (rule nth_equalityI) simp_all
      show ?thesis unfolding u late_def hits_def filter_map o_def
        using v(2) n True by (auto intro!: arg_cong [of _ _ "map ((+) i)"] filter_cong)
    qed
    have g: "mask_gather (blob_ids t) i (mask_of ?bs) invalid count =
        push_ids (blob_ids t) (late t now [i..<i + 8]) invalid count"
      using mask_gather_push [of ?bs "blob_ids t" i] v(2) h by simp
    have "[i..<n] = [i..<i + 8] @ [i + 8..<n]" using True upt_add_eq_append [of i "i + 8" "n - (i + 8)"] by simp
    then have l: "late t now [i..<n] = late t now [i..<i + 8] @ late t now [i + 8..<n]" by (simp add: late_def)
    have "block_gather t now n (i + 8) (inv, c) = push_ids (blob_ids t) (late t now [i + 8..<n]) inv c" for inv c
      using True by (intro less.hyps) simp_all
    then have IH: "block_gather t now n (i + 8) =
        (\<lambda>g. push_ids (blob_ids t) (late t now [i + 8..<n]) (fst g) (snd g))" by (auto simp: fun_eq_iff)
    show ?thesis
      unfolding l push_ids_append using True v(1) m g
      by (simp add: block_gather.simps [of t now n i] Let_def IH split_def)
  qed
qed

text \<open>
  C13: the reaper with AVX2 does exactly what the scalar one does, on every state of the store: the signed comparison of
  flipped times is the unsigned one, and taking the lowest bit of the mask again and again keeps the order.
\<close>

theorem reaper_avx2_equivalence:
  assumes "storage_inv s out"
  shows "storage_reaper_avx2 s now = storage_reaper s now"
proof -
  let ?n = "unat (htable_size s)"
  have n: "length (blob_valid_until (tab s)) = ?n" "?n < 2 ^ 64"
    using tab_lengths(3) [OF assms] unsigned_less [of "htable_size s", where 'a = nat] by simp_all
  have "reaper_gather [0..<?n] now s = map_option
      (\<lambda>(invalid, count). s\<lparr>blob_ids_invalid := invalid, blob_ids_invalid_count := count\<rparr>)
      (block_gather (tab s) now ?n 0 (blob_ids_invalid s, blob_ids_invalid_count s))"
    using reaper_gather_push [where s = s and js = "[0..<?n]" and now = now
        and invalid = "blob_ids_invalid s" and count = "blob_ids_invalid_count s"] n
      block_gather_push [OF n, where i = 0] by simp
  then show ?thesis
    by (cases "block_gather (tab s) now ?n 0 (blob_ids_invalid s, blob_ids_invalid_count s)")
      (auto simp: storage_reaper_def storage_reaper_avx2_def Let_def)
qed

theorem reaper_avx2_equivalence_witness:
  "\<exists>(s :: storage) c. blob_at s = [small_key \<mapsto> (c, 100)] \<and> storage_reaper_avx2 s 200 = storage_reaper s 200"
proof -
  obtain s b c where s: "storage_inv s {}" "owned_block s small_key = Some b"
      "blob_at s = [small_key \<mapsto> (c, 100)]" "htable_size s = 16"
    by (rule small_store_published) (rule that)
  then show ?thesis using reaper_avx2_equivalence [OF s(1), of 200] by blast
qed

end
