(* ===== verification/Debouncer.thy ===== *)
theory Debouncer
  imports Linear_Probing
begin

unbundle bit_operations_syntax

text \<open>
  \<^verbatim>\<open>debouncer.h\<close>: one request per client address every 150 ms. The last request of about a thousand
  addresses is kept in an open-addressing table that is never emptied; when it is full, a clock
  hand picks the entry to overwrite.
\<close>

section \<open>The code\<close>

definition DEB_WINDOW_MS :: u32 where "DEB_WINDOW_MS = 150"
definition DEB_CAP :: u32 where "DEB_CAP = 1024"

record deb_entry_t =
  deb_key :: u64
  until_ms :: u32

record debouncer =
  deb_tbl :: "deb_entry_t list"
  deb_sweep :: u32

definition deb_mask :: u32 where "deb_mask = DEB_CAP - 1"

text \<open>The static variables before the first request.\<close>

definition deb_init :: debouncer where
  "deb_init = \<lparr>deb_tbl = replicate (unat DEB_CAP) \<lparr>deb_key = 0, until_ms = 0\<rparr>, deb_sweep = 0\<rparr>"

text \<open>The time is \<^verbatim>\<open>tv_sec\<close> and \<^verbatim>\<open>tv_nsec\<close> of \<^verbatim>\<open>clock_gettime\<close>.\<close>

definition deb_now_ms :: "nat \<Rightarrow> nat \<Rightarrow> u32" where
  "deb_now_ms tv_sec tv_nsec = of_nat (tv_sec * 1000 + tv_nsec div 1000000)"

definition deb_mix :: "u64 \<Rightarrow> u64" where
  "deb_mix x =
    (let x = x XOR drop_bit 33 x;
         x = x * 0xff51afd7ed558ccd;
         x = x XOR drop_bit 33 x;
         x = x * 0xc4ceb9fe1a85ec53;
         x = x XOR drop_bit 33 x
     in x)"

text \<open>
  An address: the four bytes of \<^verbatim>\<open>sin_addr\<close> or the sixteen of \<^verbatim>\<open>sin6_addr\<close>, in network order, or some other
  family. \<^verbatim>\<open>NULL\<close> is \<^const>\<open>None\<close>.
\<close>

datatype sockaddr = Sockaddr_in "u8 list" | Sockaddr_in6 "u8 list" | Sockaddr_other

definition ntohl :: "u8 list \<Rightarrow> u32" where
  "ntohl bs = of_nat (le_nat (rev bs))"

definition deb_ip_key :: "sockaddr option \<Rightarrow> u64" where
  "deb_ip_key sa = (case sa of
     None \<Rightarrow> 0
   | Some (Sockaddr_in bs) \<Rightarrow> deb_mix (ucast (ntohl bs))
   | Some (Sockaddr_in6 bs) \<Rightarrow>
       (let a = of_nat (le_nat (take 8 bs));
            b = of_nat (le_nat (take 8 (drop 8 bs)))
        in deb_mix (a XOR push_bit 1 b))
   | Some Sockaddr_other \<Rightarrow> 0)"

text \<open>The loop over \<open>p\<close>, with the eviction behind it.\<close>

function deb_loop :: "debouncer \<Rightarrow> u64 \<Rightarrow> u32 \<Rightarrow> u32 \<Rightarrow> nat \<Rightarrow> (bool \<times> debouncer) option" where
  "deb_loop s key now i p =
     (if p \<le> unat deb_mask then do {
        let idx = (ucast i + of_nat p) AND ucast deb_mask;
        e \<leftarrow> rd (deb_tbl s) idx;
        if deb_key e = key then
          (if 0 <s until_ms e - now then Some (False, s)
           else do {
             t \<leftarrow> wr (deb_tbl s) idx (e\<lparr>until_ms := now + DEB_WINDOW_MS\<rparr>);
             Some (True, s\<lparr>deb_tbl := t\<rparr>) })
        else if deb_key e = 0 then do {
          t \<leftarrow> wr (deb_tbl s) idx \<lparr>deb_key = key, until_ms = now + DEB_WINDOW_MS\<rparr>;
          Some (True, s\<lparr>deb_tbl := t\<rparr>) }
        else deb_loop s key now i (p + 1) }
      else do {
        t \<leftarrow> wr (deb_tbl s) (ucast (deb_sweep s AND deb_mask))
          \<lparr>deb_key = key, until_ms = now + DEB_WINDOW_MS\<rparr>;
        Some (True, s\<lparr>deb_tbl := t, deb_sweep := deb_sweep s + 1\<rparr>) })"
  by pat_completeness auto
termination by (relation "measure (\<lambda>(s, key, now, i, p). Suc (unat deb_mask) - p)") auto

declare deb_loop.simps [simp del]

definition debouncer_allow_key :: "debouncer \<Rightarrow> u64 \<Rightarrow> u32 \<Rightarrow> (bool \<times> debouncer) option" where
  "debouncer_allow_key s key now =
     (if key = 0 then Some (True, s)
      else deb_loop s key now (ucast (key XOR drop_bit 32 key) AND deb_mask) 0)"

definition debouncer_allow_addr_now ::
    "debouncer \<Rightarrow> sockaddr option \<Rightarrow> u32 \<Rightarrow> (bool \<times> debouncer) option" where
  "debouncer_allow_addr_now s sa now = debouncer_allow_key s (deb_ip_key sa) now"

definition debouncer_allow_addr ::
    "debouncer \<Rightarrow> sockaddr option \<Rightarrow> nat \<Rightarrow> nat \<Rightarrow> (bool \<times> debouncer) option" where
  "debouncer_allow_addr s sa tv_sec tv_nsec = debouncer_allow_addr_now s sa (deb_now_ms tv_sec tv_nsec)"


section \<open>The key of an address\<close>

text \<open>The steps of \<^verbatim>\<open>deb_mix\<close> backwards.\<close>

definition deb_unmix :: "u64 \<Rightarrow> u64" where
  "deb_unmix x =
    (let x = x XOR drop_bit 33 x;
         x = x * 0x9cb4b2f8129337db;
         x = x XOR drop_bit 33 x;
         x = x * 0x4f74430c22a54005;
         x = x XOR drop_bit 33 x
     in x)"

lemma xorshift_involution: "(x XOR drop_bit 33 x) XOR drop_bit 33 (x XOR drop_bit 33 x) = (x :: u64)"
proof (rule bit_eqI)
  fix n assume "possible_bit TYPE(u64) n"
  show "bit ((x XOR drop_bit 33 x) XOR drop_bit 33 (x XOR drop_bit 33 x)) n = bit x n"
    using bit_imp_le_length [of x "33 + (33 + n)"] by (auto simp: bit_xor_iff bit_drop_bit_eq)
qed

lemma deb_unmix_mix: "deb_unmix (deb_mix x) = x"
proof -
  have m: "y * 0xff51afd7ed558ccd * 0x4f74430c22a54005 = y"
    "y * 0xc4ceb9fe1a85ec53 * 0x9cb4b2f8129337db = y" for y :: u64
  proof -
    have "(0xff51afd7ed558ccd * 0x4f74430c22a54005 :: u64) = 1"
      "(0xc4ceb9fe1a85ec53 * 0x9cb4b2f8129337db :: u64) = 1" by simp_all
    then show "y * 0xff51afd7ed558ccd * 0x4f74430c22a54005 = y"
      "y * 0xc4ceb9fe1a85ec53 * 0x9cb4b2f8129337db = y"
      by (simp_all only: mult.assoc mult_1_right)
  qed
  show ?thesis by (simp only: deb_mix_def deb_unmix_def Let_def xorshift_involution m)
qed

lemma deb_mix_inj: "deb_mix x = deb_mix y \<longleftrightarrow> x = y"
  using deb_unmix_mix by metis

lemma deb_mix_zero: "deb_mix x = 0 \<longleftrightarrow> x = 0"
  using deb_mix_inj [of x 0] by (simp add: deb_mix_def)


section \<open>The table\<close>

text \<open>
  The invariant: no key twice, and no empty slot between the home of a key and its slot. Slots never
  become empty, so it survives the eviction.
\<close>

abbreviation cap :: nat where "cap \<equiv> 1024"

definition deb_home :: "u64 \<Rightarrow> u32" where
  "deb_home key = ucast (key XOR drop_bit 32 key) AND deb_mask"

definition key_at :: "debouncer \<Rightarrow> nat \<Rightarrow> u64" where
  "key_at s p = deb_key (deb_tbl s ! p)"

definition deb_inv :: "debouncer \<Rightarrow> bool" where
  "deb_inv s \<longleftrightarrow> length (deb_tbl s) = cap \<and>
     (\<forall>p<cap. \<forall>q<cap. key_at s p \<noteq> 0 \<longrightarrow> key_at s p = key_at s q \<longrightarrow> p = q) \<and>
     (\<forall>p<cap. key_at s p \<noteq> 0 \<longrightarrow>
        (\<forall>d<dist cap (unat (deb_home (key_at s p))) p.
           key_at s ((unat (deb_home (key_at s p)) + d) mod cap) \<noteq> 0))"

text \<open>The time until which a key is blocked, if the table knows the key.\<close>

definition deb_view :: "debouncer \<Rightarrow> u64 \<Rightarrow> u32 option" where
  "deb_view s key = map_option until_ms (find (\<lambda>e. deb_key e = key) (deb_tbl s))"

lemma deb_mask_eq: "unat deb_mask = cap - 1" "(ucast deb_mask :: u64) = 1024 - 1" "deb_mask = 1023"
  by (simp_all add: deb_mask_def DEB_CAP_def)

lemma pow2_cap: "pow2_size 1024"
  by (rule pow2_sizeI [of 10]) simp_all

lemma deb_home_less: "unat (deb_home key) < cap"
proof -
  have "deb_home key = take_bit 10 (ucast (key XOR drop_bit 32 key))"
    by (simp add: deb_home_def deb_mask_eq(3) take_bit_eq_mask mask_numeral)
  then have "unat (deb_home key) < 2 ^ 10"
    by (simp only: unsigned_take_bit_eq) (rule take_bit_nat_less_exp)
  then show ?thesis by simp
qed

lemma slot_index:
  assumes "unat i < cap" "p < cap"
  shows "unat ((ucast (i :: u32) + of_nat p) AND (ucast deb_mask :: u64)) = (unat i + p) mod cap"
proof -
  have "unat (of_nat p :: u64) = p" using assms(2) by (intro unat_of_nat_small) simp
  then show ?thesis
    unfolding deb_mask_eq(2) using unat_add_mask [OF pow2_cap, of "ucast i" "of_nat p"]
    by (simp add: unat_ucast_u64)
qed

lemma deb_loop_slot:
  assumes "unat i < cap" "p < cap" "length (deb_tbl s) = cap"
  defines "j \<equiv> (unat i + p) mod cap"
  shows "deb_loop s key now i p =
    (if key_at s j = key then
       (if 0 <s until_ms (deb_tbl s ! j) - now then Some (False, s)
        else Some (True, s\<lparr>deb_tbl := (deb_tbl s)[j := (deb_tbl s ! j)\<lparr>until_ms := now + DEB_WINDOW_MS\<rparr>]\<rparr>))
     else if key_at s j = 0 then
       Some (True, s\<lparr>deb_tbl := (deb_tbl s)[j := \<lparr>deb_key = key, until_ms = now + DEB_WINDOW_MS\<rparr>]\<rparr>)
     else deb_loop s key now i (p + 1))"
proof -
  have j: "j < cap" by (simp add: j_def)
  note idx = slot_index [OF assms(1,2), folded j_def]
  have p: "p \<le> unat deb_mask" using assms(2) by (simp add: deb_mask_eq)
  show ?thesis
    using j assms(3) p
    by (subst deb_loop.simps) (simp add: idx key_at_def Let_def)
qed

text \<open>The slots before the first one that is empty or has the key are passed over.\<close>

lemma deb_loop_skip:
  assumes "unat i < cap" "length (deb_tbl s) = cap"
    and "\<And>d. p \<le> d \<Longrightarrow> d < p + n \<Longrightarrow> key_at s ((unat i + d) mod cap) \<notin> {0, key}"
    and "p + n \<le> cap"
  shows "deb_loop s key now i p = deb_loop s key now i (p + n)"
  using assms(3,4)
proof (induction n)
  case (Suc n)
  then have "deb_loop s key now i p = deb_loop s key now i (p + n)" by simp
  also have "\<dots> = deb_loop s key now i (p + n + 1)"
    using deb_loop_slot [OF assms(1) _ assms(2), of "p + n" key now] Suc.prems(1) [of "p + n"] Suc.prems(2)
    by simp
  finally show ?case by simp
qed simp

lemma deb_invD:
  assumes "deb_inv s"
  shows "length (deb_tbl s) = cap"
    and "p < cap \<Longrightarrow> q < cap \<Longrightarrow> key_at s p \<noteq> 0 \<Longrightarrow> key_at s p = key_at s q \<Longrightarrow> p = q"
    and "p < cap \<Longrightarrow> key_at s p \<noteq> 0 \<Longrightarrow> d < dist cap (unat (deb_home (key_at s p))) p \<Longrightarrow>
      key_at s ((unat (deb_home (key_at s p)) + d) mod cap) \<noteq> 0"
  using assms unfolding deb_inv_def by blast+

lemma deb_view_at:
  assumes "deb_inv s" "p < cap" "key_at s p = key" "key \<noteq> 0"
  shows "deb_view s key = Some (until_ms (deb_tbl s ! p))"
proof -
  have "key_at s j \<noteq> key" if "j < p" for j
    using deb_invD(2) [OF assms(1), of j p] that assms(2-) by auto
  then have "find (\<lambda>e. deb_key e = key) (deb_tbl s) = Some (deb_tbl s ! p)"
    unfolding find_Some_iff using assms(2,3) deb_invD(1) [OF assms(1)]
    by (intro exI [of _ p]) (auto simp: key_at_def)
  then show ?thesis by (simp add: deb_view_def)
qed

lemma deb_view_None:
  assumes "length (deb_tbl s) = cap"
  shows "deb_view s key = None \<longleftrightarrow> (\<forall>p<cap. key_at s p \<noteq> key)"
  using assms by (auto simp: deb_view_def find_None_iff key_at_def in_set_conv_nth)

text \<open>What a store of an entry does to the view.\<close>

lemma deb_view_put:
  assumes inv: "deb_inv s" and inv': "deb_inv s'" and p: "p < cap" and key: "deb_key e \<noteq> 0"
    and s': "deb_tbl s' = (deb_tbl s)[p := e]"
    and old: "key_at s p = 0 \<or> key_at s p = deb_key e \<or> (\<forall>q<cap. key_at s q \<noteq> deb_key e)"
    and k: "k \<noteq> 0"
  shows "deb_view s' k = (if k = deb_key e then Some (until_ms e)
    else if k = key_at s p then None else deb_view s k)"
proof -
  have len: "length (deb_tbl s) = cap" "length (deb_tbl s') = cap"
    using inv inv' by (simp_all add: deb_inv_def)
  have at: "key_at s' q = (if q = p then deb_key e else key_at s q)" if "q < cap" for q
    using that len p by (simp add: key_at_def s')
  show ?thesis
  proof (cases "\<exists>q<cap. key_at s' q = k")
    case True
    then obtain q where q: "q < cap" "key_at s' q = k" by blast
    have v: "deb_view s' k = Some (until_ms (deb_tbl s' ! q))" using deb_view_at [OF inv' q k] .
    show ?thesis
    proof (cases "q = p")
      case True
      then show ?thesis using v q at [OF p] p len by (simp add: s')
    next
      case False
      then have kq: "key_at s q = k" using q at by simp
      have "k \<noteq> deb_key e" using deb_invD(2) [OF inv' q(1) p] q False at [OF p] k by auto
      moreover have "k \<noteq> key_at s p" using deb_invD(2) [OF inv q(1) p] kq k False by auto
      ultimately show ?thesis using v False deb_view_at [OF inv q(1) kq k] by (simp add: s')
    qed
  next
    case False
    then have "deb_view s' k = None" using deb_view_None [OF len(2)] by blast
    moreover have "k \<noteq> deb_key e" using False at [OF p] p by auto
    moreover have "deb_view s k = None" if "k \<noteq> key_at s p"
      using deb_view_None [OF len(1)] False at that by metis
    ultimately show ?thesis by auto
  qed
qed

lemma deb_inv_put:
  assumes inv: "deb_inv s" and p: "p < cap" and key: "deb_key e \<noteq> 0"
    and uniq: "\<And>q. q < cap \<Longrightarrow> key_at s q = deb_key e \<Longrightarrow> q = p"
    and chain: "\<And>d. d < dist cap (unat (deb_home (deb_key e))) p \<Longrightarrow>
      key_at s ((unat (deb_home (deb_key e)) + d) mod cap) \<noteq> 0"
    and s': "deb_tbl s' = (deb_tbl s)[p := e]"
  shows "deb_inv s'"
proof -
  note i = deb_invD [OF inv]
  have at: "key_at s' q = (if q = p then deb_key e else key_at s q)" if "q < cap" for q
    using that i(1) p by (simp add: key_at_def s')
  have full: "key_at s' q \<noteq> 0" if "q < cap" "key_at s q \<noteq> 0" for q using at [OF that(1)] that key by simp
  show ?thesis
    unfolding deb_inv_def
  proof (intro conjI allI impI)
    show "length (deb_tbl s') = cap" by (simp add: s' i(1))
    show "q = r" if "q < cap" "r < cap" "key_at s' q \<noteq> 0" "key_at s' q = key_at s' r" for q r
    proof (cases "q = p \<or> r = p")
      case True
      then show ?thesis using that uniq [of q] uniq [of r] at [of q] at [of r] by metis
    next
      case False
      then show ?thesis using that i(2) [of q r] at [of q] at [of r] by simp
    qed
    show "key_at s' ((unat (deb_home (key_at s' q)) + d) mod cap) \<noteq> 0"
      if "q < cap" "key_at s' q \<noteq> 0" "d < dist cap (unat (deb_home (key_at s' q))) q" for q d
    proof (rule full)
      show "key_at s ((unat (deb_home (key_at s' q)) + d) mod cap) \<noteq> 0"
        using that i(3) [of q d] chain by (cases "q = p") (simp_all add: at)
    qed simp
  qed
qed

text \<open>The three cases of \<^verbatim>\<open>debouncer_allow_key\<close>.\<close>

lemma allow_known:
  assumes inv: "deb_inv s" and key: "key \<noteq> 0" and v: "deb_view s key = Some u"
  shows "0 <s u - now \<Longrightarrow> debouncer_allow_key s key now = Some (False, s)"
    "\<not> 0 <s u - now \<Longrightarrow> \<exists>s'. debouncer_allow_key s key now = Some (True, s') \<and> deb_inv s' \<and>
       (\<forall>k. k \<noteq> 0 \<longrightarrow> deb_view s' k = (if k = key then Some (now + DEB_WINDOW_MS) else deb_view s k))"
proof -
  note i = deb_invD [OF inv]
  let ?h = "unat (deb_home key)"
  obtain p where p: "p < cap" "key_at s p = key" using v deb_view_None [OF i(1), of key] by auto
  have u: "u = until_ms (deb_tbl s ! p)" using deb_view_at [OF inv p key] v by simp
  define D where "D = dist cap ?h p"
  have D: "D < cap" "(?h + D) mod cap = p"
    using deb_home_less [of key] p(1) by (simp_all add: D_def dist_less add_dist)
  have skip: "key_at s ((?h + d) mod cap) \<notin> {0, key}" if "d < D" for d
  proof -
    have "(?h + d) mod cap \<noteq> p"
      using dist_add [OF deb_home_less, of d key] that D(1) by (auto simp: D_def)
    then have "key_at s ((?h + d) mod cap) \<noteq> key" using i(2) [OF p(1), of "(?h + d) mod cap"] p key by auto
    moreover have "key_at s ((?h + d) mod cap) \<noteq> 0" using i(3) [OF p(1), of d] p(2) key that by (simp add: D_def)
    ultimately show ?thesis by simp
  qed
  have "debouncer_allow_key s key now = deb_loop s key now (deb_home key) 0"
    using key by (simp add: debouncer_allow_key_def deb_home_def)
  also have "\<dots> = deb_loop s key now (deb_home key) D"
    using deb_loop_skip [where i = "deb_home key" and key = key and now = now and p = 0 and n = D, OF deb_home_less i(1)] skip D(1) by simp
  finally have run: "debouncer_allow_key s key now = (if 0 <s u - now then Some (False, s)
      else Some (True, s\<lparr>deb_tbl := (deb_tbl s)[p := (deb_tbl s ! p)\<lparr>until_ms := now + DEB_WINDOW_MS\<rparr>]\<rparr>))"
    using deb_loop_slot [where i = "deb_home key" and key = key and now = now, OF deb_home_less D(1) i(1)] p(2) D(2) u by simp
  then show "0 <s u - now \<Longrightarrow> debouncer_allow_key s key now = Some (False, s)" by simp
  let ?e = "(deb_tbl s ! p)\<lparr>until_ms := now + DEB_WINDOW_MS\<rparr>"
  let ?s = "s\<lparr>deb_tbl := (deb_tbl s)[p := ?e]\<rparr>"
  have e: "deb_key ?e = key" using p(2) by (simp add: key_at_def)
  have inv': "deb_inv ?s"
    by (rule deb_inv_put [OF inv p(1), of ?e]) (use e key i(2) [OF p(1)] i(3) [OF p(1)] p(2) in auto)
  have "deb_view ?s k = (if k = key then Some (now + DEB_WINDOW_MS) else deb_view s k)" if "k \<noteq> 0" for k
    using deb_view_put [OF inv inv' p(1), of ?e k] e key p(2) that by simp
  then show "\<not> 0 <s u - now \<Longrightarrow> \<exists>s'. debouncer_allow_key s key now = Some (True, s') \<and> deb_inv s' \<and>
       (\<forall>k. k \<noteq> 0 \<longrightarrow> deb_view s' k = (if k = key then Some (now + DEB_WINDOW_MS) else deb_view s k))"
    using run inv' by auto
qed

lemma allow_new:
  assumes inv: "deb_inv s" and key: "key \<noteq> 0" and v: "deb_view s key = None"
    and free: "q < cap" "key_at s q = 0"
  shows "\<exists>s'. debouncer_allow_key s key now = Some (True, s') \<and> deb_inv s' \<and>
    (\<forall>k. k \<noteq> 0 \<longrightarrow> deb_view s' k = (if k = key then Some (now + DEB_WINDOW_MS) else deb_view s k))"
proof -
  note i = deb_invD [OF inv]
  let ?h = "unat (deb_home key)" and ?e = "\<lparr>deb_key = key, until_ms = now + DEB_WINDOW_MS\<rparr>"
  have absent: "key_at s p \<noteq> key" if "p < cap" for p using v deb_view_None [OF i(1)] that by blast
  define D where "D = (LEAST d. key_at s ((?h + d) mod cap) = 0)"
  have q: "key_at s ((?h + dist cap ?h q) mod cap) = 0"
    using add_dist [OF deb_home_less [of key] free(1)] free(2) by simp
  have D0: "key_at s ((?h + D) mod cap) = 0" unfolding D_def using q by (rule LeastI)
  have "D \<le> dist cap ?h q" unfolding D_def using q by (rule Least_le)
  then have D: "D < cap" using dist_less [of cap ?h q] by simp
  have skip: "key_at s ((?h + d) mod cap) \<notin> {0, key}" if "d < D" for d
    using not_less_Least [of d, folded D_def] that absent [of "(?h + d) mod cap"] D_def by auto
  define p where "p = (?h + D) mod cap"
  have p: "p < cap" "key_at s p = 0" "dist cap ?h p = D"
    using D0 dist_add [OF deb_home_less D] by (simp_all add: p_def)
  have "debouncer_allow_key s key now = deb_loop s key now (deb_home key) D"
    using deb_loop_skip [where i = "deb_home key" and key = key and now = now and p = 0 and n = D, OF deb_home_less i(1)] skip D key
    by (simp add: debouncer_allow_key_def deb_home_def)
  then have run: "debouncer_allow_key s key now = Some (True, s\<lparr>deb_tbl := (deb_tbl s)[p := ?e]\<rparr>)"
    using deb_loop_slot [where i = "deb_home key" and key = key and now = now, OF deb_home_less D i(1)] p(2) key by (simp add: p_def)
  let ?s = "s\<lparr>deb_tbl := (deb_tbl s)[p := ?e]\<rparr>"
  have inv': "deb_inv ?s"
    by (rule deb_inv_put [OF inv p(1), of ?e]) (use key absent skip p(3) in auto)
  have "deb_view ?s k = (if k = key then Some (now + DEB_WINDOW_MS) else deb_view s k)" if "k \<noteq> 0" for k
    using deb_view_put [OF inv inv' p(1), of ?e k] key p(2) that by simp
  then show ?thesis using run inv' by blast
qed

text \<open>The entry under the clock hand.\<close>

definition victim :: "debouncer \<Rightarrow> u64" where
  "victim s = key_at s (unat (deb_sweep s AND deb_mask))"

lemma sweep_less: "unat (x AND deb_mask) < cap"
proof -
  have "x AND deb_mask = take_bit 10 x" by (simp add: deb_mask_eq(3) take_bit_eq_mask mask_numeral)
  then have "unat (x AND deb_mask) < 2 ^ 10"
    by (simp only: unsigned_take_bit_eq) (rule take_bit_nat_less_exp)
  then show ?thesis by simp
qed

lemma allow_evict:
  assumes inv: "deb_inv s" and key: "key \<noteq> 0" and v: "deb_view s key = None"
    and full: "\<And>q. q < cap \<Longrightarrow> key_at s q \<noteq> 0"
  shows "\<exists>s'. debouncer_allow_key s key now = Some (True, s') \<and> deb_inv s' \<and>
    deb_sweep s' = deb_sweep s + 1 \<and>
    (\<forall>k. k \<noteq> 0 \<longrightarrow> deb_view s' k = (if k = key then Some (now + DEB_WINDOW_MS)
       else if k = victim s then None else deb_view s k))"
proof -
  note i = deb_invD [OF inv]
  let ?h = "unat (deb_home key)" and ?e = "\<lparr>deb_key = key, until_ms = now + DEB_WINDOW_MS\<rparr>"
  let ?p = "unat (deb_sweep s AND deb_mask)"
  have absent: "key_at s p \<noteq> key" if "p < cap" for p using v deb_view_None [OF i(1)] that by blast
  let ?s = "s\<lparr>deb_tbl := (deb_tbl s)[?p := ?e], deb_sweep := deb_sweep s + 1\<rparr>"
  have "debouncer_allow_key s key now = deb_loop s key now (deb_home key) cap"
    using deb_loop_skip [where i = "deb_home key" and key = key and now = now and p = 0 and n = cap, OF deb_home_less i(1)] absent full key
    by (simp add: debouncer_allow_key_def deb_home_def)
  also have "\<dots> = Some (True, ?s)"
    using sweep_less [of "deb_sweep s"] i(1)
    by (subst deb_loop.simps) (simp add: deb_mask_eq(1) unat_ucast_u64)
  finally have run: "debouncer_allow_key s key now = Some (True, ?s)" .
  have inv': "deb_inv ?s"
    by (rule deb_inv_put [OF inv sweep_less, of ?e]) (use key absent full in auto)
  have "deb_view ?s k = (if k = key then Some (now + DEB_WINDOW_MS)
      else if k = victim s then None else deb_view s k)" if "k \<noteq> 0" for k
    using deb_view_put [OF inv inv' sweep_less, of ?e "deb_sweep s" k] key absent that
    by (simp add: victim_def)
  then show ?thesis using run inv' by auto
qed


section \<open>What the debouncer guarantees\<close>

lemma deb_init_inv: "deb_inv deb_init"
  by (simp add: deb_inv_def deb_init_def DEB_CAP_def key_at_def)

lemma allow_cases:
  assumes inv: "deb_inv s" and key: "key \<noteq> 0"
  obtains (block) u where "deb_view s key = Some u" "0 <s u - now" "debouncer_allow_key s key now = Some (False, s)"
  | (pass) s' where "debouncer_allow_key s key now = Some (True, s')" "deb_inv s'"
      "\<And>u. deb_view s key = Some u \<Longrightarrow> \<not> 0 <s u - now" "deb_view s' key = Some (now + DEB_WINDOW_MS)"
      "\<And>k. k \<noteq> 0 \<Longrightarrow> k \<noteq> key \<Longrightarrow> deb_view s' k = deb_view s k \<or>
         deb_view s' k = None \<and> k = victim s \<and> deb_view s key = None \<and> (\<forall>q<cap. key_at s q \<noteq> 0)"
proof (cases "deb_view s key")
  case (Some u)
  show ?thesis
  proof (cases "0 <s u - now")
    case True
    then show ?thesis using block [OF Some] allow_known(1) [OF inv key Some] by blast
  next
    case False
    then obtain s' where "debouncer_allow_key s key now = Some (True, s')" "deb_inv s'"
        "\<And>k. k \<noteq> 0 \<Longrightarrow> deb_view s' k = (if k = key then Some (now + DEB_WINDOW_MS) else deb_view s k)"
      using allow_known(2) [OF inv key Some] by blast
    then show ?thesis using pass [of s'] Some False key by auto
  qed
next
  case None
  show ?thesis
  proof (cases "\<exists>q<cap. key_at s q = 0")
    case True
    then obtain s' where "debouncer_allow_key s key now = Some (True, s')" "deb_inv s'"
        "\<And>k. k \<noteq> 0 \<Longrightarrow> deb_view s' k = (if k = key then Some (now + DEB_WINDOW_MS) else deb_view s k)"
      using allow_new [OF inv key None] by blast
    then show ?thesis using pass [of s'] None key by auto
  next
    case False
    then obtain s' where "debouncer_allow_key s key now = Some (True, s')" "deb_inv s'"
        "\<And>k. k \<noteq> 0 \<Longrightarrow> deb_view s' k = (if k = key then Some (now + DEB_WINDOW_MS)
           else if k = victim s then None else deb_view s k)"
      using allow_evict [OF inv key None] by blast
    then show ?thesis using pass [of s'] None False key by auto
  qed
qed

text \<open>
  C27: \<^verbatim>\<open>debouncer_allow_key\<close> always returns and keeps its table well-formed. A known client is rejected,
  without effect, exactly while its window is in the future (as a signed difference); every other
  client passes and its window starts. Other clients keep their windows, unless the table is full and
  one of them is the one under the clock hand.
\<close>

theorem debounce_spec:
  assumes "deb_inv s" "key \<noteq> 0"
  shows "\<exists>r s'. debouncer_allow_key s key now = Some (r, s') \<and> deb_inv s' \<and>
    (r \<longleftrightarrow> (case deb_view s key of None \<Rightarrow> True | Some u \<Rightarrow> \<not> 0 <s u - now)) \<and>
    (if r then deb_view s' key = Some (now + DEB_WINDOW_MS) else s' = s) \<and>
    (\<forall>k. k \<noteq> 0 \<longrightarrow> k \<noteq> key \<longrightarrow> deb_view s' k = deb_view s k \<or>
       deb_view s' k = None \<and> k = victim s \<and> deb_view s key = None \<and> (\<forall>e\<in>set (deb_tbl s). deb_key e \<noteq> 0))"
proof (cases rule: allow_cases [OF assms, of now, case_names block pass])
  case (block u)
  then show ?thesis using assms(1) by auto
next
  case (pass s')
  have "(\<forall>q<cap. key_at s q \<noteq> 0) \<longleftrightarrow> (\<forall>e\<in>set (deb_tbl s). deb_key e \<noteq> 0)"
    using deb_invD(1) [OF assms(1)] by (simp add: key_at_def all_set_conv_all_nth)
  then show ?thesis using pass by (auto split: option.splits)
qed

theorem debounce_spec_witness:
  "\<exists>s'. debouncer_allow_key deb_init 7 1000 = Some (True, s') \<and> deb_view s' 7 = Some 1150"
proof -
  have "deb_view deb_init 7 = None"
    by (simp add: deb_view_def deb_init_def DEB_CAP_def find_None_iff)
  then show ?thesis using debounce_spec [OF deb_init_inv, of 7 1000] by (auto simp: DEB_WINDOW_MS_def)
qed



lemma le_nat_inj: "length a = length b \<Longrightarrow> le_nat a = le_nat b \<Longrightarrow> a = b"
  by (metis le_bytes_le_nat)

lemma ucast_u64_inj: "(ucast (x :: u32) :: u64) = ucast y \<longleftrightarrow> x = y"
  by (metis unat_ucast_u64 word_unat_eq_iff)

lemma ntohl_inj: "length a = 4 \<Longrightarrow> length b = 4 \<Longrightarrow> ntohl a = ntohl b \<longleftrightarrow> a = b"
proof -
  assume l: "length a = 4" "length b = 4"
  have "le_nat (rev x) < 2 ^ 32" if "length x = 4" for x using le_nat_less [of "rev x"] that by simp
  then have "ntohl a = ntohl b \<longleftrightarrow> le_nat (rev a) = le_nat (rev b)"
    using l by (auto simp: ntohl_def word_unat_eq_iff unat_of_nat)
  then show ?thesis using le_nat_inj [of "rev a" "rev b"] l by auto
qed



end
