(* ===== verification/Ctxalloc.thy ===== *)
theory Ctxalloc
  imports Block_Pool
begin

unbundle bit_operations_syntax

text \<open>
  \<^verbatim>\<open>ctxalloc.h\<close>: the pool of request contexts. Free contexts are linked through their first eight bytes;
  a context is zeroed when it is handed out. The pool fulfils the contract of \<open>Block_Pool\<close>.
\<close>

section \<open>The code\<close>

text \<open>
  \<^verbatim>\<open>sizeof(ctxalloc_block_t)\<close> is that of \<^verbatim>\<open>req_ctx_t\<close>: two blocks, two sizes, an id and three flags, aligned to
  16; \<^verbatim>\<open>sizeof(ctxalloc_t)\<close> is a pointer and two counters.
\<close>

definition sizeof_ctxalloc_block_t :: nat where "sizeof_ctxalloc_block_t = 80"
definition sizeof_ctxalloc_t :: nat where "sizeof_ctxalloc_t = 16"

record ctxalloc_t =
  free_ctxs :: addr
  capacity :: u32
  available :: u32

definition ctxa_footprint :: "u32 \<Rightarrow> u32" where
  "ctxa_footprint count =
     ucast (ucast count * of_nat sizeof_ctxalloc_block_t + of_nat sizeof_ctxalloc_t :: u64)"

text \<open>The loop over \<^verbatim>\<open>i < count - 1\<close>.\<close>

fun ctxa_link :: "nat list \<Rightarrow> mem \<Rightarrow> addr \<Rightarrow> mem option" where
  "ctxa_link [] m pool = Some m"
| "ctxa_link (i # rest) m pool = do {
     m \<leftarrow> store_ptr m (pool + i * sizeof_ctxalloc_block_t) (pool + (i + 1) * sizeof_ctxalloc_block_t);
     ctxa_link rest m pool }"

definition ctxa_init :: "mem \<Rightarrow> addr \<Rightarrow> u32 \<Rightarrow> (ctxalloc_t \<times> mem) option" where
  "ctxa_init m pool count = do {
     m \<leftarrow> ctxa_link [0..<unat (count - 1)] m pool;
     m \<leftarrow> store_ptr m (pool + unat (count - 1) * sizeof_ctxalloc_block_t) 0;
     Some (\<lparr>free_ctxs = pool, capacity = count, available = count\<rparr>, m) }"

text \<open>\<^const>\<open>None\<close> inside the result is \<^verbatim>\<open>NULL\<close>; \<^verbatim>\<open>memset\<close> with 0 is \<^const>\<open>secure_zero\<close>.\<close>

definition ctxa_alloc :: "ctxalloc_t \<times> mem \<Rightarrow> (addr option \<times> ctxalloc_t \<times> mem) option" where
  "ctxa_alloc = (\<lambda>(alloc, m).
     let block = free_ctxs alloc
     in if block = 0 then Some (None, alloc, m)
        else do {
          p \<leftarrow> load_ptr m block;
          let alloc = alloc\<lparr>free_ctxs := p, available := available alloc - 1\<rparr>;
          m \<leftarrow> secure_zero m block sizeof_ctxalloc_block_t;
          Some (Some block, alloc, m) })"

definition ctxa_free :: "ctxalloc_t \<times> mem \<Rightarrow> addr \<Rightarrow> (ctxalloc_t \<times> mem) option" where
  "ctxa_free = (\<lambda>(alloc, m) block. do {
     m \<leftarrow> store_ptr m block (free_ctxs alloc);
     Some (alloc\<lparr>free_ctxs := block, available := available alloc + 1\<rparr>, m) })"


section \<open>The invariant\<close>

abbreviation csz :: nat where "csz \<equiv> sizeof_ctxalloc_block_t"

definition ctx_slots :: "addr \<Rightarrow> nat \<Rightarrow> addr set" where
  "ctx_slots base n = (\<lambda>i. base + i * csz) ` {..<n}"

definition ctx_free_list :: "ctxalloc_t \<Rightarrow> mem \<Rightarrow> addr list" where
  "ctx_free_list a m = free_list m (free_ctxs a) (unat (available a))"

text \<open>\<open>n\<close> contexts from \<open>base\<close> on, of which those in \<open>B\<close> are handed out.\<close>

definition ctx_inv :: "addr \<Rightarrow> nat \<Rightarrow> ctxalloc_t \<times> mem \<Rightarrow> addr set \<Rightarrow> bool" where
  "ctx_inv base n = (\<lambda>(a, m) B.
     0 < base \<and> base + n * csz < 2 ^ 64 \<and> bytes base (n * csz) \<subseteq> dom m \<and> n < 2 ^ 32 \<and>
     flist m (free_ctxs a) (ctx_free_list a m) \<and> distinct (ctx_free_list a m) \<and>
     length (ctx_free_list a m) = unat (available a) \<and>
     set (ctx_free_list a m) \<inter> B = {} \<and> set (ctx_free_list a m) \<union> B = ctx_slots base n)"

lemma ctx_invI:
  assumes "0 < base" "base + n * csz < 2 ^ 64" "bytes base (n * csz) \<subseteq> dom m" "n < 2 ^ 32"
    and "flist m (free_ctxs a) fl" "distinct fl" "length fl = unat (available a)"
    and "set fl \<inter> B = {}" "set fl \<union> B = ctx_slots base n"
  shows "ctx_inv base n (a, m) B" "ctx_free_list a m = fl"
proof -
  show "ctx_free_list a m = fl"
    unfolding ctx_free_list_def assms(7) [symmetric] by (rule free_list_flist [OF assms(5)])
  then show "ctx_inv base n (a, m) B" using assms by (simp add: ctx_inv_def)
qed

lemma ctx_invD:
  assumes "ctx_inv base n (a, m) B"
  shows "0 < base" "base + n * csz < 2 ^ 64" "bytes base (n * csz) \<subseteq> dom m" "n < 2 ^ 32"
    "flist m (free_ctxs a) (ctx_free_list a m)" "distinct (ctx_free_list a m)"
    "length (ctx_free_list a m) = unat (available a)"
    "set (ctx_free_list a m) \<inter> B = {}" "set (ctx_free_list a m) \<union> B = ctx_slots base n"
  using assms by (simp_all add: ctx_inv_def)

lemma csz_pos: "0 < csz" "8 \<le> csz"
  by (simp_all add: sizeof_ctxalloc_block_t_def)

lemma ctx_slot_bytes:
  assumes "b \<in> ctx_slots base n"
  shows "bytes b csz \<subseteq> bytes base (n * csz)" "bytes b 8 \<subseteq> bytes b csz"
proof -
  obtain i where i: "i < n" "b = base + i * csz" using assms by (auto simp: ctx_slots_def)
  have "i * csz + csz = Suc i * csz" by simp
  also have "\<dots> \<le> n * csz" using i(1) by (intro mult_right_mono) auto
  finally show "bytes b csz \<subseteq> bytes base (n * csz)" using i(2) by auto
  show "bytes b 8 \<subseteq> bytes b csz" using csz_pos(2) by auto
qed

lemma ctx_slots_disjoint:
  assumes "b \<in> ctx_slots base n" "b' \<in> ctx_slots base n" "b \<noteq> b'"
  shows "bytes b csz \<inter> bytes b' csz = {}"
proof -
  obtain i j where ij: "b = base + i * csz" "b' = base + j * csz" "i \<noteq> j"
    using assms by (auto simp: ctx_slots_def)
  have "bytes (base + p * csz) csz \<inter> bytes (base + q * csz) csz = {}" if "p < q" for p q
  proof -
    have "p * csz + csz \<le> q * csz" using mult_right_mono [of "Suc p" q csz] that by simp
    then show ?thesis by auto
  qed
  then show ?thesis using ij by (metis Int_commute nat_neq_iff)
qed

text \<open>Writing a context that is out does not touch the free list.\<close>

lemma flist_write_ctx:
  assumes "flist m p fl" "set fl \<subseteq> ctx_slots base n" "b \<in> ctx_slots base n" "b \<notin> set fl"
    and "\<And>x. x \<notin> bytes b csz \<Longrightarrow> m' x = m x"
  shows "flist m' p fl"
proof -
  have "m x = m' x" if "a \<in> set fl" "x \<in> bytes a 8" for a x
  proof -
    have "a \<in> ctx_slots base n" "a \<noteq> b" using that assms(2,4) by auto
    then have "bytes a csz \<inter> bytes b csz = {}" using ctx_slots_disjoint assms(3) by blast
    then show ?thesis
      using assms(5) [of x] ctx_slot_bytes(2) [OF \<open>a \<in> ctx_slots base n\<close>] that(2) by fastforce
  qed
  then show ?thesis using flist_cong [of fl m m' p] assms(1) by simp
qed

lemma ctx_slots_card: "card (ctx_slots base n) = n"
  unfolding ctx_slots_def using csz_pos by (subst card_image) (auto simp: inj_on_def)

lemma finite_ctx_slots [simp]: "finite (ctx_slots base n)"
  by (simp add: ctx_slots_def)


section \<open>The operations\<close>

lemma ctxa_alloc_null:
  assumes "ctx_inv base n (a, m) B" "ctx_free_list a m = []"
  shows "ctxa_alloc (a, m) = Some (None, a, m)" "B = ctx_slots base n"
  using ctx_invD(5,9) [OF assms(1)] assms(2) by (simp_all add: ctxa_alloc_def)

lemma ctxa_alloc_ok:
  assumes inv: "ctx_inv base n (a, m) B" and ne: "ctx_free_list a m \<noteq> []"
  obtains b a' m' where "ctxa_alloc (a, m) = Some (Some b, a', m')" "b \<in> ctx_slots base n" "b \<notin> B"
    "ctx_inv base n (a', m') (insert b B)" "\<And>x. x \<in> bytes b csz \<Longrightarrow> m' x = Some 0"
    "\<And>x. x \<notin> bytes b csz \<Longrightarrow> m' x = m x" "unat (available a) = Suc (unat (available a'))"
proof -
  note d = ctx_invD [OF inv]
  obtain b fl where fl: "ctx_free_list a m = b # fl" using ne by (cases "ctx_free_list a m") auto
  obtain p where p: "load_ptr m b = Some p" "flist m p fl" "free_ctxs a = b" "b \<noteq> 0"
    using d(5) fl by (auto split: option.splits)
  have b: "b \<in> ctx_slots base n" "b \<notin> B" "b \<notin> set fl" "set fl \<subseteq> ctx_slots base n"
    using d(6,8,9) fl by auto
  have dom: "bytes b csz \<subseteq> dom m" using ctx_slot_bytes(1) [OF b(1)] d(3) by blast
  obtain m' where m': "secure_zero m b csz = Some m'" "\<And>x. m' x = (if x \<in> bytes b csz then Some 0 else m x)"
    using secure_zero_Some [OF dom] by auto
  let ?a = "a\<lparr>free_ctxs := p, available := available a - 1\<rparr>"
  have len: "unat (available a) = Suc (length fl)" using d(7) fl by simp
  then have dec: "unat (available a - 1) = length fl"
    by (subst unat_sub) (auto simp: word_le_nat_alt)
  have fr: "m' x = m x" if "x \<notin> bytes b csz" for x using m'(2) that by (simp only: if_False)
  have "flist m' p fl" using flist_write_ctx [OF p(2) b(4,1,3) fr] .
  moreover have "dom m' = dom m" using secure_zero_dom [OF m'(1)] .
  ultimately have "ctx_inv base n (?a, m') (insert b B)"
    using d fl b dec by (intro ctx_invI(1) [where fl = fl]) auto
  moreover have "ctxa_alloc (a, m) = Some (Some b, ?a, m')"
    using p m'(1) by (simp add: ctxa_alloc_def Let_def)
  moreover have "m' x = Some 0" if "x \<in> bytes b csz" for x using m'(2) that by (simp only: if_True)
  ultimately show ?thesis using that [of b ?a m'] b(1,2) fr len dec by simp
qed

lemma ctxa_free_ok:
  assumes inv: "ctx_inv base n (a, m) B" and b: "b \<in> B"
  obtains a' m' where "ctxa_free (a, m) b = Some (a', m')" "ctx_inv base n (a', m') (B - {b})"
    "\<And>x. x \<notin> bytes b 8 \<Longrightarrow> m' x = m x"
proof -
  note d = ctx_invD [OF inv]
  let ?fl = "ctx_free_list a m"
  have bs: "b \<in> ctx_slots base n" "b \<notin> set ?fl" "set ?fl \<subseteq> ctx_slots base n" using d(8,9) b by auto
  have dom: "bytes b 8 \<subseteq> dom m" using ctx_slot_bytes [OF bs(1)] d(3) by blast
  obtain m' where m': "store_ptr m b (free_ctxs a) = Some m'" using store_ptr_Some [OF dom] by blast
  have fr: "m' x = m x" if "x \<notin> bytes b 8" for x using store_ptr_frame [OF m' that] .
  have "m' x = m x" if "x \<notin> bytes b csz" for x using fr that ctx_slot_bytes(2) [OF bs(1)] by blast
  then have "flist m' (free_ctxs a) ?fl" by (rule flist_write_ctx [OF d(5) bs(3,1,2)])
  moreover have "base \<le> b" using bs(1) by (auto simp: ctx_slots_def)
  moreover have "free_ctxs a < 2 ^ 64"
  proof (cases ?fl)
    case (Cons c cs)
    then have "free_ctxs a \<in> ctx_slots base n" using d(5) bs(3) by auto
    then show ?thesis using ctx_slot_bytes(1) csz_pos(1) d(2) by fastforce
  qed (use d(5) in simp)
  ultimately have fl: "flist m' b (b # ?fl)" using load_store_ptr [OF m'] d(1) by simp
  have "card (set ?fl) < card (ctx_slots base n)" using bs by (intro psubset_card_mono) auto
  then have "length ?fl < n" using distinct_card [OF d(6)] ctx_slots_card by simp
  then have inc: "unat (available a + 1) = Suc (length ?fl)"
    using d(4,7) by (simp add: unat_word_ariths)
  let ?a = "a\<lparr>free_ctxs := b, available := available a + 1\<rparr>"
  have "ctx_inv base n (?a, m') (B - {b})"
    using d store_ptr_dom [OF m'] fl inc bs b by (intro ctx_invI(1) [where fl = "b # ?fl"]) auto
  moreover have "ctxa_free (a, m) b = Some (?a, m')" using m' by (simp add: ctxa_free_def)
  ultimately show ?thesis using that fr by blast
qed

interpretation cp: block_pool "ctx_inv base n" "\<lambda>b. bytes b csz" "\<lambda>_ :: unit. True"
  "\<lambda>s _. ctxa_alloc s" ctxa_free for base :: addr and n :: nat
proof (unfold_locales, goal_cases)
  case (1 s B b b')
  obtain a m where s: "s = (a, m)" by (cases s)
  then have "B \<subseteq> ctx_slots base n" using ctx_invD(9) 1(1) by blast
  then show ?case using ctx_slots_disjoint 1 by blast
next
  case (2 s B r)
  obtain a m where s: "s = (a, m)" by (cases s)
  then have inv: "ctx_inv base n (a, m) B" using 2 by simp
  show ?case
  proof (cases "ctx_free_list a m = []")
    case True
    then show ?thesis using ctxa_alloc_null(1) [OF inv] s by simp
  next
    case False
    then show ?thesis unfolding s by (rule ctxa_alloc_ok [OF inv]) blast
  qed
next
  case (3 s B b)
  obtain a m where s: "s = (a, m)" by (cases s)
  then have "ctx_inv base n (a, m) B" using 3 by simp
  then show ?case unfolding s using 3(2) by (rule ctxa_free_ok) blast
qed


section \<open>Initialisation\<close>

lemma ctxa_link_append:
  "ctxa_link (is @ js) m pool = Option.bind (ctxa_link is m pool) (\<lambda>m. ctxa_link js m pool)"
  by (induction "is" arbitrary: m) (auto split: bind_splits)

lemma load_other_ctx:
  assumes "store_ptr m (base + j * csz) p = Some m'" "i \<noteq> j"
  shows "load_ptr m' (base + i * csz) = load_ptr m (base + i * csz)"
proof (rule load_ptr_cong)
  fix x assume x: "x \<in> bytes (base + i * csz) 8"
  have ij: "base + i * csz \<in> ctx_slots base (Suc (max i j))" "base + j * csz \<in> ctx_slots base (Suc (max i j))"
    by (auto simp: ctx_slots_def)
  have "base + i * csz \<noteq> base + j * csz" using assms(2) csz_pos(1) by simp
  from ctx_slots_disjoint [OF ij this] have "x \<notin> bytes (base + j * csz) 8"
    using x ctx_slot_bytes(2) [OF ij(1)] ctx_slot_bytes(2) [OF ij(2)] by blast
  then show "m' x = m x" using store_ptr_frame [OF assms(1)] by blast
qed

lemma ctxa_link_ok:
  assumes "base + n * csz < 2 ^ 64"
  shows "k < n \<Longrightarrow> bytes base (n * csz) \<subseteq> dom m \<Longrightarrow>
    \<exists>m'. ctxa_link [0..<k] m base = Some m' \<and> dom m' = dom m \<and>
      (\<forall>i<k. load_ptr m' (base + i * csz) = Some (base + (i + 1) * csz))"
proof (induction k)
  case (Suc k)
  then obtain m1 where m1: "ctxa_link [0..<k] m base = Some m1" "dom m1 = dom m"
      "\<And>i. i < k \<Longrightarrow> load_ptr m1 (base + i * csz) = Some (base + (i + 1) * csz)"
    by auto
  have k: "base + k * csz \<in> ctx_slots base n" using Suc.prems(1) by (auto simp: ctx_slots_def)
  have "bytes (base + k * csz) 8 \<subseteq> dom m1"
    using ctx_slot_bytes [OF k] Suc.prems(2) m1(2) by blast
  then obtain m' where m': "store_ptr m1 (base + k * csz) (base + (k + 1) * csz) = Some m'"
    using store_ptr_Some by blast
  have "(k + 1) * csz \<le> n * csz" using Suc.prems(1) by (intro mult_right_mono) auto
  then have "load_ptr m' (base + k * csz) = Some (base + (k + 1) * csz)"
    using assms by (intro load_store_ptr [OF m']) linarith
  moreover have "load_ptr m' (base + i * csz) = Some (base + (i + 1) * csz)" if "i < k" for i
    using load_other_ctx [OF m'] m1(3) that by simp
  ultimately have "\<forall>i<Suc k. load_ptr m' (base + i * csz) = Some (base + (i + 1) * csz)"
    using less_Suc_eq by auto
  moreover have "ctxa_link [0..<Suc k] m base = Some m'"
    using m1(1) m' by (simp add: ctxa_link_append)
  ultimately show ?case using store_ptr_dom [OF m'] m1(2) by auto
qed simp

lemma ctxa_init_ok:
  assumes "0 < base" "0 < count" "base + unat count * csz < 2 ^ 64"
    "bytes base (unat count * csz) \<subseteq> dom m"
  obtains a m' where "ctxa_init m base count = Some (a, m')" "ctx_inv base (unat count) (a, m') {}"
    "available a = count"
proof -
  let ?n = "unat count"
  obtain k where k: "?n = Suc k" using assms(2) by (cases ?n) (auto simp: word_less_nat_alt)
  have k': "unat (count - 1) = k" using k by (subst unat_sub) (auto simp: word_le_nat_alt)
  obtain m1 where m1: "ctxa_link [0..<k] m base = Some m1" "dom m1 = dom m"
      "\<And>i. i < k \<Longrightarrow> load_ptr m1 (base + i * csz) = Some (base + (i + 1) * csz)"
    using ctxa_link_ok [OF assms(3), of k m] assms(4) k by auto
  have ks: "base + k * csz \<in> ctx_slots base ?n" using k by (auto simp: ctx_slots_def)
  have "bytes (base + k * csz) 8 \<subseteq> dom m1" using ctx_slot_bytes [OF ks] assms(4) m1(2) by blast
  then obtain m' where m': "store_ptr m1 (base + k * csz) 0 = Some m'" using store_ptr_Some by blast
  have last: "load_ptr m' (base + k * csz) = Some 0" by (rule load_store_ptr [OF m']) simp
  have step: "load_ptr m' (base + i * csz) = Some (base + (i + 1) * csz)" if "i < k" for i
    using load_other_ctx [OF m'] m1(3) that by simp
  define fl where "fl j = map (\<lambda>i. base + i * csz) [j..<?n]" for j
  have "flist m' (base + j * csz) (fl j)" if "j \<le> k" for j
    using that
  proof (induction "k - j" arbitrary: j)
    case 0
    then show ?case using last k assms(1) by (simp add: fl_def)
  next
    case (Suc d)
    then have j: "j < k" by simp
    have "flist m' (base + Suc j * csz) (fl (Suc j))" using Suc by (intro Suc.hyps(1)) auto
    moreover have "fl j = (base + j * csz) # fl (Suc j)" using j k by (simp add: fl_def upt_conv_Cons)
    ultimately show ?case using step [OF j] assms(1) by simp
  qed
  from this [of 0] have fl: "flist m' base (fl 0)" by simp
  let ?a = "\<lparr>free_ctxs = base, capacity = count, available = count\<rparr>"
  have "distinct (fl 0)" using csz_pos(1) by (auto simp: fl_def distinct_map inj_on_def)
  moreover have "set (fl 0) = ctx_slots base ?n" by (auto simp: fl_def ctx_slots_def)
  moreover have "?n < 2 ^ 32" using unsigned_less [of count, where 'a = nat] by simp
  ultimately have "ctx_inv base ?n (?a, m') {}"
    using assms fl store_ptr_dom [OF m'] m1(2)
    by (intro ctx_invI(1) [where fl = "fl 0"]) (auto simp: fl_def)
  moreover have "ctxa_init m base count = Some (?a, m')"
    using m1(1) m' k' by (simp add: ctxa_init_def)
  ultimately show ?thesis using that by simp
qed

text \<open>
  C30: the pool of request contexts. Starting from what \<^verbatim>\<open>ctxa_init\<close> sets up, any history of allocations and
  releases of what is held stays inside the pool's memory, and contexts that are held at the same time share
  no byte.
\<close>

theorem ctx_pool_run:
  assumes "0 < base" "0 < count" "base + unat count * csz < 2 ^ 64"
    and "{base..<base + unat count * csz} \<subseteq> dom m"
  shows "\<exists>a m' s' held. ctxa_init m base count = Some (a, m') \<and> cp.run es (a, m') [] = Some (s', held) \<and>
    distinct held \<and> (\<forall>b\<in>set held. \<forall>b'\<in>set held. b \<noteq> b' \<longrightarrow>
      {b..<b + csz} \<inter> {b'..<b' + csz} = {})"
proof -
  obtain a m' where i: "ctxa_init m base count = Some (a, m')" "ctx_inv base (unat count) (a, m') {}"
    using ctxa_init_ok [OF assms] by blast
  have "\<forall>e\<in>set es. case e of Inl r \<Rightarrow> True | Inr _ \<Rightarrow> True" by (auto split: sum.splits)
  then show ?thesis using cp.run_disjoint [OF i(2)] i(1) by blast
qed

theorem ctx_pool_run_witness:
  "\<exists>a m' s' held. ctxa_init (\<lambda>_. Some 0) 4096 8192 = Some (a, m') \<and>
    cp.run [Inl (), Inl (), Inr 1, Inl ()] (a, m') [] = Some (s', held) \<and> distinct held"
proof -
  have "(0 :: nat) < 4096" "(0 :: u32) < 8192" "4096 + unat (8192 :: u32) * csz < 2 ^ 64"
      "{4096..<4096 + unat (8192 :: u32) * csz} \<subseteq> dom (\<lambda>_ :: addr. Some (0 :: u8))"
    by (auto simp: sizeof_ctxalloc_block_t_def)
  from ctx_pool_run [OF this, of "[Inl (), Inl (), Inr 1, Inl ()]"] show ?thesis by blast
qed

text \<open>
  C31: \<^verbatim>\<open>ctxa_alloc\<close> returns \<^verbatim>\<open>NULL\<close>, without effect, exactly when all contexts are out; otherwise the context it
  returns is not one of those and all its bytes are zero, whatever its last user left there.
\<close>

theorem ctx_alloc_zeroed:
  assumes "ctx_inv base n (a, m) B"
  shows "if available a = 0 then ctxa_alloc (a, m) = Some (None, a, m) \<and> card B = n
    else \<exists>b a' m'. ctxa_alloc (a, m) = Some (Some b, a', m') \<and> b \<notin> B \<and>
      ctx_inv base n (a', m') (insert b B) \<and> load_bytes m' b csz = Some (replicate csz 0) \<and>
      unat (available a') = unat (available a) - 1"
proof (cases "ctx_free_list a m = []")
  case True
  then have "available a = 0" using ctx_invD(7) [OF assms] by (simp add: unat_eq_0)
  then show ?thesis using ctxa_alloc_null [OF assms True] ctx_slots_card by simp
next
  case False
  then have ne: "available a \<noteq> 0" using ctx_invD(7) [OF assms] by (cases "ctx_free_list a m") auto
  obtain b a' m' where r: "ctxa_alloc (a, m) = Some (Some b, a', m')" "b \<notin> B"
      "ctx_inv base n (a', m') (insert b B)" "\<And>x. x \<in> bytes b csz \<Longrightarrow> m' x = Some 0"
      "unat (available a) = Suc (unat (available a'))"
    using ctxa_alloc_ok [OF assms False] by metis
  have "load_bytes m' b csz = Some (replicate csz 0)"
    using load_bytes_eq [of "replicate csz 0" m' b] r(4) by simp
  then show ?thesis using r ne by auto
qed

theorem ctx_alloc_zeroed_witness:
  "\<exists>a m b a' m'. ctxa_init (\<lambda>_. Some 255) 4096 8192 = Some (a, m) \<and>
    ctxa_alloc (a, m) = Some (Some b, a', m') \<and> load_bytes m' b csz = Some (replicate csz 0)"
proof -
  have "(0 :: nat) < 4096" "(0 :: u32) < 8192" "4096 + unat (8192 :: u32) * csz < 2 ^ 64"
      "{4096..<4096 + unat (8192 :: u32) * csz} \<subseteq> dom (\<lambda>_ :: addr. Some (255 :: u8))"
    by (auto simp: sizeof_ctxalloc_block_t_def)
  then obtain a m where a: "ctxa_init (\<lambda>_. Some 255) 4096 8192 = Some (a, m)"
      "ctx_inv 4096 (unat (8192 :: u32)) (a, m) {}" "available a = 8192"
    by (rule ctxa_init_ok)
  show ?thesis using ctx_alloc_zeroed [OF a(2)] a(1,3) by auto
qed

text \<open>
  \<^verbatim>\<open>ctxa_footprint\<close> does not overflow for the number of contexts the server asks for, and covers the
  contexts and the header.
\<close>

lemma ctx_footprint_exact:
  assumes "unat count * csz + sizeof_ctxalloc_t < 2 ^ 32"
  shows "unat (ctxa_footprint count) = unat count * csz + sizeof_ctxalloc_t"
proof -
  have "unat (ucast count * of_nat csz + of_nat sizeof_ctxalloc_t :: u64) = unat count * csz + sizeof_ctxalloc_t"
    using assms unat_of_nat_small [of "unat count * csz + sizeof_ctxalloc_t"] by (simp add: of_nat_unat)
  then show ?thesis
    using assms by (simp add: ctxa_footprint_def unsigned_ucast_eq take_bit_nat_eq_self)
qed

end
