(* ===== verification/Hex_Id.thy ===== *)
theory Hex_Id
  imports Keys
begin

unbundle bit_operations_syntax

text \<open>
  C strings and the ids of \<^verbatim>\<open>/blob/<id>\<close>: 32 hexadecimal digits, read by \<^verbatim>\<open>id_hex_to_bytes\<close> of
  \<^verbatim>\<open>server.c\<close> into the 16 bytes of a key.
\<close>

section \<open>C strings\<close>

text \<open>
  A C string is the list of its characters, without the terminator; reading at its length
  gives the terminator, reading further is undefined.
\<close>

definition NUL :: char where "NUL = CHR 0x00"

definition char_at :: "string \<Rightarrow> nat \<Rightarrow> char option" where
  "char_at s i = (if i < length s then Some (s ! i) else if i = length s then Some NUL else None)"

text \<open>
  \<^verbatim>\<open>0 == strncmp(a, b, n)\<close>, and \<^verbatim>\<open>0 == memcmp(a, b, n)\<close> for a literal \<open>b\<close> of \<open>n\<close> bytes including its
  terminator, where the bytes behind the terminator of \<open>a\<close> cannot change the result.
\<close>

definition strncmp_eq :: "string \<Rightarrow> string \<Rightarrow> nat \<Rightarrow> bool" where
  "strncmp_eq a b n \<longleftrightarrow> take n (a @ [NUL]) = take n (b @ [NUL])"

definition strnlen :: "string \<Rightarrow> nat \<Rightarrow> nat" where
  "strnlen s n = min (length s) n"

text \<open>No string holds the terminator as one of its characters.\<close>

definition cstr :: "string \<Rightarrow> bool" where
  "cstr s \<longleftrightarrow> NUL \<notin> set s"

lemma strncmp_eq_whole:
  assumes "cstr a" "cstr b" "length b < n"
  shows "strncmp_eq a b n \<longleftrightarrow> a = b"
proof
  assume eq: "strncmp_eq a b n"
  then have e: "take n (a @ [NUL]) = b @ [NUL]" using assms(3) by (simp add: strncmp_eq_def)
  have "length a < n"
  proof (rule ccontr)
    assume "\<not> length a < n"
    then have "take n a = b @ [NUL]" using e by simp
    then have "NUL \<in> set (take n a)" by simp
    then have "NUL \<in> set a" by (rule in_set_takeD)
    then show False using assms(1) by (simp add: cstr_def)
  qed
  then show "a = b" using e by simp
qed (simp add: strncmp_eq_def)


section \<open>The code\<close>

text \<open>\<^verbatim>\<open>HEXVAL\<close>: the entry of every other character is \<^verbatim>\<open>(signed char)0x80\<close>, read as \<^verbatim>\<open>unsigned\<close>.\<close>

definition hex_digits :: "(char \<times> u32) list" where
  "hex_digits =
    [(CHR ''0'', 0), (CHR ''1'', 1), (CHR ''2'', 2), (CHR ''3'', 3), (CHR ''4'', 4),
     (CHR ''5'', 5), (CHR ''6'', 6), (CHR ''7'', 7), (CHR ''8'', 8), (CHR ''9'', 9),
     (CHR ''A'', 10), (CHR ''B'', 11), (CHR ''C'', 12), (CHR ''D'', 13), (CHR ''E'', 14),
     (CHR ''F'', 15), (CHR ''a'', 10), (CHR ''b'', 11), (CHR ''c'', 12), (CHR ''d'', 13),
     (CHR ''e'', 14), (CHR ''f'', 15)]"

definition HEXVAL :: "char \<Rightarrow> u32" where
  "HEXVAL c = (case map_of hex_digits c of None \<Rightarrow> - 128 | Some v \<Rightarrow> v)"

definition ID_LENGTH :: nat where "ID_LENGTH = 32"

text \<open>The loop over \<open>i\<close>; \<^const>\<open>None\<close> inside the option is the result \<^verbatim>\<open>false\<close>.\<close>

function id_hex_loop :: "string \<Rightarrow> nat \<Rightarrow> u8 list \<Rightarrow> u8 list option option" where
  "id_hex_loop s i out =
     (if i < ID_LENGTH then do {
        x \<leftarrow> char_at s i;
        y \<leftarrow> char_at s (i + 1);
        let a = HEXVAL x;
        let b = HEXVAL y;
        if (a OR b) AND 0x80 \<noteq> 0 then Some None
        else id_hex_loop s (i + 2) (out @ [ucast (push_bit 4 a OR b)]) }
      else Some (Some out))"
  by pat_completeness auto
termination by (relation "measure (\<lambda>(s, i, out). ID_LENGTH - i)") auto

declare id_hex_loop.simps [simp del]

definition id_hex_to_bytes :: "string \<Rightarrow> u8 list option option" where
  "id_hex_to_bytes s = id_hex_loop s 0 []"


section \<open>Digits\<close>

definition hex_value :: "char \<Rightarrow> nat option" where
  "hex_value c = map_option unat (map_of hex_digits c)"

text \<open>The digit of a nibble, in lower case.\<close>

definition hex_char :: "nat \<Rightarrow> char" where
  "hex_char d = ''0123456789abcdef'' ! d"

definition hex_of_bytes :: "u8 list \<Rightarrow> string" where
  "hex_of_bytes bs = concat (map (\<lambda>b. [hex_char (unat b div 16), hex_char (unat b mod 16)]) bs)"

lemma hex_value_cases:
  obtains "hex_value c = None" "HEXVAL c = - 128"
  | v where "v < 16" "hex_value c = Some v" "HEXVAL c = of_nat v"
proof (cases "map_of hex_digits c")
  case None
  then show ?thesis using that(1) by (simp add: hex_value_def HEXVAL_def)
next
  case (Some v)
  then have "(c, v) \<in> set hex_digits" by (rule map_of_SomeD)
  then have "unat v < 16" unfolding hex_digits_def set_simps insert_iff
    by (elim disjE emptyE) (auto dest: Pair_inject)
  then show ?thesis using that(2) [of "unat v"] Some by (simp add: hex_value_def HEXVAL_def)
qed

lemma nibble_range: "v < 16 \<Longrightarrow> v \<in> set [0..<16]" for v :: nat
  by simp

lemma hex_char_value: "v < 16 \<Longrightarrow> hex_value (hex_char v) = Some v"
proof -
  have "\<forall>v\<in>set [0..<16]. hex_value (hex_char v) = Some v" by code_simp
  then show "v < 16 \<Longrightarrow> hex_value (hex_char v) = Some v" by auto
qed

text \<open>The test of the high bit, and the byte of two digits.\<close>

lemma hex_bit_clear:
  assumes "v < 16" "w < 16"
  shows "((of_nat v :: u32) OR of_nat w) AND 0x80 = 0"
    "(ucast (push_bit 4 (of_nat v :: u32) OR of_nat w) :: u8) = of_nat (16 * v + w)"
proof -
  have "\<forall>v\<in>set [0..<16]. \<forall>w\<in>set [0..<16]. ((of_nat v :: u32) OR of_nat w) AND 0x80 = 0 \<and>
      (ucast (push_bit 4 (of_nat v :: u32) OR of_nat w) :: u8) = of_nat (16 * v + w)"
    by code_simp
  then show "((of_nat v :: u32) OR of_nat w) AND 0x80 = 0"
    "(ucast (push_bit 4 (of_nat v :: u32) OR of_nat w) :: u8) = of_nat (16 * v + w)"
    using assms by auto
qed

lemma hex_bit_set: "(- 128 OR x) AND 0x80 \<noteq> (0 :: u32)" "(x OR - 128) AND 0x80 \<noteq> (0 :: u32)"
proof -
  have "bit ((- 128 OR x) AND 0x80 :: u32) 7" "bit ((x OR - 128) AND 0x80 :: u32) 7"
    by (simp_all add: bit_and_iff bit_or_iff)
  then show "(- 128 OR x) AND 0x80 \<noteq> (0 :: u32)" "(x OR - 128) AND 0x80 \<noteq> (0 :: u32)" by auto
qed


section \<open>Decoding\<close>

fun hex_decode :: "string \<Rightarrow> u8 list option" where
  "hex_decode [] = Some []"
| "hex_decode [c] = None"
| "hex_decode (x # y # s) = do {
     v \<leftarrow> hex_value x;
     w \<leftarrow> hex_value y;
     bs \<leftarrow> hex_decode s;
     Some (of_nat (16 * v + w) # bs) }"

lemma char_at_less [simp]: "i < length s \<Longrightarrow> char_at s i = Some (s ! i)"
  by (simp add: char_at_def)

lemma id_hex_loop_decode:
  assumes "length s = ID_LENGTH"
  shows "i + 2 * n = ID_LENGTH \<Longrightarrow>
    id_hex_loop s i out = Some (map_option ((@) out) (hex_decode (drop i s)))"
proof (induction n arbitrary: i out)
  case 0
  then show ?case using assms by (subst id_hex_loop.simps) simp
next
  case (Suc n)
  then have i: "i < ID_LENGTH" "i + 1 < length s" "i < length s" using assms by auto
  have d: "drop i s = s ! i # s ! (i + 1) # drop (i + 2) s"
    using i by (simp add: Cons_nth_drop_Suc)
  note step = id_hex_loop.simps [of s i out]
  show ?case
  proof (cases rule: hex_value_cases [of "s ! i"])
    case 1
    then show ?thesis using i by (subst step) (simp add: hex_bit_set d)
  next
    case (2 v)
    note v = 2
    show ?thesis
    proof (cases rule: hex_value_cases [of "s ! (i + 1)"])
      case 1
      then show ?thesis using i v by (subst step) (simp add: hex_bit_set d)
    next
      case (2 w)
      have "id_hex_loop s i out = id_hex_loop s (i + 2) (out @ [of_nat (16 * v + w)])"
        using i v 2 hex_bit_clear [OF v(1) 2(1)] by (subst step) (simp add: Let_def)
      also have "\<dots> = Some (map_option ((@) (out @ [of_nat (16 * v + w)])) (hex_decode (drop (i + 2) s)))"
        using Suc.prems by (intro Suc.IH) simp
      finally show ?thesis
        using v 2 by (simp add: d option.map_comp o_def) (cases "hex_decode (drop (i + 2) s)"; simp)
    qed
  qed
qed

lemma id_hex_to_bytes_decode: "length s = ID_LENGTH \<Longrightarrow> id_hex_to_bytes s = Some (hex_decode s)"
  using id_hex_loop_decode [of s 0 16 "[]"]
  by (cases "hex_decode s") (simp_all add: id_hex_to_bytes_def ID_LENGTH_def)

text \<open>A character that is a digit, folded to lower case.\<close>

definition hex_fold :: "char \<Rightarrow> char" where
  "hex_fold c = (case hex_value c of None \<Rightarrow> c | Some v \<Rightarrow> hex_char v)"

lemma hex_value_less: "hex_value c = Some v \<Longrightarrow> v < 16"
  by (cases rule: hex_value_cases [of c]) auto

lemma unat_byte: "v < 16 \<Longrightarrow> w < 16 \<Longrightarrow> unat (of_nat (16 * v + w) :: u8) = 16 * v + w"
  by (simp only: unat_of_nat) simp

lemma byte_split: "w < 16 \<Longrightarrow> 16 * v + w = n \<longleftrightarrow> v = n div 16 \<and> w = n mod 16" for n :: nat
  by auto

lemma hex_decode_iff:
  "hex_decode s = Some bs \<longleftrightarrow> (\<forall>c\<in>set s. hex_value c \<noteq> None) \<and> map hex_fold s = hex_of_bytes bs"
proof (induction s arbitrary: bs rule: hex_decode.induct)
  case 1
  show ?case by (cases bs) (auto simp: hex_of_bytes_def)
next
  case (2 c)
  show ?case by (cases bs) (auto simp: hex_of_bytes_def)
next
  case (3 x y s)
  show ?case
  proof (cases "hex_value x = None \<or> hex_value y = None")
    case True
    then show ?thesis by auto
  next
    case False
    then obtain v w where vw: "hex_value x = Some v" "hex_value y = Some w" by auto
    note l = hex_value_less [OF vw(1)] hex_value_less [OF vw(2)]
    have inj: "hex_char a = hex_char b \<longleftrightarrow> a = b" if "a < 16" "b < 16" for a b
      using hex_char_value [OF that(1)] hex_char_value [OF that(2)] by (metis option.inject)
    show ?thesis
    proof (cases bs)
      case Nil
      then show ?thesis using vw by (cases "hex_decode s") (auto simp: hex_of_bytes_def)
    next
      case (Cons b bs')
      have b: "unat b div 16 < 16" using unsigned_less [of b, where 'a = nat] by simp
      have "of_nat (16 * v + w) = b \<longleftrightarrow> v = unat b div 16 \<and> w = unat b mod 16"
        unfolding word_unat_eq_iff unat_byte [OF l] using l(2) by (rule byte_split)
      then show ?thesis
        using vw 3 [OF vw, of bs'] Cons inj [OF l(1) b] inj [OF l(2), of "unat b mod 16"]
        by (cases "hex_decode s") (auto simp: hex_fold_def hex_of_bytes_def)
    qed
  qed
qed

lemma hex_of_bytes_length: "length (hex_of_bytes bs) = 2 * length bs"
  by (induction bs) (simp_all add: hex_of_bytes_def)

lemma hex_of_bytes_digits: "c \<in> set (hex_of_bytes bs) \<Longrightarrow> hex_value c \<noteq> None \<and> hex_fold c = c"
proof -
  assume "c \<in> set (hex_of_bytes bs)"
  then obtain b :: u8 where "c \<in> {hex_char (unat b div 16), hex_char (unat b mod 16)}"
    unfolding hex_of_bytes_def by auto
  moreover have "unat b div 16 < 16" using unsigned_less [of b, where 'a = nat] by simp
  ultimately show ?thesis using hex_char_value by (auto simp: hex_fold_def)
qed



text \<open>
  C26: printing a key in hexadecimal and reading it back gives the key.
\<close>

theorem id_hex_roundtrip:
  assumes "length bs = 16"
  shows "id_hex_to_bytes (hex_of_bytes bs) = Some (Some bs)"
proof -
  have "map hex_fold (hex_of_bytes bs) = hex_of_bytes bs"
    using hex_of_bytes_digits by (intro map_idI) blast
  then have "hex_decode (hex_of_bytes bs) = Some bs"
    unfolding hex_decode_iff using hex_of_bytes_digits by blast
  then show ?thesis
    using id_hex_to_bytes_decode [of "hex_of_bytes bs"] assms hex_of_bytes_length [of bs]
    by (simp add: ID_LENGTH_def)
qed

theorem id_hex_roundtrip_witness:
  "id_hex_to_bytes (hex_of_bytes (replicate 16 171)) = Some (Some (replicate 16 171))"
  using id_hex_roundtrip [of "replicate 16 171"] by simp

end
