(* ===== verification/Assets.thy ===== *)
theory Assets
  imports Hex_Id
begin

text \<open>
  The static assets of \<^verbatim>\<open>server.c\<close>: their names and types, the search by URL, and the places in the page
  where the uptime and the version are written.
\<close>

section \<open>The tables\<close>

text \<open>
  The tables depend on the build: \<open>assembled\<close> is \<^verbatim>\<open>ASSEMBLED_HTML\<close>, \<open>minify\<close> is \<^verbatim>\<open>JS_MINIFY\<close>. They are indexed by
  \<^verbatim>\<open>assets_id_t\<close>.
\<close>

definition content_type_html :: string where "content_type_html = ''text/html; charset=utf-8''"
definition content_type_css :: string where "content_type_css = ''text/css; charset=utf-8''"
definition content_type_js :: string where
  "content_type_js = ''application/javascript; charset=utf-8''"
definition content_type_png :: string where "content_type_png = ''image/png''"

definition asset_content_types :: "bool \<Rightarrow> string list" where
  "asset_content_types assembled =
     (if assembled then [content_type_html, content_type_html, content_type_html]
      else [content_type_html, content_type_html, content_type_html, content_type_css, content_type_css,
        content_type_js, content_type_js, content_type_js, content_type_js, content_type_js]) @
     [content_type_png, content_type_png]"

definition asset_file_paths :: "bool \<Rightarrow> bool \<Rightarrow> string list" where
  "asset_file_paths assembled minify =
     (if assembled then [''assets/client_assembled.html'', ''assets/client-simple_assembled.html'',
        ''assets/client-receive_assembled.html'']
      else [''assets/client.html'', ''assets/client-simple.html'', ''assets/client-receive.html'',
        ''assets/client.css'', ''assets/client-simple.css''] @
        (if minify then [''assets/client-shared.min.js'', ''assets/client-send.min.js'',
           ''assets/client-receive.min.js'', ''assets/client.min.js'', ''assets/qrcode.min.js'']
         else [''assets/client-shared.js'', ''assets/client-send.js'', ''assets/client-receive.js'',
           ''assets/client.js'', ''assets/qrcode.js''])) @
     [''assets/adnihilum128.png'', ''assets/og-image.png'']"

definition asset_paths :: "bool \<Rightarrow> string list" where
  "asset_paths assembled =
     (if assembled then [''/'', ''/simple'', ''/receive'']
      else [''/'', ''/simple'', ''/receive'', ''/client.css'', ''/client-simple.css'',
        ''/client-shared.js'', ''/client-send.js'', ''/client-receive.js'', ''/client.js'', ''/qrcode.js'']) @
     [''/adnihilum128.png'', ''/og-image.png'']"

definition ASSETS_COUNT :: "bool \<Rightarrow> nat" where
  "ASSETS_COUNT assembled = (if assembled then 3 else 10) + 2"

definition ASSET_PATH_STRING_MAX_SIZE :: nat where "ASSET_PATH_STRING_MAX_SIZE = 32"


section \<open>The search by URL\<close>

text \<open>The loop of \<^verbatim>\<open>asset_find\<close>; the result is the index of the asset, \<^const>\<open>None\<close> is \<^verbatim>\<open>false\<close>.\<close>

fun asset_find_loop :: "string \<Rightarrow> string list \<Rightarrow> nat \<Rightarrow> nat option" where
  "asset_find_loop url [] i = None"
| "asset_find_loop url (path # paths) i =
     (if strncmp_eq url path ASSET_PATH_STRING_MAX_SIZE then Some i
      else asset_find_loop url paths (i + 1))"

definition asset_find :: "bool \<Rightarrow> string \<Rightarrow> nat option" where
  "asset_find assembled url = asset_find_loop url (asset_paths assembled) 0"

lemma asset_tables:
  "length (asset_paths a) = ASSETS_COUNT a" "length (asset_content_types a) = ASSETS_COUNT a"
  "length (asset_file_paths a m) = ASSETS_COUNT a" "distinct (asset_paths a)"
  by (simp_all add: asset_paths_def asset_content_types_def asset_file_paths_def ASSETS_COUNT_def)

lemma asset_paths_short:
  "path \<in> set (asset_paths a) \<Longrightarrow> cstr path \<and> length path < ASSET_PATH_STRING_MAX_SIZE"
  by (cases a) (auto simp: asset_paths_def cstr_def NUL_def ASSET_PATH_STRING_MAX_SIZE_def)

lemma takeWhile_shorter: "x \<in> set xs \<Longrightarrow> length (takeWhile (\<lambda>y. y \<noteq> x) xs) < length xs"
  by (induction xs) auto

lemma asset_find_loop_spec:
  assumes "\<And>path. path \<in> set paths \<Longrightarrow> cstr path \<and> length path < ASSET_PATH_STRING_MAX_SIZE"
    and "cstr url"
  shows "asset_find_loop url paths i =
    (if url \<in> set paths then Some (i + length (takeWhile (\<lambda>p. p \<noteq> url) paths)) else None)"
  using assms(1)
proof (induction paths arbitrary: i)
  case (Cons p paths)
  have "strncmp_eq url p ASSET_PATH_STRING_MAX_SIZE \<longleftrightarrow> url = p"
    using strncmp_eq_whole [OF assms(2)] Cons.prems by simp
  then show ?case using Cons by auto
qed simp

text \<open>
  C32: \<^verbatim>\<open>asset_find\<close> finds an asset exactly for the URLs of the table, each URL its own asset: no prefix or
  extension of an asset's path is taken for it.
\<close>

theorem asset_find_spec:
  assumes "cstr url"
  shows "asset_find a url = Some i \<longleftrightarrow> i < ASSETS_COUNT a \<and> asset_paths a ! i = url"
proof -
  let ?ps = "asset_paths a" and ?n = "length (takeWhile (\<lambda>p. p \<noteq> url) (asset_paths a))"
  have f: "asset_find a url = (if url \<in> set ?ps then Some ?n else None)"
    unfolding asset_find_def using asset_find_loop_spec [OF asset_paths_short assms] by simp
  have at: "?n < length ?ps \<and> ?ps ! ?n = url" if "url \<in> set ?ps"
  proof -
    have "?n < length ?ps"
      using that by (rule takeWhile_shorter)
    then show ?thesis using nth_length_takeWhile [of "\<lambda>p. p \<noteq> url" ?ps] by simp
  qed
  show ?thesis
  proof
    assume "asset_find a url = Some i"
    then show "i < ASSETS_COUNT a \<and> ?ps ! i = url"
      using f at asset_tables(1) [of a] by (auto split: if_splits)
  next
    assume i: "i < ASSETS_COUNT a \<and> ?ps ! i = url"
    then have "url \<in> set ?ps" using asset_tables(1) [of a] by auto
    moreover from at [OF this] have "?n = i"
      using i asset_tables(1,4) [of a] by (metis nth_eq_iff_index_eq)
    ultimately show "asset_find a url = Some i" using f by simp
  qed
qed

theorem asset_find_spec_witness:
  "asset_find False ''/simple'' = Some 1 \<and> asset_find False ''/simple2'' \<noteq> Some 1"
  using asset_find_spec [of "''/simple''" False 1] asset_find_spec [of "''/simple2''" False 1]
  by (simp add: cstr_def NUL_def ASSETS_COUNT_def asset_paths_def)

end
