(* ===== verification/Handler.thy ===== *)
theory Handler
  imports Blob_Store Debouncer Ctxalloc Assets
begin

unbundle bit_operations_syntax

text \<open>
  The request handler of \<^verbatim>\<open>server.c\<close>: \<^verbatim>\<open>ahc\<close>, which libmicrohttpd calls one or more times per request, and
  \<^verbatim>\<open>req_done\<close>, which it calls once at the end. What the handler asks of libmicrohttpd is in the record of
  the call; what it answers is the record of the result.
\<close>

section \<open>State\<close>

datatype DEFERRED_ERROR_CODE = DEFERRED_ERROR_CODE_NO_ERROR | DEFERRED_ERROR_CODE_OOM | DEFERRED_ERROR_CODE_DUP

record req_ctx_t =
  post_body :: blk_t
  blob_send :: blk_t
  expected :: u64
  read_size :: u64
  ctx_id :: htable_key_t
  have_id :: bool
  deferred_error :: DEFERRED_ERROR_CODE
  rate_checked :: bool

text \<open>A context whose bytes are all zero.\<close>

definition zero_ctx :: req_ctx_t where
  "zero_ctx = \<lparr>post_body = null_blk, blob_send = null_blk, expected = 0, read_size = 0,
     ctx_id = null_key, have_id = False, deferred_error = DEFERRED_ERROR_CODE_NO_ERROR,
     rate_checked = False\<rparr>"

text \<open>
  The static variables of the server. \<open>ctxs\<close> gives the contents of the contexts that are handed out;
  the memory in \<open>ctx_pool\<close> is that of the pool's free list. \<open>pages\<close> are the assets by language and
  number; the pointers to the places for the uptime and the version are offsets into the page.
\<close>

record server =
  store :: storage
  ctx_pool :: "ctxalloc_t \<times> mem"
  ctxs :: "addr \<Rightarrow> req_ctx_t"
  deb :: debouncer
  pages :: "nat \<Rightarrow> nat \<Rightarrow> u8 list"
  html_uptime_ptr :: "nat \<Rightarrow> nat"
  html_version_ptr :: "nat \<Rightarrow> nat"
  start_time :: u32

text \<open>
  The build: whether the debouncer and the X-Forwarded-For header are used and whether the pages are assembled;
  the generated \<^verbatim>\<open>lang_from_str\<close> and \<^verbatim>\<open>AD_NIHILUM_VERSION\<close>; and of the C library \<^verbatim>\<open>inet_pton\<close> and
  \<^verbatim>\<open>printf\<close>'s \<^verbatim>\<open>%.1f\<close> of the uptime in hours.
\<close>

record config =
  use_debouncer :: bool
  use_tailscale :: bool
  assembled_html :: bool
  lang_from_str :: "string \<Rightarrow> nat"
  version_string :: string
  inet_pton4 :: "string \<Rightarrow> u8 list option"
  inet_pton6 :: "string \<Rightarrow> u8 list option"
  fmt_hours :: "u32 \<Rightarrow> string"

text \<open>
  One call of the handler: its arguments, the headers it looks up, the address of the peer, the clock, and
  what \<^verbatim>\<open>MHD_create_response_from_buffer\<close> and \<^verbatim>\<open>MHD_queue_response\<close> return.
\<close>

record mhd_call =
  url :: string
  meth :: string
  upload_data :: "u8 list"
  con_cls :: "addr option"
  hdr_content_length :: "string option"
  hdr_accept_language :: "string option"
  hdr_origin :: "string option"
  hdr_forwarded_for :: "string option"
  client_addr :: "sockaddr option"
  now_s :: u32
  now_tv_sec :: nat
  now_tv_nsec :: nat
  create_ok :: bool
  queue_ok :: bool

datatype body = Body_text string | Body_page nat nat | Body_blob blk_t | Body_empty

record response =
  code :: nat
  body :: body
  headers :: "(string \<times> string) list"

text \<open>
  What a call leaves behind: \<^verbatim>\<open>MHD_YES\<close> or \<^verbatim>\<open>MHD_NO\<close>, the response that was queued, whether
  \<^verbatim>\<open>*upload_data_size\<close> was set to 0, and \<^verbatim>\<open>*con_cls\<close>.
\<close>

record ahc_result =
  mhd_yes :: bool
  queued :: "response option"
  consumed :: bool
  new_con_cls :: "addr option"


section \<open>Responses\<close>

datatype HEADER_PROFILE = HP_OTHER | HP_HTML_VIEWER | HP_STATIC_ASSET | HP_API_BLOB

text \<open>The content security policy without the hashes of assembled pages.\<close>

definition csp :: string where
  "csp = ''default-src ''@[CHR 0x27]@''self''@[CHR 0x27]@''; script-src ''@[CHR 0x27]@''self''@[CHR 0x27]@
     ''; style-src ''@[CHR 0x27]@''self''@[CHR 0x27]@''; img-src ''@[CHR 0x27]@''self''@[CHR 0x27]@
     '' data:; connect-src ''@[CHR 0x27]@''self''@[CHR 0x27]@''; object-src ''@[CHR 0x27]@''none''@[CHR 0x27]@
     ''; base-uri ''@[CHR 0x27]@''none''@[CHR 0x27]@''; frame-ancestors ''@[CHR 0x27]@''none''@[CHR 0x27]@
     ''; form-action ''@[CHR 0x27]@''self''@[CHR 0x27]"

definition profile_headers :: "mhd_call \<Rightarrow> HEADER_PROFILE \<Rightarrow> (string \<times> string) list" where
  "profile_headers c profile = (case profile of
     HP_HTML_VIEWER \<Rightarrow>
       [(''Referrer-Policy'', ''no-referrer''), (''X-Frame-Options'', ''DENY''),
        (''Content-Security-Policy'', csp), (''Cross-Origin-Opener-Policy'', ''same-origin''),
        (''Cross-Origin-Resource-Policy'', ''same-site'')]
   | HP_STATIC_ASSET \<Rightarrow>
       [(''Referrer-Policy'', ''no-referrer''), (''X-Frame-Options'', ''DENY''),
        (''Cross-Origin-Opener-Policy'', ''same-origin'')]
   | _ \<Rightarrow>
       [(''Cache-Control'', ''no-store''), (''Referrer-Policy'', ''no-referrer'')] @
       (case hdr_origin c of
          None \<Rightarrow> []
        | Some origin \<Rightarrow>
            (if strncmp_eq origin ''null'' 5
             then [(''Access-Control-Allow-Origin'', ''null''), (''Vary'', ''Origin'')] else [])) @
       [(''Cross-Origin-Resource-Policy'', ''same-origin'')])"

text \<open>\<^verbatim>\<open>send_response\<close>: the result, and the response if it was queued.\<close>

definition send_response ::
    "mhd_call \<Rightarrow> nat \<Rightarrow> body \<Rightarrow> string option \<Rightarrow> HEADER_PROFILE \<Rightarrow> bool \<times> response option" where
  "send_response c status b content_type profile =
     (if \<not> create_ok c then (False, None)
      else
        (let resp = \<lparr>code = status, body = b, headers =
               [(''X-Content-Type-Options'', ''nosniff'')] @
               (case content_type of None \<Rightarrow> [] | Some t \<Rightarrow> [(''Content-Type'', t)]) @
               [(''Strict-Transport-Security'', ''max-age=31536000'')] @
               profile_headers c profile\<rparr>
         in (queue_ok c, if queue_ok c then Some resp else None)))"

definition send_text :: "mhd_call \<Rightarrow> nat \<Rightarrow> string \<Rightarrow> bool \<times> response option" where
  "send_text c status s = send_response c status (Body_text s) (Some ''text/plain; charset=utf-8'') HP_OTHER"

definition deferred_error_responses :: "DEFERRED_ERROR_CODE \<Rightarrow> nat \<times> string" where
  "deferred_error_responses e = (case e of
     DEFERRED_ERROR_CODE_NO_ERROR \<Rightarrow> (0, [])
   | DEFERRED_ERROR_CODE_OOM \<Rightarrow> (500, ''OOM!'')
   | DEFERRED_ERROR_CODE_DUP \<Rightarrow> (400, ''Duplicate!''))"

text \<open>The three ways the handler returns: with a response, with \<^verbatim>\<open>MHD_NO\<close>, with \<^verbatim>\<open>MHD_YES\<close> and the data consumed.\<close>

definition answer :: "addr \<Rightarrow> bool \<times> response option \<Rightarrow> ahc_result" where
  "answer ctx r = \<lparr>mhd_yes = fst r, queued = snd r, consumed = False, new_con_cls = Some ctx\<rparr>"

definition drop_connection :: "addr \<Rightarrow> ahc_result" where
  "drop_connection ctx = \<lparr>mhd_yes = False, queued = None, consumed = False, new_con_cls = Some ctx\<rparr>"

definition keep_reading :: "addr \<Rightarrow> ahc_result" where
  "keep_reading ctx = \<lparr>mhd_yes = True, queued = None, consumed = True, new_con_cls = Some ctx\<rparr>"


section \<open>The address of the client\<close>

definition INET6_ADDRSTRLEN :: nat where "INET6_ADDRSTRLEN = 46"

definition tailscale_forwarded_addr :: "config \<Rightarrow> mhd_call \<Rightarrow> sockaddr option" where
  "tailscale_forwarded_addr cfg c = (case hdr_forwarded_for c of
     None \<Rightarrow> None
   | Some xff \<Rightarrow>
       (let len = length (takeWhile (\<lambda>ch. ch \<noteq> CHR '','') xff);
            len = (if INET6_ADDRSTRLEN \<le> len then INET6_ADDRSTRLEN - 1 else len);
            buf = take len xff
        in if xff = [] \<or> len = 0 then None
           else case inet_pton4 cfg buf of
             Some bs \<Rightarrow> Some (Sockaddr_in bs)
           | None \<Rightarrow> map_option Sockaddr_in6 (inet_pton6 cfg buf)))"

definition connection_peer_addr :: "config \<Rightarrow> mhd_call \<Rightarrow> sockaddr option" where
  "connection_peer_addr cfg c =
     (case (if use_tailscale cfg then tailscale_forwarded_addr cfg c else None) of
        Some sa \<Rightarrow> Some sa
      | None \<Rightarrow> client_addr c)"


section \<open>Numbers as text\<close>

text \<open>\<^verbatim>\<open>strtoul(s, NULL, 10)\<close>: white space, a sign, digits; \<^verbatim>\<open>ULONG_MAX\<close> when the number is too large.\<close>

definition ULONG_MAX :: u64 where "ULONG_MAX = 0xFFFFFFFFFFFFFFFF"

definition c_isspace :: "char \<Rightarrow> bool" where
  "c_isspace ch \<longleftrightarrow> ch = CHR '' '' \<or> of_char ch \<in> {9 :: nat, 10, 11, 12, 13}"

definition c_isdigit :: "char \<Rightarrow> bool" where
  "c_isdigit ch \<longleftrightarrow> 48 \<le> (of_char ch :: nat) \<and> (of_char ch :: nat) \<le> 57"

definition digits_value :: "string \<Rightarrow> nat" where
  "digits_value ds = foldl (\<lambda>n ch. 10 * n + (of_char ch - 48)) 0 ds"

definition strtoul10 :: "string \<Rightarrow> u64" where
  "strtoul10 s =
     (let s = dropWhile c_isspace s;
          negative = (s \<noteq> [] \<and> hd s = CHR ''-'');
          s = (if s \<noteq> [] \<and> hd s \<in> {CHR ''-'', CHR ''+''} then tl s else s);
          n = digits_value (takeWhile c_isdigit s)
      in if 2 ^ 64 \<le> n then ULONG_MAX else if negative then - of_nat n else of_nat n)"

text \<open>\<^verbatim>\<open>%zu\<close>.\<close>

fun dec_of_nat :: "nat \<Rightarrow> string" where
  "dec_of_nat n = (if n < 10 then [char_of (48 + n)] else dec_of_nat (n div 10) @ [char_of (48 + n mod 10)])"

declare dec_of_nat.simps [simp del]


section \<open>The pages\<close>

definition REPLACE_SIZE :: nat where "REPLACE_SIZE = 16"

text \<open>
  \<^verbatim>\<open>snprintf(ptr, REPLACE_SIZE, \<dots>)\<close> writes at most 15 characters and a terminator, which the next statement
  overwrites with a blank. Both formats pad to at least 15 characters.
\<close>

definition pad_right :: "nat \<Rightarrow> string \<Rightarrow> string" where
  "pad_right n s = s @ replicate (n - length s) CHR '' ''"

definition replace_text :: "string \<Rightarrow> u8 list" where
  "replace_text s = map of_char (take (REPLACE_SIZE - 1) s @ '' '')"

definition write_page :: "u8 list \<Rightarrow> nat \<Rightarrow> u8 list \<Rightarrow> u8 list option" where
  "write_page page at bs =
     (if at + length bs \<le> length page then Some (splice page at bs) else None)"

definition patch_root_page :: "config \<Rightarrow> mhd_call \<Rightarrow> nat \<Rightarrow> nat \<Rightarrow> server \<Rightarrow> server option" where
  "patch_root_page cfg c language i sv = do {
     let uptime = pad_right 14 (fmt_hours cfg (now_s c - start_time sv)) @ ''H'';
     page \<leftarrow> write_page (pages sv language i) (html_uptime_ptr sv language) (replace_text uptime);
     let version = take 15 (pad_right 15 (version_string cfg));
     page \<leftarrow> write_page page (html_version_ptr sv language) (replace_text version);
     Some (sv\<lparr>pages := (pages sv)(language := (pages sv language)(i := page))\<rparr>) }"

definition status_payload :: "config \<Rightarrow> mhd_call \<Rightarrow> server \<Rightarrow> string option" where
  "status_payload cfg c sv = do {
     stats \<leftarrow> storage_status (store sv);
     let blobs_in_use = foldl (\<lambda>n (in_use, _). n + in_use) 0 stats;
     Some (''{'' @ [CHR 0x22] @ ''uptime_hours'' @ [CHR 0x22] @ '':'' @
       fmt_hours cfg (now_s c - start_time sv) @ '','' @ [CHR 0x22] @ ''blobs_in_use'' @ [CHR 0x22] @ '':'' @
       dec_of_nat (unat blobs_in_use) @ ''}'') }"

text \<open>The branch of \<^verbatim>\<open>ahc\<close> for a path that is not \<^verbatim>\<open>/blob/*\<close>; \<^const>\<open>None\<close> inside falls through to the end.\<close>

definition ahc_pages ::
    "config \<Rightarrow> mhd_call \<Rightarrow> addr \<Rightarrow> nat \<Rightarrow> nat option \<Rightarrow> bool \<Rightarrow> server \<Rightarrow> (ahc_result option \<times> server) option" where
  "ahc_pages cfg c ctx language asset is_root sv =
     (if upload_data c \<noteq> [] then Some (Some (drop_connection ctx), sv)
      else case asset of
        Some i \<Rightarrow> do {
          sv \<leftarrow> (if is_root then patch_root_page cfg c language i sv else Some sv);
          Some (Some (answer ctx (send_response c 200 (Body_page language i)
            (Some (asset_content_types (assembled_html cfg) ! i))
            (if is_root then HP_HTML_VIEWER else HP_STATIC_ASSET))), sv) }
      | None \<Rightarrow>
          if strncmp_eq (url c) ''/status'' 8 then do {
            payload \<leftarrow> status_payload cfg c sv;
            if 384 \<le> length payload
            then Some (Some (answer ctx (send_text c 500 ''Status error'')), sv)
            else Some (Some (answer ctx (send_response c 200 (Body_text payload)
              (Some ''application/json; charset=utf-8'') HP_OTHER)), sv) }
          else Some (None, sv))"


section \<open>The blobs\<close>

definition BLOB_SIZE_MIN :: u64 where "BLOB_SIZE_MIN = 12 + 16 + 2 + 16"
definition BLOB_TTL_S :: u32 where "BLOB_TTL_S = 60 * 60"

definition set_ctx :: "addr \<Rightarrow> req_ctx_t \<Rightarrow> server \<Rightarrow> server" where
  "set_ctx ctx v sv = sv\<lparr>ctxs := (ctxs sv)(ctx := v)\<rparr>"

definition ahc_get_blob ::
    "mhd_call \<Rightarrow> addr \<Rightarrow> htable_key_t \<Rightarrow> server \<Rightarrow> (ahc_result \<times> server) option" where
  "ahc_get_blob c ctx bid sv = do {
     (blob, st) \<leftarrow> storage_blob_get (store sv) bid;
     let sv = sv\<lparr>store := st\<rparr>;
     if blk_size blob = 0 then Some (answer ctx (send_text c 404 ''Not Found''), sv)
     else
       let sv = set_ctx ctx ((ctxs sv ctx)\<lparr>blob_send := blob\<rparr>) sv
       in Some (answer ctx (send_response c 200 (Body_blob blob) (Some ''application/octet-stream'')
            HP_API_BLOB), sv) }"

text \<open>The announced size, if the Content-Length is acceptable.\<close>

definition post_length :: "mhd_call \<Rightarrow> u64 option" where
  "post_length c = (case hdr_content_length c of
     None \<Rightarrow> None
   | Some s \<Rightarrow>
       (let content_length = strtoul10 s
        in if content_length = ULONG_MAX then None
           else if BLOB_SIZE_MAX < content_length \<or> content_length < BLOB_SIZE_MIN then None
           else Some content_length))"

text \<open>\<^verbatim>\<open>AHC_POST_DEFER_ERROR\<close>.\<close>

definition post_defer_error ::
    "addr \<Rightarrow> DEFERRED_ERROR_CODE \<Rightarrow> server \<Rightarrow> ahc_result \<times> server" where
  "post_defer_error ctx e sv = (keep_reading ctx, set_ctx ctx ((ctxs sv ctx)\<lparr>deferred_error := e\<rparr>) sv)"

text \<open>The end of a data call: the bytes are copied behind those already read.\<close>

definition post_append ::
    "mhd_call \<Rightarrow> addr \<Rightarrow> server \<Rightarrow> (ahc_result \<times> server) option" where
  "post_append c ctx sv =
     (let x = ctxs sv ctx;
          incoming = of_nat (length (upload_data c)) :: u64
      in if expected x < read_size x + incoming then Some (drop_connection ctx, sv)
         else do {
           st \<leftarrow> blob_write (store sv) (post_body x) (unat (read_size x)) (upload_data c);
           Some (keep_reading ctx,
             set_ctx ctx (x\<lparr>read_size := read_size x + incoming\<rparr>) (sv\<lparr>store := st\<rparr>)) })"

text \<open>The creation of the blob at the first data call.\<close>

definition post_create ::
    "mhd_call \<Rightarrow> addr \<Rightarrow> server \<Rightarrow> (ahc_result \<times> server) option" where
  "post_create c ctx sv = do {
     let x = ctxs sv ctx;
     taken \<leftarrow> storage_blob_is_already_taken (store sv) (ctx_id x);
     if taken then Some (post_defer_error ctx DEFERRED_ERROR_CODE_DUP sv)
     else do {
       (b, st) \<leftarrow> storage_blob_create (store sv) (ctx_id x) (expected x);
       let sv = set_ctx ctx (x\<lparr>post_body := b\<rparr>) (sv\<lparr>store := st\<rparr>);
       if blk_size b = 0 then Some (post_defer_error ctx DEFERRED_ERROR_CODE_OOM sv)
       else post_append c ctx sv } }"

definition post_data ::
    "mhd_call \<Rightarrow> addr \<Rightarrow> server \<Rightarrow> (ahc_result \<times> server) option" where
  "post_data c ctx sv =
     (let x = ctxs sv ctx
      in if deferred_error x \<noteq> DEFERRED_ERROR_CODE_NO_ERROR then Some (keep_reading ctx, sv)
         else
           (let len = (if expected x = 0 then post_length c else Some (expected x))
            in case len of
                 None \<Rightarrow> Some (drop_connection ctx, sv)
               | Some n \<Rightarrow>
                   (let sv = set_ctx ctx (x\<lparr>expected := n\<rparr>) sv
                    in if blk_size (post_body x) = 0 then post_create c ctx sv
                       else post_append c ctx sv)))"

definition post_end ::
    "mhd_call \<Rightarrow> addr \<Rightarrow> server \<Rightarrow> (ahc_result \<times> server) option" where
  "post_end c ctx sv =
     (let x = ctxs sv ctx
      in if deferred_error x \<noteq> DEFERRED_ERROR_CODE_NO_ERROR then
           (let (response_code, response_msg) = deferred_error_responses (deferred_error x)
            in Some (answer ctx (send_text c response_code response_msg), sv))
         else if blk_size (post_body x) = 0 \<or> read_size x \<noteq> expected x
         then Some (answer ctx (send_text c 400 ''Bad blob''), sv)
         else do {
           (ok, st) \<leftarrow> storage_blob_publish (store sv) (ctx_id x) (now_s c + BLOB_TTL_S);
           let sv = sv\<lparr>store := st\<rparr>;
           if \<not> ok
           then Some (answer ctx (send_text c 500 ''Internal error, cannot publish the blob''), sv)
           else
             let sv = set_ctx ctx (x\<lparr>post_body := null_blk\<rparr>) sv
             in Some (answer ctx (send_response c 200 Body_empty None HP_API_BLOB), sv) })"

definition ahc_post_blob ::
    "mhd_call \<Rightarrow> addr \<Rightarrow> htable_key_t \<Rightarrow> server \<Rightarrow> (ahc_result \<times> server) option" where
  "ahc_post_blob c ctx bid sv =
     (let x = ctxs sv ctx
      in if have_id x \<and> (key_h (ctx_id x) \<noteq> key_h bid \<or> key_l (ctx_id x) \<noteq> key_l bid)
         then Some (drop_connection ctx, sv)
         else
           (let sv = (if have_id x then sv else set_ctx ctx (x\<lparr>ctx_id := bid, have_id := True\<rparr>) sv)
            in if upload_data c \<noteq> [] then post_data c ctx sv else post_end c ctx sv))"

text \<open>The branch of \<^verbatim>\<open>ahc\<close> for \<^verbatim>\<open>/blob/\<close> followed by 32 characters.\<close>

definition ahc_blob ::
    "mhd_call \<Rightarrow> addr \<Rightarrow> bool \<Rightarrow> server \<Rightarrow> (ahc_result option \<times> server) option" where
  "ahc_blob c ctx is_get sv = do {
     bytes \<leftarrow> id_hex_to_bytes (drop 6 (url c));
     case bytes of
       None \<Rightarrow> Some (Some (drop_connection ctx), sv)
     | Some bs \<Rightarrow>
         (let bid = key_of_bytes bs
          in if key_h bid = 0 \<and> key_l bid = 0 then Some (Some (drop_connection ctx), sv)
             else if is_get then do { (r, sv) \<leftarrow> ahc_get_blob c ctx bid sv; Some (Some r, sv) }
             else if strncmp_eq (meth c) ''POST'' 5
             then do { (r, sv) \<leftarrow> ahc_post_blob c ctx bid sv; Some (Some r, sv) }
             else Some (None, sv)) }"


section \<open>The handler\<close>

text \<open>\<^verbatim>\<open>lang_en\<close> is the first language.\<close>

definition request_language :: "config \<Rightarrow> mhd_call \<Rightarrow> nat" where
  "request_language cfg c = (case hdr_accept_language c of
     None \<Rightarrow> 0
   | Some l \<Rightarrow> if 2 \<le> length l then lang_from_str cfg l else 0)"

text \<open>The first call of a request takes a context from the pool; \<^const>\<open>None\<close> inside is \<^verbatim>\<open>NULL\<close>.\<close>

definition ahc_context :: "mhd_call \<Rightarrow> server \<Rightarrow> ((addr \<times> bool) option \<times> server) option" where
  "ahc_context c sv = (case con_cls c of
     Some ctx \<Rightarrow> Some (Some (ctx, False), sv)
   | None \<Rightarrow> do {
       (b, p) \<leftarrow> ctxa_alloc (ctx_pool sv);
       case b of
         None \<Rightarrow> Some (None, sv\<lparr>ctx_pool := p\<rparr>)
       | Some ctx \<Rightarrow> Some (Some (ctx, True), set_ctx ctx zero_ctx (sv\<lparr>ctx_pool := p\<rparr>)) })"

text \<open>The debouncer is asked once per request, and not for static assets; \<^const>\<open>False\<close> is a rejection.\<close>

definition ahc_debounce :: "config \<Rightarrow> mhd_call \<Rightarrow> addr \<Rightarrow> bool \<Rightarrow> server \<Rightarrow> (bool \<times> server) option" where
  "ahc_debounce cfg c ctx is_static sv =
     (if \<not> use_debouncer cfg \<or> rate_checked (ctxs sv ctx) then Some (True, sv)
      else
        (let sv = set_ctx ctx ((ctxs sv ctx)\<lparr>rate_checked := True\<rparr>) sv
         in if is_static then Some (True, sv)
            else do {
              (allow, d) \<leftarrow> debouncer_allow_addr (deb sv) (connection_peer_addr cfg c)
                (now_tv_sec c) (now_tv_nsec c);
              Some (allow, sv\<lparr>deb := d\<rparr>) }))"

definition ahc :: "config \<Rightarrow> mhd_call \<Rightarrow> server \<Rightarrow> (ahc_result \<times> server) option" where
  "ahc cfg c sv = do {
     (ctx, sv) \<leftarrow> ahc_context c sv;
     case ctx of
       None \<Rightarrow> Some (\<lparr>mhd_yes = False, queued = None, consumed = False, new_con_cls = None\<rparr>, sv)
     | Some (ctx, new_ctx) \<Rightarrow> do {
         let is_get = strncmp_eq (meth c) ''GET'' 4;
         let language = request_language cfg c;
         let is_root = (is_get \<and> strncmp_eq (url c) ''/'' 2);
         let asset = (if is_get then asset_find (assembled_html cfg) (url c) else None);
         (allow, sv) \<leftarrow> ahc_debounce cfg c ctx (asset \<noteq> None) sv;
         if \<not> allow then Some (answer ctx (send_text c 429 ''Too Many Requests''), sv)
         else if new_ctx
         then Some (\<lparr>mhd_yes = True, queued = None, consumed = False, new_con_cls = Some ctx\<rparr>, sv)
         else do {
           (r, sv) \<leftarrow>
             (if \<not> strncmp_eq (url c) ''/blob/'' 6 then ahc_pages cfg c ctx language asset is_root sv
              else if strnlen (drop 6 (url c)) (1 + ID_LENGTH) = ID_LENGTH then ahc_blob c ctx is_get sv
              else Some (None, sv));
           case r of
             Some r \<Rightarrow> Some (r, sv)
           | None \<Rightarrow>
               if upload_data c \<noteq> [] then Some (drop_connection ctx, sv)
               else Some (answer ctx (send_text c 404 ''Not Found''), sv) } } }"

text \<open>The end of a request.\<close>

definition req_done :: "addr option \<Rightarrow> server \<Rightarrow> server option" where
  "req_done cls sv = (case cls of
     None \<Rightarrow> Some sv
   | Some ctx \<Rightarrow> do {
       let x = ctxs sv ctx;
       st \<leftarrow> (if blk_size (post_body x) \<noteq> 0 then storage_blob_abort (store sv) (ctx_id x)
              else Some (store sv));
       st \<leftarrow> (if blk_size (blob_send x) \<noteq> 0 then storage_blob_free st (blob_send x) else Some st);
       p \<leftarrow> ctxa_free (ctx_pool sv) ctx;
       Some (set_ctx ctx (x\<lparr>ctx_id := null_key\<rparr>) (sv\<lparr>store := st, ctx_pool := p\<rparr>)) })"


section \<open>Writing into a page\<close>

lemma write_page_ok:
  assumes "i + length bs \<le> length page"
  shows "write_page page i bs = Some (splice page i bs)" "length (splice page i bs) = length page"
  using assms by (simp_all add: write_page_def splice_length)

end
