(* ===== verification/System.thy ===== *)
theory System
  imports Handler
begin

text \<open>
  The server as a whole. libmicrohttpd calls the handler for many requests in turn; the invariant of the
  server relates the store, the request contexts and the contexts that are with libmicrohttpd, and every call
  preserves it. What clients see is a map from ids to secrets, each of which is handed out once.
\<close>

section \<open>The invariant\<close>

text \<open>
  A request is known by its context once the first call has allocated it. It is open while libmicrohttpd may
  call the handler again, and closing once a response is queued or the handler has returned \<^verbatim>\<open>MHD_NO\<close>. The
  data it has uploaded so far is kept beside it, for the statements only.
\<close>

datatype phase = Open | Closing

type_synonym requests = "addr \<Rightarrow> (phase \<times> u8 list) option"

definition posting :: "req_ctx_t \<Rightarrow> bool" where
  "posting x \<longleftrightarrow> blk_size (post_body x) \<noteq> 0"

definition sending :: "req_ctx_t \<Rightarrow> bool" where
  "sending x \<longleftrightarrow> blk_size (blob_send x) \<noteq> 0"

definition unpublished_at :: "storage \<Rightarrow> htable_key_t \<Rightarrow> bool" where
  "unpublished_at st k \<longleftrightarrow> (\<exists>c. blob_at st k = Some (c, VALID_UNTIL_NOT_PUBLISHED))"

text \<open>The context of an upload holds the unpublished blob of its id, of which it has written a prefix.\<close>

definition ctx_ok :: "storage \<Rightarrow> req_ctx_t \<Rightarrow> phase \<Rightarrow> u8 list \<Rightarrow> bool" where
  "ctx_ok st x p up \<longleftrightarrow>
     (posting x \<longrightarrow> have_id x \<and> deferred_error x = DEFERRED_ERROR_CODE_NO_ERROR \<and>
        owned_block st (ctx_id x) = Some (post_body x) \<and>
        (\<exists>c. blob_at st (ctx_id x) = Some (c, VALID_UNTIL_NOT_PUBLISHED) \<and>
           length c = unat (expected x) \<and> take (unat (read_size x)) c = up) \<and>
        unat (read_size x) \<le> unat (expected x)) \<and>
     (\<not> posting x \<longrightarrow> p = Open \<longrightarrow> read_size x = 0 \<and>
        (deferred_error x = DEFERRED_ERROR_CODE_NO_ERROR \<longrightarrow> up = [])) \<and>
     (expected x = 0 \<or> size_ok (expected x)) \<and>
     (sending x \<longrightarrow> p = Closing)"

definition sends :: "server \<Rightarrow> requests \<Rightarrow> blk_t set" where
  "sends sv L = {blob_send (ctxs sv a) |a. a \<in> dom L \<and> sending (ctxs sv a)}"

definition pages_ok :: "nat \<Rightarrow> server \<Rightarrow> bool" where
  "pages_ok langs sv \<longleftrightarrow> (\<forall>g<langs. html_uptime_ptr sv g + REPLACE_SIZE \<le> length (pages sv g 0) \<and>
     html_version_ptr sv g + REPLACE_SIZE \<le> length (pages sv g 0))"

text \<open>
  No two requests upload to one id or send one block, and every unpublished blob has its request: none is
  left behind.
\<close>

definition requests_ok :: "storage \<Rightarrow> (addr \<Rightarrow> req_ctx_t) \<Rightarrow> requests \<Rightarrow> bool" where
  "requests_ok st X L \<longleftrightarrow>
     (\<forall>a p up. L a = Some (p, up) \<longrightarrow> ctx_ok st (X a) p up) \<and>
     (\<forall>a\<in>dom L. \<forall>b\<in>dom L. posting (X a) \<longrightarrow> posting (X b) \<longrightarrow> ctx_id (X a) = ctx_id (X b) \<longrightarrow> a = b) \<and>
     (\<forall>a\<in>dom L. \<forall>b\<in>dom L. sending (X a) \<longrightarrow> sending (X b) \<longrightarrow> blob_send (X a) = blob_send (X b) \<longrightarrow> a = b) \<and>
     (\<forall>k. unpublished_at st k \<longrightarrow> (\<exists>a\<in>dom L. posting (X a) \<and> ctx_id (X a) = k))"

definition server_inv :: "nat \<Rightarrow> addr \<Rightarrow> nat \<Rightarrow> server \<Rightarrow> requests \<Rightarrow> bool" where
  "server_inv langs base n sv L \<longleftrightarrow>
     storage_inv (store sv) (sends sv L) \<and> ctx_inv base n (ctx_pool sv) (dom L) \<and>
     deb_inv (deb sv) \<and> pages_ok langs sv \<and> requests_ok (store sv) (ctxs sv) L"

lemma server_invD:
  assumes "server_inv langs base n sv L"
  shows "storage_inv (store sv) (sends sv L)" "ctx_inv base n (ctx_pool sv) (dom L)"
    "deb_inv (deb sv)" "pages_ok langs sv" "requests_ok (store sv) (ctxs sv) L"
  using assms by (simp_all add: server_inv_def)

lemma requests_okD:
  assumes "requests_ok st X L"
  shows "L a = Some (p, up) \<Longrightarrow> ctx_ok st (X a) p up"
    and "a \<in> dom L \<Longrightarrow> b \<in> dom L \<Longrightarrow> posting (X a) \<Longrightarrow> posting (X b) \<Longrightarrow> ctx_id (X a) = ctx_id (X b) \<Longrightarrow> a = b"
    and "a \<in> dom L \<Longrightarrow> b \<in> dom L \<Longrightarrow> sending (X a) \<Longrightarrow> sending (X b) \<Longrightarrow> blob_send (X a) = blob_send (X b) \<Longrightarrow> a = b"
    and "unpublished_at st k \<Longrightarrow> \<exists>a\<in>dom L. posting (X a) \<and> ctx_id (X a) = k"
  using assms unfolding requests_ok_def by blast+

text \<open>A context depends on the store only through the blob of its id.\<close>

lemma ctx_ok_cong:
  assumes "ctx_ok st x p up" and "posting x \<Longrightarrow> blob_at st' (ctx_id x) = blob_at st (ctx_id x)"
    and "posting x \<Longrightarrow> owned_block st' (ctx_id x) = owned_block st (ctx_id x)"
  shows "ctx_ok st' x p up"
  using assms by (auto simp: ctx_ok_def)

lemma posting_unpublished:
  assumes "requests_ok st X L" "a \<in> dom L" "posting (X a)"
  shows "unpublished_at st (ctx_id (X a))"
proof -
  obtain p up where "L a = Some (p, up)" using assms(2) by auto
  from requests_okD(1) [OF assms(1) this] show ?thesis
    using assms(3) by (auto simp: ctx_ok_def unpublished_at_def)
qed

text \<open>
  The frame of a call for the request \<open>a\<close>: only its context changes, and the blobs of other uploads do not.
\<close>

lemma unique_update:
  assumes "\<And>b c. b \<in> D \<Longrightarrow> c \<in> D \<Longrightarrow> P (X b) \<Longrightarrow> P (X c) \<Longrightarrow> f (X b) = f (X c) \<Longrightarrow> b = c"
    and "\<And>b. b \<in> D \<Longrightarrow> b \<noteq> a \<Longrightarrow> P (X b) \<Longrightarrow> P x \<Longrightarrow> f (X b) \<noteq> f x"
    and "b \<in> insert a D" "c \<in> insert a D" "P ((X(a := x)) b)" "P ((X(a := x)) c)"
    and "f ((X(a := x)) b) = f ((X(a := x)) c)"
  shows "b = c"
proof (cases "b = a")
  case True
  then show ?thesis using assms(2) [of c] assms(3-) by (cases "c = a") auto
next
  case False
  then show ?thesis using assms(1) [of b c] assms(2) [of b] assms(3-) by (cases "c = a") auto
qed

lemma requests_ok_update:
  assumes R: "requests_ok st X L"
    and ok: "ctx_ok st' x p up"
    and frame: "\<And>b. b \<in> dom L \<Longrightarrow> b \<noteq> a \<Longrightarrow> posting (X b) \<Longrightarrow>
      blob_at st' (ctx_id (X b)) = blob_at st (ctx_id (X b)) \<and>
      owned_block st' (ctx_id (X b)) = owned_block st (ctx_id (X b))"
    and post: "\<And>b. b \<in> dom L \<Longrightarrow> b \<noteq> a \<Longrightarrow> posting (X b) \<Longrightarrow> posting x \<Longrightarrow> ctx_id (X b) \<noteq> ctx_id x"
    and send: "\<And>b. b \<in> dom L \<Longrightarrow> b \<noteq> a \<Longrightarrow> sending (X b) \<Longrightarrow> sending x \<Longrightarrow> blob_send (X b) \<noteq> blob_send x"
    and unp: "\<And>k. unpublished_at st' k \<Longrightarrow>
      posting x \<and> ctx_id x = k \<or> (\<exists>b\<in>dom L. b \<noteq> a \<and> posting (X b) \<and> ctx_id (X b) = k)"
  shows "requests_ok st' (X(a := x)) (L(a \<mapsto> (p, up)))"
  unfolding requests_ok_def
proof (intro conjI ballI allI impI)
  show "ctx_ok st' ((X(a := x)) b) q u" if "(L(a \<mapsto> (p, up))) b = Some (q, u)" for b q u
  proof (cases "b = a")
    case False
    then have "L b = Some (q, u)" using that by simp
    then have "ctx_ok st' (X b) q u"
      using frame [of b] False by (intro ctx_ok_cong [OF requests_okD(1) [OF R]]) auto
    then show ?thesis using False by simp
  qed (use that ok in simp)
  show "b = c" if "b \<in> dom (L(a \<mapsto> (p, up)))" "c \<in> dom (L(a \<mapsto> (p, up)))" "posting ((X(a := x)) b)"
      "posting ((X(a := x)) c)" "ctx_id ((X(a := x)) b) = ctx_id ((X(a := x)) c)" for b c
    by (rule unique_update [where P = posting and f = ctx_id and D = "dom L" and X = X and a = a and x = x])
      (use that post requests_okD(2) [OF R] in auto)
  show "b = c" if "b \<in> dom (L(a \<mapsto> (p, up)))" "c \<in> dom (L(a \<mapsto> (p, up)))" "sending ((X(a := x)) b)"
      "sending ((X(a := x)) c)" "blob_send ((X(a := x)) b) = blob_send ((X(a := x)) c)" for b c
    by (rule unique_update [where P = sending and f = blob_send and D = "dom L" and X = X and a = a and x = x])
      (use that send requests_okD(3) [OF R] in auto)
  show "\<exists>b\<in>dom (L(a \<mapsto> (p, up))). posting ((X(a := x)) b) \<and> ctx_id ((X(a := x)) b) = k"
    if "unpublished_at st' k" for k
    using unp [OF that] by (auto simp: bex_Un)
qed

lemma sends_update:
  assumes "a \<in> dom L" "\<not> sending (ctxs sv a)" "ctxs sv' = (ctxs sv)(a := x')"
  shows "sends sv' (L(a \<mapsto> q)) = (if sending x' then insert (blob_send x') (sends sv L) else sends sv L)"
  using assms unfolding sends_def by (auto split: if_splits)

lemma server_inv_update:
  assumes inv: "server_inv langs base n sv L" and a: "L a = Some (Open, up)"
    and sv': "ctxs sv' = (ctxs sv)(a := x')" "ctx_pool sv' = ctx_pool sv" "deb_inv (deb sv')"
      "pages_ok langs sv'"
    and store: "storage_inv (store sv') (if sending x' then insert (blob_send x') (sends sv L) else sends sv L)"
    and ok: "ctx_ok (store sv') x' p up'"
    and frame: "\<And>b. b \<in> dom L \<Longrightarrow> b \<noteq> a \<Longrightarrow> posting (ctxs sv b) \<Longrightarrow>
      blob_at (store sv') (ctx_id (ctxs sv b)) = blob_at (store sv) (ctx_id (ctxs sv b)) \<and>
      owned_block (store sv') (ctx_id (ctxs sv b)) = owned_block (store sv) (ctx_id (ctxs sv b))"
    and post: "\<And>b. b \<in> dom L \<Longrightarrow> b \<noteq> a \<Longrightarrow> posting (ctxs sv b) \<Longrightarrow> posting x' \<Longrightarrow>
      ctx_id (ctxs sv b) \<noteq> ctx_id x'"
    and send: "sending x' \<Longrightarrow> blob_send x' \<notin> sends sv L"
    and unp: "\<And>k. unpublished_at (store sv') k \<Longrightarrow>
      posting x' \<and> ctx_id x' = k \<or> (\<exists>b\<in>dom L. b \<noteq> a \<and> posting (ctxs sv b) \<and> ctx_id (ctxs sv b) = k)"
  shows "server_inv langs base n sv' (L(a \<mapsto> (p, up')))"
proof -
  note d = server_invD [OF inv]
  have dom: "a \<in> dom L" "dom (L(a \<mapsto> (p, up'))) = dom L" using a by auto
  have "\<not> sending (ctxs sv a)" using requests_okD(1) [OF d(5) a] by (auto simp: ctx_ok_def)
  then have "storage_inv (store sv') (sends sv' (L(a \<mapsto> (p, up'))))"
    using store sends_update [where sv = sv and sv' = sv' and a = a and L = L and x' = x'] dom(1) sv'(1)
    by simp
  moreover have "requests_ok (store sv') ((ctxs sv)(a := x')) (L(a \<mapsto> (p, up')))"
  proof (rule requests_ok_update [OF d(5) ok])
    show "blob_send (ctxs sv b) \<noteq> blob_send x'" if "b \<in> dom L" "sending (ctxs sv b)" "sending x'" for b
      using send [OF that(3)] that(1,2) by (auto simp: sends_def)
  qed (use frame post unp in blast)+
  ultimately show ?thesis using d(2) sv' dom(2) by (simp add: server_inv_def)
qed

text \<open>The blobs of other uploads when one blob changes.\<close>

lemma other_upload:
  assumes "requests_ok st X L" "a \<in> dom L" "posting (X a)" "b \<in> dom L" "b \<noteq> a" "posting (X b)"
  shows "ctx_id (X b) \<noteq> ctx_id (X a)"
  using requests_okD(2) [OF assms(1,2,4,3,6)] assms(5) by auto

lemma unpublished_other:
  assumes "requests_ok st X L" "unpublished_at st k" "\<not> (posting (X a) \<and> ctx_id (X a) = k)"
  shows "\<exists>b\<in>dom L. b \<noteq> a \<and> posting (X b) \<and> ctx_id (X b) = k"
  using requests_okD(4) [OF assms(1,2)] assms(3) by metis


section \<open>What clients see\<close>

text \<open>The published secrets with their expiry times, and what may happen to them.\<close>

definition secrets :: "storage \<Rightarrow> htable_key_t \<Rightarrow> (u8 list \<times> u32) option" where
  "secrets st k = (case blob_at st k of
     None \<Rightarrow> None
   | Some (c, t) \<Rightarrow> if t = VALID_UNTIL_NOT_PUBLISHED then None else Some (c, t))"

datatype event = Posted htable_key_t "u8 list" u32 | Fetched htable_key_t "u8 list" | Reaped u32 | Quiet

inductive secrets_step ::
    "(htable_key_t \<Rightarrow> (u8 list \<times> u32) option) \<Rightarrow> event \<Rightarrow> (htable_key_t \<Rightarrow> (u8 list \<times> u32) option) \<Rightarrow> bool"
where
  post: "M k = None \<Longrightarrow> secrets_step M (Posted k c t) (M(k \<mapsto> (c, t)))"
| fetch: "M k = Some (c, t) \<Longrightarrow> secrets_step M (Fetched k c) (M(k := None))"
| reap: "secrets_step M (Reaped now) (live_at now M)"
| quiet: "secrets_step M Quiet M"

inductive_cases secrets_stepE: "secrets_step M e M'"

lemma secrets_cong: "blob_at st' k = blob_at st k \<Longrightarrow> secrets st' k = secrets st k"
  by (simp add: secrets_def)

lemma secrets_unpublished: "unpublished_at st k \<Longrightarrow> secrets st k = None"
  by (auto simp: secrets_def unpublished_at_def)

end
