(* ===== verification/Requests.thy ===== *)
theory Requests
  imports System
begin

text \<open>
  Every branch of the handler, for a request that is known: it returns, the server keeps its invariant, and
  the published secrets change in one of the ways clients may see, or not at all.
\<close>

section \<open>What a call does\<close>

definition phase_after :: "ahc_result \<Rightarrow> phase" where
  "phase_after r = (if mhd_yes r \<and> queued r = None then Open else Closing)"

definition taken_in :: "mhd_call \<Rightarrow> ahc_result \<Rightarrow> u8 list" where
  "taken_in c r = (if consumed r then upload_data c else [])"

definition url_key :: "mhd_call \<Rightarrow> htable_key_t" where
  "url_key c = (case id_hex_to_bytes (drop 6 (url c)) of Some (Some bs) \<Rightarrow> key_of_bytes bs | _ \<Rightarrow> null_key)"

text \<open>
  A secret is posted when the upload of the request ends in its publication, and fetched when the
  request comes to send a block.
\<close>

definition call_event :: "mhd_call \<Rightarrow> u8 list \<Rightarrow> req_ctx_t \<Rightarrow> req_ctx_t \<Rightarrow> storage \<Rightarrow> event" where
  "call_event c up x x' st =
     (if posting x \<and> \<not> posting x' then Posted (ctx_id x) up (now_s c + BLOB_TTL_S)
      else if sending x' then Fetched (url_key c) (case contents st (blob_send x') of Some bs \<Rightarrow> bs | None \<Rightarrow> [])
      else Quiet)"

definition call_ok ::
    "nat \<Rightarrow> addr \<Rightarrow> nat \<Rightarrow> mhd_call \<Rightarrow> addr \<Rightarrow> requests \<Rightarrow> u8 list \<Rightarrow> server \<Rightarrow> ahc_result \<Rightarrow> server \<Rightarrow> bool" where
  "call_ok langs base n c a L up sv r sv' \<longleftrightarrow>
     server_inv langs base n sv' (L(a \<mapsto> (phase_after r, up @ taken_in c r))) \<and>
     secrets_step (secrets (store sv)) (call_event c up (ctxs sv a) (ctxs sv' a) (store sv'))
       (secrets (store sv')) \<and>
     new_con_cls r = Some a"

lemma phase_after_simps [simp]:
  "phase_after (answer a (send_response c s b t p)) = Closing"
  "phase_after (answer a (send_text c s m)) = Closing"
  "phase_after (drop_connection a) = Closing" "phase_after (keep_reading a) = Open"
  by (simp_all add: phase_after_def answer_def send_text_def send_response_def drop_connection_def
      keep_reading_def Let_def)

lemma taken_in_simps [simp]:
  "taken_in c (answer a q) = []" "taken_in c (drop_connection a) = []"
  "taken_in c (keep_reading a) = upload_data c"
  by (simp_all add: taken_in_def answer_def drop_connection_def keep_reading_def)

lemma new_con_cls_simps [simp]:
  "new_con_cls (answer a q) = Some a" "new_con_cls (drop_connection a) = Some a"
  "new_con_cls (keep_reading a) = Some a"
  by (simp_all add: answer_def drop_connection_def keep_reading_def)

lemma set_ctx_simps [simp]:
  "store (set_ctx a x sv) = store sv" "ctx_pool (set_ctx a x sv) = ctx_pool sv"
  "ctxs (set_ctx a x sv) = (ctxs sv)(a := x)" "deb (set_ctx a x sv) = deb sv"
  "pages (set_ctx a x sv) = pages sv" "html_uptime_ptr (set_ctx a x sv) = html_uptime_ptr sv"
  "html_version_ptr (set_ctx a x sv) = html_version_ptr sv" "start_time (set_ctx a x sv) = start_time sv"
  by (simp_all add: set_ctx_def)

lemma open_ctx:
  assumes "server_inv langs base n sv L" "L a = Some (Open, up)"
  shows "ctx_ok (store sv) (ctxs sv a) Open up" "\<not> sending (ctxs sv a)" "a \<in> dom L"
proof -
  show "ctx_ok (store sv) (ctxs sv a) Open up"
    using requests_okD(1) [OF server_invD(5) [OF assms(1)] assms(2)] .
  then show "\<not> sending (ctxs sv a)" by (simp add: ctx_ok_def)
qed (use assms(2) in auto)

text \<open>A context may change in the fields that do not matter for what it holds.\<close>

lemma ctx_change:
  assumes inv: "server_inv langs base n sv L" and a: "L a = Some (Open, up)"
    and sv': "store sv' = store sv" "ctxs sv' = (ctxs sv)(a := x')" "ctx_pool sv' = ctx_pool sv"
      "deb_inv (deb sv')" "pages_ok langs sv'"
    and x': "ctx_ok (store sv) x' p up'" "\<not> sending x'" "posting x' = posting (ctxs sv a)"
      "posting x' \<Longrightarrow> ctx_id x' = ctx_id (ctxs sv a)"
  shows "server_inv langs base n sv' (L(a \<mapsto> (p, up')))"
proof -
  note d = server_invD [OF inv] and o' = open_ctx [OF inv a]
  show ?thesis
  proof (rule server_inv_update [OF inv a sv'(2,3)])
    show "storage_inv (store sv') (if sending x' then insert (blob_send x') (sends sv L) else sends sv L)"
      using d(1) sv'(1) x'(2) by simp
    show "ctx_id (ctxs sv b) \<noteq> ctx_id x'"
      if "b \<in> dom L" "b \<noteq> a" "posting (ctxs sv b)" "posting x'" for b
      using other_upload [OF d(5) o'(3) _ that(1-3)] that(4) x'(3,4) by simp
    show "posting x' \<and> ctx_id x' = k \<or> (\<exists>b\<in>dom L. b \<noteq> a \<and> posting (ctxs sv b) \<and> ctx_id (ctxs sv b) = k)"
      if "unpublished_at (store sv') k" for k
      using unpublished_other [OF d(5), of k a] that sv'(1) x'(3,4) by auto
  qed (use sv' x' in simp_all)
qed

lemma quiet_call:
  assumes inv: "server_inv langs base n sv L" and a: "L a = Some (Open, up)"
    and sv': "store sv' = store sv" "ctxs sv' = (ctxs sv)(a := x')" "ctx_pool sv' = ctx_pool sv"
      "deb_inv (deb sv')" "pages_ok langs sv'"
    and x': "ctx_ok (store sv) x' (phase_after r) (up @ taken_in c r)" "\<not> sending x'"
      "posting x' = posting (ctxs sv a)" "posting x' \<Longrightarrow> ctx_id x' = ctx_id (ctxs sv a)"
    and r: "new_con_cls r = Some a"
  shows "call_ok langs base n c a L up sv r sv'"
  using ctx_change [OF inv a sv' x'] sv'(1,2) x'(2,3) r
  by (simp add: call_ok_def call_event_def secrets_step.quiet)

lemma ctx_ok_closing:
  assumes "ctx_ok st x Open up" shows "ctx_ok st x Closing up"
  using assms by (simp add: ctx_ok_def)

lemma ended_call:
  assumes inv: "server_inv langs base n sv L" and a: "L a = Some (Open, up)"
    and r: "phase_after r = Closing" "taken_in c r = []" "new_con_cls r = Some a"
  shows "call_ok langs base n c a L up sv r sv"
  by (rule quiet_call [OF inv a, where x' = "ctxs sv a"])
    (use open_ctx [OF inv a] server_invD [OF inv] r ctx_ok_closing in auto)

text \<open>An earlier harmless change of the context can be absorbed.\<close>

lemma call_ok_after_change:
  assumes "call_ok langs base n c a L up (set_ctx a x1 sv) r sv'"
    and "posting x1 = posting (ctxs sv a)" "posting x1 \<Longrightarrow> ctx_id x1 = ctx_id (ctxs sv a)"
  shows "call_ok langs base n c a L up sv r sv'"
proof -
  have "call_event c up x1 x' st = call_event c up (ctxs sv a) x' st" for x' st
    using assms(2,3) by (simp add: call_event_def)
  then show ?thesis using assms(1) by (simp add: call_ok_def)
qed

lemma ctx_change_same:
  assumes "server_inv langs base n sv L" "L a = Some (Open, up)"
    and "ctx_ok (store sv) x1 Open up" "\<not> sending x1" "posting x1 = posting (ctxs sv a)"
      "posting x1 \<Longrightarrow> ctx_id x1 = ctx_id (ctxs sv a)"
  shows "server_inv langs base n (set_ctx a x1 sv) L"
proof -
  have "server_inv langs base n (set_ctx a x1 sv) (L(a \<mapsto> (Open, up)))"
    by (rule ctx_change [OF assms(1,2), where x' = x1]) (use assms server_invD [OF assms(1)] in \<open>simp_all add: pages_ok_def\<close>)
  moreover have "L(a \<mapsto> (Open, up)) = L" using assms(2) by (simp add: fun_upd_idem)
  ultimately show ?thesis by simp
qed


section \<open>Fetching\<close>

lemma null_post_body [simp]: "blk_size null_blk = 0" "\<not> posting (x\<lparr>post_body := null_blk\<rparr>)"
  by (simp_all add: null_blk_def posting_def)

lemma not_unpublished:
  assumes "requests_ok st X L" "a \<in> dom L" "posting (X a)" "blob_at st k = Some (c, t)"
    "t \<noteq> VALID_UNTIL_NOT_PUBLISHED"
  shows "ctx_id (X a) \<noteq> k"
  using posting_unpublished [OF assms(1-3)] assms(4,5) by (auto simp: unpublished_at_def)

lemma get_blob_some:
  assumes inv: "server_inv langs base n sv L" and a: "L a = Some (Open, up)"
    and k: "blob_at (store sv) (url_key c) = Some (cs, t)" "t \<noteq> VALID_UNTIL_NOT_PUBLISHED"
  obtains b sv' where "ahc_get_blob c a (url_key c) sv =
      Some (answer a (send_response c 200 (Body_blob b) (Some ''application/octet-stream'') HP_API_BLOB), sv')"
    "contents (store sv') b = Some cs" "blob_send (ctxs sv' a) = b" "sending (ctxs sv' a)"
    "posting (ctxs sv' a) = posting (ctxs sv a)"
    "call_ok langs base n c a L up sv
      (answer a (send_response c 200 (Body_blob b) (Some ''application/octet-stream'') HP_API_BLOB)) sv'"
proof -
  note d = server_invD [OF inv] and o' = open_ctx [OF inv a]
  let ?k = "url_key c" and ?x = "ctxs sv a"
  obtain b st' where r: "storage_blob_get (store sv) ?k = Some (b, st')" "b \<notin> sends sv L"
      "blk_size b \<noteq> 0" "storage_inv st' (insert b (sends sv L))" "contents st' b = Some cs"
      "blob_at st' = (blob_at (store sv))(?k := None)"
      "\<And>j. j \<noteq> ?k \<Longrightarrow> owned_block st' j = owned_block (store sv) j"
    by (rule get_some_map [OF d(1) k]) (rule that)
  let ?x' = "?x\<lparr>blob_send := b\<rparr>"
  let ?sv' = "set_ctx a ?x' (sv\<lparr>store := st'\<rparr>)"
  let ?r = "answer a (send_response c 200 (Body_blob b) (Some ''application/octet-stream'') HP_API_BLOB)"
  have s: "sending ?x'" "posting ?x' = posting ?x" using r(3) by (simp_all add: sending_def posting_def)
  have other: "ctx_id (ctxs sv b) \<noteq> ?k" if "b \<in> dom L" "posting (ctxs sv b)" for b
    using not_unpublished [OF d(5) that k] .
  have st: "unpublished_at (store sv) k'" if "unpublished_at st' k'" for k'
    using that r(6) by (auto simp: unpublished_at_def split: if_splits)
  have "server_inv langs base n ?sv' (L(a \<mapsto> (Closing, up)))"
  proof (rule server_inv_update [OF inv a, where x' = ?x'])
    show "ctx_ok (store ?sv') ?x' Closing up"
      using o'(1) other [OF o'(3)] r(6,7) s by (auto simp: ctx_ok_def)
    show "ctx_id (ctxs sv b) \<noteq> ctx_id ?x'" if "b \<in> dom L" "b \<noteq> a" "posting (ctxs sv b)" "posting ?x'" for b
      using other_upload [OF d(5) o'(3) _ that(1-3)] that(4) s(2) by simp
    show "posting ?x' \<and> ctx_id ?x' = k' \<or> (\<exists>b\<in>dom L. b \<noteq> a \<and> posting (ctxs sv b) \<and> ctx_id (ctxs sv b) = k')"
      if "unpublished_at (store ?sv') k'" for k'
      using unpublished_other [OF d(5), of k' a] st that s(2) by auto
  qed (use d r s other in \<open>auto simp: pages_ok_def\<close>)
  moreover have "secrets st' = (secrets (store sv))(?k := None)"
    using r(6) by (auto simp: secrets_def)
  moreover have "secrets (store sv) ?k = Some (cs, t)" using k by (simp add: secrets_def)
  ultimately have "call_ok langs base n c a L up sv ?r ?sv'"
    using s r(5) by (simp add: call_ok_def call_event_def secrets_step.fetch)
  moreover have "ahc_get_blob c a ?k sv = Some (?r, ?sv')"
    using r(1,3) by (simp add: ahc_get_blob_def)
  ultimately show ?thesis using that [of b ?sv'] r(5) s by simp
qed

lemma get_blob_ok:
  assumes inv: "server_inv langs base n sv L" and a: "L a = Some (Open, up)"
  shows "\<exists>r sv'. ahc_get_blob c a (url_key c) sv = Some (r, sv') \<and> call_ok langs base n c a L up sv r sv'"
proof (cases "\<exists>cs t. blob_at (store sv) (url_key c) = Some (cs, t) \<and> t \<noteq> VALID_UNTIL_NOT_PUBLISHED")
  case True
  then show ?thesis using get_blob_some [OF inv a] by metis
next
  case False
  then have "storage_blob_get (store sv) (url_key c) = Some (null_blk, store sv)"
    by (intro get_none_map [OF server_invD(1) [OF inv]]) (cases "blob_at (store sv) (url_key c)"; auto)
  then have "ahc_get_blob c a (url_key c) sv = Some (answer a (send_text c 404 ''Not Found''), sv)"
    by (simp add: ahc_get_blob_def)
  then show ?thesis using ended_call [OF inv a] by simp
qed


section \<open>Uploading\<close>

lemma posting_size:
  assumes "ctx_ok st x p up" "posting x"
  shows "expected x \<noteq> 0" "size_ok (expected x)"
proof -
  obtain c where c: "owned_block st (ctx_id x) = Some (post_body x)"
      "blob_at st (ctx_id x) = Some (c, VALID_UNTIL_NOT_PUBLISHED)" "length c = unat (expected x)"
    using assms by (auto simp: ctx_ok_def)
  then have "contents st (post_body x) = Some c"
    by (auto simp: owned_block_def blob_at_def split: option.splits)
  then have "length c = unat (blk_size (post_body x))" by (simp add: contents_def load_bytes_length)
  then show "expected x \<noteq> 0" using assms(2) c(3) by (auto simp: posting_def unat_eq_0)
  then show "size_ok (expected x)" using assms(1) by (auto simp: ctx_ok_def)
qed

lemma post_append_fits:
  assumes inv: "server_inv langs base n sv L" and a: "L a = Some (Open, up)"
    and p: "posting (ctxs sv a)" and c: "length (upload_data c) < 2 ^ 63"
    and fits: "\<not> expected (ctxs sv a) < read_size (ctxs sv a) + of_nat (length (upload_data c))"
  obtains sv' where "post_append c a sv = Some (keep_reading a, sv')"
    "ctxs sv' a = (ctxs sv a)\<lparr>read_size := read_size (ctxs sv a) + of_nat (length (upload_data c))\<rparr>"
    "call_ok langs base n c a L up sv (keep_reading a) sv'"
proof -
  note d = server_invD [OF inv] and o' = open_ctx [OF inv a]
  let ?x = "ctxs sv a" and ?d = "upload_data c"
  let ?x' = "?x\<lparr>read_size := read_size ?x + of_nat (length ?d)\<rparr>"
  obtain cs where x: "have_id ?x" "owned_block (store sv) (ctx_id ?x) = Some (post_body ?x)"
      "blob_at (store sv) (ctx_id ?x) = Some (cs, VALID_UNTIL_NOT_PUBLISHED)"
      "length cs = unat (expected ?x)" "take (unat (read_size ?x)) cs = up"
      "unat (read_size ?x) \<le> unat (expected ?x)"
    using o'(1) p by (auto simp: ctx_ok_def)
  have "unat (expected ?x) \<le> 2 ^ 17"
    using posting_size(2) [OF o'(1) p] by (simp add: size_ok_def)
  then have "unat (read_size ?x + of_nat (length ?d)) = unat (read_size ?x) + length ?d"
    using x(6) c unat_of_nat_small [of "length ?d"] by (subst unat_add_lem [THEN iffD1]) auto
  then have len: "unat (read_size ?x') = unat (read_size ?x) + length ?d"
      "unat (read_size ?x) + length ?d \<le> length cs"
    using fits x(4) by (simp_all add: word_le_nat_alt not_less)
  obtain st' where r: "blob_write (store sv) (post_body ?x) (unat (read_size ?x)) ?d = Some st'"
      "storage_inv st' (sends sv L)" "tab st' = tab (store sv)"
      "blob_at st' = (blob_at (store sv))(ctx_id ?x \<mapsto>
         (splice cs (unat (read_size ?x)) ?d, VALID_UNTIL_NOT_PUBLISHED))"
    by (rule fill_map [OF d(1) x(2,3) len(2)]) (rule that)
  let ?sv' = "set_ctx a ?x' (sv\<lparr>store := st'\<rparr>)"
  have own: "owned_block st' = owned_block (store sv)" using r(3) by (simp add: owned_block_def fun_eq_iff)
  have s: "\<not> sending ?x'" "posting ?x'" using o'(2) p by (simp_all add: sending_def posting_def)
  have "take (unat (read_size ?x')) (splice cs (unat (read_size ?x)) ?d) = up @ ?d"
    using splice_take [OF len(2)] x(5) len(1) by simp
  then have ok: "ctx_ok st' ?x' Open (up @ ?d)"
    using o'(1) p x r(4) own s len splice_length [OF len(2)] by (simp add: ctx_ok_def)
  have "server_inv langs base n ?sv' (L(a \<mapsto> (Open, up @ ?d)))"
  proof (rule server_inv_update [OF inv a, where x' = ?x'])
    show "blob_at (store ?sv') (ctx_id (ctxs sv b)) = blob_at (store sv) (ctx_id (ctxs sv b)) \<and>
        owned_block (store ?sv') (ctx_id (ctxs sv b)) = owned_block (store sv) (ctx_id (ctxs sv b))"
      if "b \<in> dom L" "b \<noteq> a" "posting (ctxs sv b)" for b
      using other_upload [OF d(5) o'(3) p that] r(4) own by simp
    show "ctx_id (ctxs sv b) \<noteq> ctx_id ?x'" if "b \<in> dom L" "b \<noteq> a" "posting (ctxs sv b)" for b
      using other_upload [OF d(5) o'(3) p that] by simp
    show "posting ?x' \<and> ctx_id ?x' = k' \<or> (\<exists>b\<in>dom L. b \<noteq> a \<and> posting (ctxs sv b) \<and> ctx_id (ctxs sv b) = k')"
      if "unpublished_at (store ?sv') k'" for k'
      using unpublished_other [OF d(5), of k' a] that s(2) r(4)
      by (cases "ctx_id ?x = k'") (auto simp: unpublished_at_def)
  qed (use d r s ok in \<open>simp_all add: pages_ok_def\<close>)
  moreover have "secrets st' = secrets (store sv)" using r(4) x(3) by (auto simp: secrets_def)
  ultimately have "call_ok langs base n c a L up sv (keep_reading a) ?sv'"
    using s by (simp add: call_ok_def call_event_def secrets_step.quiet)
  moreover have "post_append c a sv = Some (keep_reading a, ?sv')"
    using fits r(1) by (simp add: post_append_def Let_def)
  ultimately show ?thesis using that [of ?sv'] by simp
qed

lemma post_append_ok:
  assumes inv: "server_inv langs base n sv L" and a: "L a = Some (Open, up)"
    and p: "posting (ctxs sv a)" and c: "length (upload_data c) < 2 ^ 63"
  shows "\<exists>r sv'. post_append c a sv = Some (r, sv') \<and> posting (ctxs sv' a) \<and>
    call_ok langs base n c a L up sv r sv'"
proof (cases "expected (ctxs sv a) < read_size (ctxs sv a) + of_nat (length (upload_data c))")
  case True
  then have "post_append c a sv = Some (drop_connection a, sv)" by (simp add: post_append_def)
  then show ?thesis using ended_call [OF inv a] p by simp
next
  case False
  obtain sv' where "post_append c a sv = Some (keep_reading a, sv')"
      "ctxs sv' a = (ctxs sv a)\<lparr>read_size := read_size (ctxs sv a) + of_nat (length (upload_data c))\<rparr>"
      "call_ok langs base n c a L up sv (keep_reading a) sv'"
    by (rule post_append_fits [OF inv a p c False]) (rule that)
  then show ?thesis using p by (simp add: posting_def)
qed

lemma taken_iff:
  assumes "storage_inv s out"
  shows "storage_blob_is_already_taken s k = Some (blob_at s k \<noteq> None)"
proof (cases "tab_view (tab s) k")
  case None
  then show ?thesis
    using htable_get_blob_index_absent [OF assms None] blob_at_None [OF assms, of k]
    by (auto simp: storage_blob_is_already_taken_def htable_get_blob_index_def bind_eq_Some_conv)
next
  case (Some e)
  then obtain b v where e: "tab_view (tab s) k = Some (b, v)" by (cases e) auto
  obtain p where "htable_get_blob_index s k = Some (True, of_nat p)"
    by (rule htable_get_blob_index_present [OF assms e]) (rule that)
  then show ?thesis using e blob_at_None [OF assms, of k] by (auto simp: storage_blob_is_already_taken_def htable_get_blob_index_def bind_eq_Some_conv)
qed

text \<open>A context that has an id and a size, but no block yet.\<close>

definition ready :: "req_ctx_t \<Rightarrow> bool" where
  "ready x \<longleftrightarrow> \<not> posting x \<and> have_id x \<and> \<not> key_is_null (ctx_id x) \<and> size_ok (expected x) \<and>
     deferred_error x = DEFERRED_ERROR_CODE_NO_ERROR"

lemma defer_error_ok:
  assumes inv: "server_inv langs base n sv L" and a: "L a = Some (Open, up)"
    and p: "\<not> posting (ctxs sv a)" "e \<noteq> DEFERRED_ERROR_CODE_NO_ERROR"
  shows "call_ok langs base n c a L up sv (fst (post_defer_error a e sv)) (snd (post_defer_error a e sv))"
  unfolding post_defer_error_def prod.sel
  by (rule quiet_call [OF inv a, where x' = "(ctxs sv a)\<lparr>deferred_error := e\<rparr>"])
    (use open_ctx [OF inv a] server_invD [OF inv] p
      in \<open>auto simp: ctx_ok_def posting_def sending_def pages_ok_def\<close>)

lemma create_inv:
  assumes inv: "server_inv langs base n sv L" and a: "L a = Some (Open, up)" and x: "ready (ctxs sv a)"
    and free: "blob_at (store sv) (ctx_id (ctxs sv a)) = None"
    and room: "htable_free (store sv) \<noteq> 0" "bucket_list (balloc_data (store sv)) (memory (store sv))
      (bucket_of (expected (ctxs sv a))) \<noteq> []"
  obtains b st' where "storage_blob_create (store sv) (ctx_id (ctxs sv a)) (expected (ctxs sv a)) = Some (b, st')"
    "blk_size b = expected (ctxs sv a)" "secrets st' = secrets (store sv)"
    "server_inv langs base n (set_ctx a ((ctxs sv a)\<lparr>post_body := b\<rparr>) (sv\<lparr>store := st'\<rparr>)) L"
proof -
  note d = server_invD [OF inv] and o' = open_ctx [OF inv a]
  let ?x = "ctxs sv a"
  obtain b st' cs where r: "storage_blob_create (store sv) (ctx_id ?x) (expected ?x) = Some (b, st')"
      "blk_size b = expected ?x" "storage_inv st' (sends sv L)" "owned_block st' (ctx_id ?x) = Some b"
      "length cs = unat (expected ?x)"
      "blob_at st' = (blob_at (store sv))(ctx_id ?x \<mapsto> (cs, VALID_UNTIL_NOT_PUBLISHED))"
      "\<And>j. j \<noteq> ctx_id ?x \<Longrightarrow> owned_block st' j = owned_block (store sv) j"
    by (rule create_map [OF d(1) _ free _ room]) (use x in \<open>simp add: ready_def\<close>, use x in \<open>simp add: ready_def\<close>, rule that)
  let ?x' = "?x\<lparr>post_body := b\<rparr>"
  let ?sv' = "set_ctx a ?x' (sv\<lparr>store := st'\<rparr>)"
  have s: "posting ?x'" "\<not> sending ?x'"
    using r(2) x o'(2) by (auto simp: posting_def sending_def ready_def size_ok_def)
  have other: "ctx_id (ctxs sv b) \<noteq> ctx_id ?x" if "b \<in> dom L" "posting (ctxs sv b)" for b
    using posting_unpublished [OF d(5) that] free by (auto simp: unpublished_at_def)
  have "server_inv langs base n ?sv' (L(a \<mapsto> (Open, up)))"
  proof (rule server_inv_update [OF inv a, where x' = ?x'])
    show "ctx_ok (store ?sv') ?x' Open up"
      using o'(1) x r s by (auto simp: ctx_ok_def ready_def)
    show "posting ?x' \<and> ctx_id ?x' = k' \<or> (\<exists>b\<in>dom L. b \<noteq> a \<and> posting (ctxs sv b) \<and> ctx_id (ctxs sv b) = k')"
      if "unpublished_at (store ?sv') k'" for k'
      using unpublished_other [OF d(5), of k' a] that s(1) r(6) x
      by (cases "ctx_id ?x = k'") (auto simp: unpublished_at_def ready_def)
  qed (use d r s other in \<open>simp_all add: pages_ok_def\<close>)
  moreover have "L(a \<mapsto> (Open, up)) = L" using a by (simp add: fun_upd_idem)
  moreover have "secrets st' = secrets (store sv)" using r(6) free by (auto simp: secrets_def)
  ultimately show ?thesis using that r(1,2) by simp
qed

lemma post_create_ok:
  assumes inv: "server_inv langs base n sv L" and a: "L a = Some (Open, up)" and x: "ready (ctxs sv a)"
    and c: "length (upload_data c) < 2 ^ 63"
  shows "\<exists>r sv'. post_create c a sv = Some (r, sv') \<and> call_ok langs base n c a L up sv r sv'"
proof -
  note d = server_invD [OF inv] and o' = open_ctx [OF inv a]
  let ?x = "ctxs sv a" and ?st = "store sv"
  have p: "\<not> posting ?x" using x by (simp add: ready_def)
  consider (taken) "blob_at ?st (ctx_id ?x) \<noteq> None"
    | (full) "blob_at ?st (ctx_id ?x) = None"
        "htable_free ?st = 0 \<or> bucket_list (balloc_data ?st) (memory ?st) (bucket_of (expected ?x)) = []"
    | (room) "blob_at ?st (ctx_id ?x) = None" "htable_free ?st \<noteq> 0"
        "bucket_list (balloc_data ?st) (memory ?st) (bucket_of (expected ?x)) \<noteq> []"
    by blast
  then show ?thesis
  proof cases
    case taken
    then have "post_create c a sv = Some (post_defer_error a DEFERRED_ERROR_CODE_DUP sv)"
      using taken_iff [OF d(1)] by (simp add: post_create_def)
    then show ?thesis
      using defer_error_ok [OF inv a p, of DEFERRED_ERROR_CODE_DUP c] by (metis DEFERRED_ERROR_CODE.distinct prod.collapse)
  next
    case full
    let ?x' = "?x\<lparr>post_body := null_blk, deferred_error := DEFERRED_ERROR_CODE_OOM\<rparr>"
    have "storage_blob_create ?st (ctx_id ?x) (expected ?x) = Some (null_blk, ?st)"
      using create_fails [OF d(1) full(1) _ full(2)] x by (simp add: ready_def)
    then have "post_create c a sv = Some (keep_reading a, set_ctx a ?x' sv)"
      using taken_iff [OF d(1)] full(1)
      by (simp add: post_create_def post_defer_error_def set_ctx_def)
    moreover have "call_ok langs base n c a L up sv (keep_reading a) (set_ctx a ?x' sv)"
      by (rule quiet_call [OF inv a, where x' = ?x'])
        (use o' d p in \<open>auto simp: ctx_ok_def posting_def sending_def pages_ok_def\<close>)
    ultimately show ?thesis by blast
  next
    case room
    obtain b st' where r: "storage_blob_create ?st (ctx_id ?x) (expected ?x) = Some (b, st')"
        "blk_size b = expected ?x" "secrets st' = secrets ?st"
        "server_inv langs base n (set_ctx a (?x\<lparr>post_body := b\<rparr>) (sv\<lparr>store := st'\<rparr>)) L"
      by (rule create_inv [OF inv a x room]) (rule that)
    let ?sv1 = "set_ctx a (?x\<lparr>post_body := b\<rparr>) (sv\<lparr>store := st'\<rparr>)"
    have b: "blk_size b \<noteq> 0" using r(2) x by (auto simp: ready_def size_ok_def)
    then have "post_create c a sv = post_append c a ?sv1"
      using taken_iff [OF d(1)] room(1) r(1) by (simp add: post_create_def)
    moreover obtain r' sv' where r': "post_append c a ?sv1 = Some (r', sv')" "posting (ctxs sv' a)"
        "call_ok langs base n c a L up ?sv1 r' sv'"
      using post_append_ok [OF r(4) a _ c] b by (auto simp: posting_def)
    moreover have "call_ok langs base n c a L up sv r' sv'"
      using r'(2,3) r(3) p by (simp add: call_ok_def call_event_def)
    ultimately show ?thesis by auto
  qed
qed

lemma post_length_size: "post_length c = Some m \<Longrightarrow> size_ok m"
  by (auto simp: post_length_def size_ok_def BLOB_SIZE_MAX_def BLOB_SIZE_MIN_def word_le_nat_alt not_less
      word_less_nat_alt LOG_MAX_def LOG_MIN_def Let_def split: option.splits if_splits)

lemma ctx_ok_expected:
  assumes "ctx_ok st x Open up" "size_ok m" "posting x \<Longrightarrow> expected x = m"
  shows "ctx_ok st (x\<lparr>expected := m\<rparr>) Open up"
  using assms by (auto simp: ctx_ok_def posting_def sending_def)

lemma post_data_ok:
  assumes inv: "server_inv langs base n sv L" and a: "L a = Some (Open, up)"
    and k: "have_id (ctxs sv a)" "\<not> key_is_null (ctx_id (ctxs sv a))"
    and c: "length (upload_data c) < 2 ^ 63"
  shows "\<exists>r sv'. post_data c a sv = Some (r, sv') \<and> call_ok langs base n c a L up sv r sv'"
proof -
  note d = server_invD [OF inv] and o' = open_ctx [OF inv a]
  let ?x = "ctxs sv a"
  let ?len = "if expected ?x = 0 then post_length c else Some (expected ?x)"
  consider (error) "deferred_error ?x \<noteq> DEFERRED_ERROR_CODE_NO_ERROR"
    | (bad) "deferred_error ?x = DEFERRED_ERROR_CODE_NO_ERROR" "?len = None"
    | (good) m where "deferred_error ?x = DEFERRED_ERROR_CODE_NO_ERROR" "?len = Some m" by fastforce
  then show ?thesis
  proof cases
    case error
    then have p: "\<not> posting ?x" using o'(1) by (auto simp: ctx_ok_def)
    have "post_data c a sv = Some (keep_reading a, sv)" using error by (simp add: post_data_def Let_def)
    moreover have "call_ok langs base n c a L up sv (keep_reading a) sv"
      by (rule quiet_call [OF inv a, where x' = ?x]) (use o' d p error in \<open>auto simp: ctx_ok_def\<close>)
    ultimately show ?thesis by blast
  next
    case bad
    then have "post_data c a sv = Some (drop_connection a, sv)" by (simp add: post_data_def Let_def)
    then show ?thesis using ended_call [OF inv a] by simp
  next
    case (good m)
    let ?x1 = "?x\<lparr>expected := m\<rparr>"
    have m: "size_ok m"
      using good(2) post_length_size [of c m] o'(1) by (auto simp: ctx_ok_def split: if_splits)
    have e: "expected ?x = m" if "posting ?x" using posting_size(1) [OF o'(1) that] good(2) by simp
    have s: "posting ?x1 = posting ?x" "\<not> sending ?x1" using o'(2) by (simp_all add: posting_def sending_def)
    have inv1: "server_inv langs base n (set_ctx a ?x1 sv) L"
      by (rule ctx_change_same [OF inv a ctx_ok_expected [OF o'(1) m e]]) (use s in simp_all)
    have "\<exists>r sv'. post_data c a sv = Some (r, sv') \<and> call_ok langs base n c a L up (set_ctx a ?x1 sv) r sv'"
    proof (cases "posting ?x")
      case True
      then have "post_data c a sv = post_append c a (set_ctx a ?x1 sv)"
        using good by (simp add: post_data_def Let_def posting_def)
      then show ?thesis using post_append_ok [OF inv1 a _ c] True s(1) by auto
    next
      case False
      then have "post_data c a sv = post_create c a (set_ctx a ?x1 sv)"
        using good by (simp add: post_data_def Let_def posting_def)
      then show ?thesis using post_create_ok [OF inv1 a _ c] False k m good(1) s(1) by (simp add: ready_def)
    qed
    then show ?thesis using call_ok_after_change s(1) by fastforce
  qed
qed

section \<open>The end of an upload\<close>

text \<open>A request whose blob is complete publishes it: what was uploaded becomes a secret.\<close>

lemma ttl_published:
  assumes "unat (t :: u32) + 3600 < 2 ^ 32 - 2"
  shows "t + BLOB_TTL_S \<noteq> VALID_UNTIL_NOT_PUBLISHED" "unat (t + BLOB_TTL_S) = unat t + 3600"
proof -
  show e: "unat (t + BLOB_TTL_S) = unat t + 3600"
    using assms by (subst unat_add_lem [THEN iffD1]) (simp_all add: BLOB_TTL_S_def)
  show "t + BLOB_TTL_S \<noteq> VALID_UNTIL_NOT_PUBLISHED"
  proof
    assume "t + BLOB_TTL_S = VALID_UNTIL_NOT_PUBLISHED"
    then show False using e assms by (simp add: VALID_UNTIL_NOT_PUBLISHED_def VALID_UNTIL_EMPTY_def)
  qed
qed

lemma publish_call:
  assumes inv: "server_inv langs base n sv L" and a: "L a = Some (Open, up)"
    and x: "posting (ctxs sv a)" "read_size (ctxs sv a) = expected (ctxs sv a)"
    and c: "unat (now_s c) + 3600 < 2 ^ 32 - 2"
  shows "\<exists>sv'. post_end c a sv = Some (answer a (send_response c 200 Body_empty None HP_API_BLOB), sv') \<and>
    \<not> posting (ctxs sv' a) \<and>
    call_ok langs base n c a L up sv (answer a (send_response c 200 Body_empty None HP_API_BLOB)) sv'"
proof -
  note d = server_invD [OF inv] and o' = open_ctx [OF inv a] and t = ttl_published [OF c]
  let ?x = "ctxs sv a" and ?t = "now_s c + BLOB_TTL_S"
  let ?x' = "?x\<lparr>post_body := null_blk\<rparr>"
  have ctx: "deferred_error ?x = DEFERRED_ERROR_CODE_NO_ERROR"
      "blob_at (store sv) (ctx_id ?x) = Some (up, VALID_UNTIL_NOT_PUBLISHED)"
    using o'(1) x by (auto simp: ctx_ok_def)
  obtain st' where r: "storage_blob_publish (store sv) (ctx_id ?x) ?t = Some (True, st')"
      "storage_inv st' (sends sv L)" "owned_block st' = owned_block (store sv)"
      "blob_at st' = (blob_at (store sv))(ctx_id ?x \<mapsto> (up, ?t))"
    by (rule publish_map [OF d(1), of "ctx_id ?x" ?t]) (use ctx(2) that in \<open>auto simp: dom_def fun_eq_iff\<close>)
  let ?sv' = "set_ctx a ?x' (sv\<lparr>store := st'\<rparr>)"
  let ?r = "answer a (send_response c 200 Body_empty None HP_API_BLOB)"
  have s: "\<not> sending ?x'" "\<not> posting ?x'" using o'(2) by (simp_all add: sending_def)
  have other: "ctx_id (ctxs sv b) \<noteq> ctx_id ?x" if "b \<in> dom L" "b \<noteq> a" "posting (ctxs sv b)" for b
    by (rule other_upload [OF d(5) o'(3) x(1) that])
  have "server_inv langs base n ?sv' (L(a \<mapsto> (Closing, up)))"
  proof (rule server_inv_update [OF inv a, where x' = ?x'])
    show "ctx_ok (store ?sv') ?x' Closing up" using o'(1) s by (auto simp: ctx_ok_def)
    show "posting ?x' \<and> ctx_id ?x' = k' \<or> (\<exists>b\<in>dom L. b \<noteq> a \<and> posting (ctxs sv b) \<and> ctx_id (ctxs sv b) = k')"
      if "unpublished_at (store ?sv') k'" for k'
      using unpublished_other [OF d(5), of k' a] that r(4) t(1)
      by (auto simp: unpublished_at_def split: if_splits)
  qed (use d r s other in \<open>simp_all add: pages_ok_def\<close>)
  moreover have "secrets st' = (secrets (store sv))(ctx_id ?x \<mapsto> (up, ?t))" "secrets (store sv) (ctx_id ?x) = None"
    using r(4) t(1) ctx(2) by (auto simp: secrets_def)
  ultimately have "call_ok langs base n c a L up sv ?r ?sv'"
    using s x(1) by (simp add: call_ok_def call_event_def secrets_step.post)
  moreover have "post_end c a sv = Some (?r, ?sv')"
    using ctx(1) x r(1) by (simp add: post_end_def posting_def)
  ultimately show ?thesis using s(2) by auto
qed

lemma post_end_ok:
  assumes inv: "server_inv langs base n sv L" and a: "L a = Some (Open, up)"
    and c: "unat (now_s c) + 3600 < 2 ^ 32 - 2"
  shows "\<exists>r sv'. post_end c a sv = Some (r, sv') \<and> call_ok langs base n c a L up sv r sv'"
proof (cases "posting (ctxs sv a) \<and> read_size (ctxs sv a) = expected (ctxs sv a)")
  case True
  then show ?thesis using publish_call [OF inv a _ _ c] by blast
next
  case False
  then obtain s m where "post_end c a sv = Some (answer a (send_text c s m), sv)"
    by (cases "deferred_error (ctxs sv a)")
      (auto simp: post_end_def posting_def deferred_error_responses_def)
  then show ?thesis using ended_call [OF inv a] by simp
qed

lemma post_blob_ok:
  assumes inv: "server_inv langs base n sv L" and a: "L a = Some (Open, up)" and k: "\<not> key_is_null k"
    and c: "unat (now_s c) + 3600 < 2 ^ 32 - 2" "length (upload_data c) < 2 ^ 63"
  shows "\<exists>r sv'. ahc_post_blob c a k sv = Some (r, sv') \<and> call_ok langs base n c a L up sv r sv'"
proof (cases "have_id (ctxs sv a) \<and> ctx_id (ctxs sv a) \<noteq> k")
  case True
  then have "ahc_post_blob c a k sv = Some (drop_connection a, sv)"
    by (auto simp: ahc_post_blob_def Let_def)
  then show ?thesis using ended_call [OF inv a] by simp
next
  case False
  note o' = open_ctx [OF inv a]
  let ?x = "ctxs sv a"
  define x1 where "x1 = (if have_id ?x then ?x else ?x\<lparr>ctx_id := k, have_id := True\<rparr>)"
  have p: "have_id ?x" if "posting ?x" using o'(1) that by (simp add: ctx_ok_def)
  have x1: "posting x1 = posting ?x" "\<not> sending x1" "posting x1 \<Longrightarrow> ctx_id x1 = ctx_id ?x"
      "have_id x1" "ctx_id x1 = k" "ctx_ok (store sv) x1 Open up"
    using False p o'(1,2) by (auto simp: x1_def posting_def sending_def ctx_ok_def split: if_splits)
  have inv1: "server_inv langs base n (set_ctx a x1 sv) L"
    using ctx_change_same [OF inv a x1(6,2,1,3)] .
  have "set_ctx a x1 sv = (if have_id ?x then sv else set_ctx a (?x\<lparr>ctx_id := k, have_id := True\<rparr>) sv)"
    by (simp add: x1_def set_ctx_def)
  then have "ahc_post_blob c a k sv =
      (if upload_data c \<noteq> [] then post_data c a (set_ctx a x1 sv) else post_end c a (set_ctx a x1 sv))"
    using False by (auto simp: ahc_post_blob_def Let_def)
  moreover have "\<exists>r sv'. post_data c a (set_ctx a x1 sv) = Some (r, sv') \<and>
      call_ok langs base n c a L up (set_ctx a x1 sv) r sv'"
    using post_data_ok [OF inv1 a _ _ c(2)] x1(4,5) k by simp
  moreover have "\<exists>r sv'. post_end c a (set_ctx a x1 sv) = Some (r, sv') \<and>
      call_ok langs base n c a L up (set_ctx a x1 sv) r sv'"
    by (rule post_end_ok [OF inv1 a c(1)])
  ultimately show ?thesis using call_ok_after_change [OF _ x1(1,3)] by fastforce
qed

section \<open>The paths\<close>

text \<open>What the call may bring: strings end, the clock stays below the two marks, data fits into memory.\<close>

definition call_in :: "config \<Rightarrow> nat \<Rightarrow> mhd_call \<Rightarrow> bool" where
  "call_in cfg langs c \<longleftrightarrow> cstr (url c) \<and> unat (now_s c) + 3600 < 2 ^ 32 - 2 \<and>
     length (upload_data c) < 2 ^ 63 \<and> request_language cfg c < langs"

lemma call_inD:
  assumes "call_in cfg langs c"
  shows "cstr (url c)" "unat (now_s c) + 3600 < 2 ^ 32 - 2" "length (upload_data c) < 2 ^ 63"
    "request_language cfg c < langs"
  using assms by (simp_all add: call_in_def)

lemma strnlen_drop: "strnlen s (1 + ID_LENGTH) = ID_LENGTH \<Longrightarrow> length s = ID_LENGTH"
  by (auto simp: strnlen_def min_def split: if_splits)

text \<open>A branch that returns, or leaves the server alone and falls through to the end of the handler.\<close>

definition branch_ok ::
    "nat \<Rightarrow> addr \<Rightarrow> nat \<Rightarrow> mhd_call \<Rightarrow> addr \<Rightarrow> requests \<Rightarrow> u8 list \<Rightarrow> server \<Rightarrow>
     (ahc_result option \<times> server) option \<Rightarrow> bool" where
  "branch_ok langs base n c a L up sv q \<longleftrightarrow>
     (\<exists>r sv'. q = Some (Some r, sv') \<and> call_ok langs base n c a L up sv r sv') \<or> q = Some (None, sv)"

lemma blob_ok:
  assumes inv: "server_inv langs base n sv L" and a: "L a = Some (Open, up)" and c: "call_in cfg langs c"
    and len: "strnlen (drop 6 (url c)) (1 + ID_LENGTH) = ID_LENGTH"
  shows "branch_ok langs base n c a L up sv (ahc_blob c a g sv)"
proof (cases "hex_decode (drop 6 (url c))")
  case None
  then have "ahc_blob c a g sv = Some (Some (drop_connection a), sv)"
    using id_hex_to_bytes_decode [OF strnlen_drop [OF len]] by (simp add: ahc_blob_def)
  then show ?thesis using ended_call [OF inv a] by (simp add: branch_ok_def)
next
  case (Some bs)
  then have k: "id_hex_to_bytes (drop 6 (url c)) = Some (Some bs)" "url_key c = key_of_bytes bs"
    using id_hex_to_bytes_decode [OF strnlen_drop [OF len]] by (simp_all add: url_key_def)
  have null: "key_h (url_key c) = 0 \<and> key_l (url_key c) = 0 \<longleftrightarrow> key_is_null (url_key c)"
    by (simp add: key_is_null_def or_eq_0_iff)
  show ?thesis
  proof (cases "key_is_null (url_key c)")
    case True
    then have "ahc_blob c a g sv = Some (Some (drop_connection a), sv)"
      using k null by (simp add: ahc_blob_def)
    then show ?thesis using ended_call [OF inv a] by (simp add: branch_ok_def)
  next
    case False
    obtain r1 sv1 where get: "ahc_get_blob c a (url_key c) sv = Some (r1, sv1)"
        "call_ok langs base n c a L up sv r1 sv1"
      using get_blob_ok [OF inv a] by blast
    obtain r2 sv2 where post: "ahc_post_blob c a (url_key c) sv = Some (r2, sv2)"
        "call_ok langs base n c a L up sv r2 sv2"
      using post_blob_ok [OF inv a False call_inD(2,3) [OF c]] by blast
    have "\<not> (key_h (key_of_bytes bs) = 0 \<and> key_l (key_of_bytes bs) = 0)"
      using False null k(2) by simp
    then have "ahc_blob c a g sv = (if g then Some (Some r1, sv1)
        else if strncmp_eq (meth c) ''POST'' 5 then Some (Some r2, sv2) else Some (None, sv))"
      using k get(1) post(1) by (auto simp: ahc_blob_def Let_def)
    then show ?thesis using get(2) post(2) by (auto simp: branch_ok_def)
  qed
qed

lemma asset_root: "asset_find b ''/'' = Some 0"
  by (cases b) (simp_all add: asset_find_def asset_paths_def strncmp_eq_def ASSET_PATH_STRING_MAX_SIZE_def)

lemma replace_text_length: "15 \<le> length s \<Longrightarrow> length (replace_text s) = REPLACE_SIZE"
  by (simp add: replace_text_def REPLACE_SIZE_def)

lemma pad_right_length: "length (pad_right m s) = max m (length s)"
  by (simp add: pad_right_def)

lemma patch_ok:
  assumes "pages_ok langs sv" "g < langs"
  obtains sv' where "patch_root_page cfg c g 0 sv = Some sv'" "pages_ok langs sv'"
    "store sv' = store sv" "ctxs sv' = ctxs sv" "ctx_pool sv' = ctx_pool sv" "deb sv' = deb sv"
    "html_uptime_ptr sv' = html_uptime_ptr sv" "html_version_ptr sv' = html_version_ptr sv"
    "\<And>h j. (h, j) \<noteq> (g, 0) \<Longrightarrow> pages sv' h j = pages sv h j"
    "length (pages sv' g 0) = length (pages sv g 0)"
proof -
  let ?u = "replace_text (pad_right 14 (fmt_hours cfg (now_s c - start_time sv)) @ ''H'')"
  let ?v = "replace_text (take 15 (pad_right 15 (version_string cfg)))"
  have p: "html_uptime_ptr sv g + REPLACE_SIZE \<le> length (pages sv g 0)"
      "html_version_ptr sv g + REPLACE_SIZE \<le> length (pages sv g 0)"
    using assms by (auto simp: pages_ok_def)
  have len: "length ?u = REPLACE_SIZE" "length ?v = REPLACE_SIZE"
    by (simp_all add: replace_text_length pad_right_length)
  let ?p1 = "splice (pages sv g 0) (html_uptime_ptr sv g) ?u"
  let ?p2 = "splice ?p1 (html_version_ptr sv g) ?v"
  have w: "write_page (pages sv g 0) (html_uptime_ptr sv g) ?u = Some ?p1" "length ?p1 = length (pages sv g 0)"
      "write_page ?p1 (html_version_ptr sv g) ?v = Some ?p2" "length ?p2 = length (pages sv g 0)"
    using write_page_ok [of "html_uptime_ptr sv g" ?u "pages sv g 0"]
      write_page_ok [of "html_version_ptr sv g" ?v ?p1] p len by simp_all
  define sv' where "sv' = sv\<lparr>pages := (pages sv)(g := (pages sv g)(0 := ?p2))\<rparr>"
  have "patch_root_page cfg c g 0 sv = Some sv'"
    using w(1,3) by (simp add: patch_root_page_def sv'_def)
  moreover have "pages_ok langs sv'" using assms(1) w(4) by (auto simp: pages_ok_def sv'_def)
  moreover have "pages sv' h j = pages sv h j" if "(h, j) \<noteq> (g, 0)" for h j
    using that by (auto simp: sv'_def)
  ultimately show ?thesis using that [of sv'] w(4) by (simp add: sv'_def)
qed

lemma status_list:
  assumes "storage_inv s out"
  shows "storage_status s = Some (map (\<lambda>i. (bbucket_capacity (of_nat i) - ucast (bucket_free (balloc_data s ! i)),
    bbucket_capacity (of_nat i))) [0..<11])"
proof -
  have len: "length (balloc_data s) = 11"
    using balloc_invD(1) [OF pool_invD(1) [OF storage_invD(6) [OF assms]]] .
  have "unat BUCKETS_COUNT = 11" by (simp add: BUCKETS_COUNT_def LOG_MAX_def)
  then show ?thesis
    unfolding storage_status_def using len
    by (intro trans [OF those_map_Some])
      (auto simp: bbucket_items_free_def unat_bucket Let_def)
qed

lemma pages_branch_ok:
  assumes inv: "server_inv langs base n sv L" and a: "L a = Some (Open, up)" and c: "call_in cfg langs c"
    and root: "root = (g \<and> strncmp_eq (url c) ''/'' 2)"
    and asset: "asset = (if g then asset_find (assembled_html cfg) (url c) else None)"
  shows "branch_ok langs base n c a L up sv
    (ahc_pages cfg c a (request_language cfg c) asset root sv)"
proof -
  note d = server_invD [OF inv] and o' = open_ctx [OF inv a]
  let ?g = "request_language cfg c"
  have url: "url c = ''/''" if root
    using that root strncmp_eq_whole [OF call_inD(1) [OF c], of "''/''" 2] by (simp add: cstr_def NUL_def)
  obtain pl where pl: "status_payload cfg c sv = Some pl"
    using status_list [OF d(1)] by (simp add: status_payload_def)
  obtain sv' where sv': "patch_root_page cfg c ?g 0 sv = Some sv'" "pages_ok langs sv'" "store sv' = store sv"
      "ctxs sv' = ctxs sv" "ctx_pool sv' = ctx_pool sv" "deb sv' = deb sv"
    by (rule patch_ok [OF d(4) call_inD(4) [OF c]]) (rule that)
  have patched: "call_ok langs base n c a L up sv (answer a (send_response c s b t h)) sv'" for s b t h
    by (rule quiet_call [OF inv a, where x' = "ctxs sv a"])
      (use sv' d o' ctx_ok_closing in auto)
  note ended = ended_call [OF inv a]
  show ?thesis
  proof (cases asset)
    case None
    then show ?thesis using ended pl by (simp add: branch_ok_def ahc_pages_def)
  next
    case (Some i)
    then have "i = 0" if root using asset url [OF that] root that asset_root by auto
    then show ?thesis using Some ended patched sv'(1) by (auto simp: branch_ok_def ahc_pages_def)
  qed
qed


section \<open>The handler\<close>

lemma allow_ok:
  assumes "deb_inv d"
  obtains allow d' where "debouncer_allow_addr d sa s ns = Some (allow, d')" "deb_inv d'"
proof (cases "deb_ip_key sa = 0")
  case True
  then have "debouncer_allow_addr d sa s ns = Some (True, d)"
    by (simp add: debouncer_allow_addr_def debouncer_allow_addr_now_def debouncer_allow_key_def)
  then show ?thesis using that assms by blast
next
  case False
  then show ?thesis
    by (rule allow_cases [OF assms, of "deb_ip_key sa" "deb_now_ms s ns"])
      (use that assms in \<open>auto simp: debouncer_allow_addr_def debouncer_allow_addr_now_def\<close>)
qed

lemma debounce_ok:
  assumes inv: "server_inv langs base n sv L" and a: "L a = Some (Open, up)"
  obtains allow sv' where "ahc_debounce cfg c a static sv = Some (allow, sv')"
    "server_inv langs base n sv' L" "store sv' = store sv" "ctx_pool sv' = ctx_pool sv"
    "posting (ctxs sv' a) = posting (ctxs sv a)" "ctx_id (ctxs sv' a) = ctx_id (ctxs sv a)"
    "\<And>r sv''. call_ok langs base n c a L up sv' r sv'' \<Longrightarrow> call_ok langs base n c a L up sv r sv''"
proof -
  note d = server_invD [OF inv] and o' = open_ctx [OF inv a]
  let ?x = "ctxs sv a"
  let ?x1 = "?x\<lparr>rate_checked := True\<rparr>"
  obtain allow db where db: "debouncer_allow_addr (deb sv) (connection_peer_addr cfg c)
      (now_tv_sec c) (now_tv_nsec c) = Some (allow, db)" "deb_inv db"
    by (rule allow_ok [OF d(3)]) (rule that)
  let ?sv1 = "set_ctx a ?x1 sv"
  let ?sv2 = "?sv1\<lparr>deb := db\<rparr>"
  have s: "posting ?x1 = posting ?x" "sending ?x1 = sending ?x" "ctx_ok (store sv) ?x1 Open up"
    using o'(1) by (simp_all add: posting_def sending_def ctx_ok_def)
  have inv2: "server_inv langs base n (set_ctx a ?x1 sv) L"
    using ctx_change_same [OF inv a s(3)] s(1,2) o'(2) by simp
  then have inv3: "server_inv langs base n (set_ctx a ?x1 sv\<lparr>deb := db\<rparr>) L"
    using db(2) by (simp add: server_inv_def pages_ok_def sends_def)
  consider "ahc_debounce cfg c a static sv = Some (True, sv)"
    | "ahc_debounce cfg c a static sv = Some (True, ?sv1)"
    | "ahc_debounce cfg c a static sv = Some (allow, ?sv2)"
    using db(1) by (cases "use_debouncer cfg \<and> \<not> rate_checked ?x"; cases static) (simp_all add: ahc_debounce_def Let_def)
  then show ?thesis
  proof cases
    case 1
    then show ?thesis using that inv by blast
  next
    case 2
    then show ?thesis using that [of True ?sv1] inv2 s(1) call_ok_after_change [of langs base n c a L up ?x1 sv] by simp
  next
    case 3
    have "call_ok langs base n c a L up ?sv2 r sv'' \<Longrightarrow> call_ok langs base n c a L up sv r sv''" for r sv''
      using s(1) call_ok_after_change [of langs base n c a L up ?x1 sv] by (simp add: call_ok_def)
    then show ?thesis using that [OF 3 inv3] s(1) by simp
  qed
qed

lemma ahc_later:
  assumes inv: "server_inv langs base n sv L" and a: "L a = Some (Open, up)" "con_cls c = Some a"
    and c: "call_in cfg langs c"
  shows "\<exists>r sv'. ahc cfg c sv = Some (r, sv') \<and> call_ok langs base n c a L up sv r sv'"
proof -
  define g where "g = strncmp_eq (meth c) ''GET'' 4"
  define root where "root = (g \<and> strncmp_eq (url c) ''/'' 2)"
  define asset where "asset = (if g then asset_find (assembled_html cfg) (url c) else None)"
  obtain allow sv1 where d: "ahc_debounce cfg c a (asset \<noteq> None) sv = Some (allow, sv1)"
      "server_inv langs base n sv1 L"
      "\<And>r sv''. call_ok langs base n c a L up sv1 r sv'' \<Longrightarrow> call_ok langs base n c a L up sv r sv''"
    by (rule debounce_ok [OF inv a(1), of cfg c "asset \<noteq> None"]) (rule that)
  define q where "q =
    (if \<not> strncmp_eq (url c) ''/blob/'' 6 then ahc_pages cfg c a (request_language cfg c) asset root sv1
     else if strnlen (drop 6 (url c)) (1 + ID_LENGTH) = ID_LENGTH then ahc_blob c a g sv1
     else Some (None, sv1))"
  have "branch_ok langs base n c a L up sv1 q"
    unfolding q_def using pages_branch_ok [OF d(2) a(1) c root_def asset_def] blob_ok [OF d(2) a(1) c]
    by (simp add: branch_ok_def)
  moreover have "ahc cfg c sv = (if \<not> allow then Some (answer a (send_text c 429 ''Too Many Requests''), sv1)
      else do {
        (r, sv) \<leftarrow> q;
        case r of
          Some r \<Rightarrow> Some (r, sv)
        | None \<Rightarrow> if upload_data c \<noteq> [] then Some (drop_connection a, sv)
            else Some (answer a (send_text c 404 ''Not Found''), sv) })"
    using d(1) a(2)
    by (simp add: ahc_def ahc_context_def q_def root_def asset_def g_def Let_def)
  ultimately have "\<exists>r sv'. ahc cfg c sv = Some (r, sv') \<and> call_ok langs base n c a L up sv1 r sv'"
    using ended_call [OF d(2) a(1)] by (auto simp: branch_ok_def)
  then show ?thesis using d(3) by blast
qed

lemma context_ok:
  assumes inv: "server_inv langs base n sv L" and c: "con_cls c = None"
  obtains (full) p where "ahc_context c sv = Some (None, sv\<lparr>ctx_pool := p\<rparr>)"
      "server_inv langs base n (sv\<lparr>ctx_pool := p\<rparr>) L" "dom L = ctx_slots base n"
  | (new) a p where "ahc_context c sv = Some (Some (a, True), set_ctx a zero_ctx (sv\<lparr>ctx_pool := p\<rparr>))"
      "a \<notin> dom L" "server_inv langs base n (set_ctx a zero_ctx (sv\<lparr>ctx_pool := p\<rparr>)) (L(a \<mapsto> (Open, [])))"
proof -
  note d = server_invD [OF inv]
  obtain al m where p: "ctx_pool sv = (al, m)" by (cases "ctx_pool sv")
  show ?thesis
  proof (cases "ctx_free_list al m = []")
    case True
    then have "ctxa_alloc (al, m) = Some (None, al, m)" "dom L = ctx_slots base n"
      using ctxa_alloc_null d(2) p by auto
    moreover have "sv\<lparr>ctx_pool := (al, m)\<rparr> = sv" using p by simp
    then have "server_inv langs base n (sv\<lparr>ctx_pool := (al, m)\<rparr>) L" by (rule ssubst) (rule inv)
    ultimately show ?thesis using full [of "(al, m)"] c p by (simp add: ahc_context_def)
  next
    case False
    obtain a al' m' where r: "ctxa_alloc (al, m) = Some (Some a, al', m')" "a \<notin> dom L"
        "ctx_inv base n (al', m') (insert a (dom L))"
      using ctxa_alloc_ok [OF _ False, of base n "dom L"] d(2) p by metis
    let ?sv1 = "set_ctx a zero_ctx (sv\<lparr>ctx_pool := (al', m')\<rparr>)"
    let ?L = "L(a \<mapsto> (Open, []))"
    have z: "\<not> posting zero_ctx" "\<not> sending zero_ctx"
      by (simp_all add: posting_def sending_def zero_ctx_def)
    have "ctx_ok (store sv) zero_ctx Open []" using z by (simp add: ctx_ok_def) (simp add: zero_ctx_def)
    then have "requests_ok (store sv) ((ctxs sv)(a := zero_ctx)) ?L"
    proof (rule requests_ok_update [OF d(5)])
      show "posting zero_ctx \<and> ctx_id zero_ctx = k \<or>
          (\<exists>b\<in>dom L. b \<noteq> a \<and> posting (ctxs sv b) \<and> ctx_id (ctxs sv b) = k)" if "unpublished_at (store sv) k" for k
        using requests_okD(4) [OF d(5) that] r(2) by metis
    qed (use z in simp_all)
    moreover have "sends ?sv1 ?L = sends sv L" using z r(2) unfolding sends_def by (auto split: if_splits)
    ultimately have "server_inv langs base n ?sv1 ?L"
      using d r(3) by (simp add: server_inv_def pages_ok_def)
    then show ?thesis using new [of a "(al', m')"] c p r by (simp add: ahc_context_def)
  qed
qed

lemma ahc_first:
  assumes inv: "server_inv langs base n sv L" and c: "con_cls c = None"
  shows "\<exists>r sv'. ahc cfg c sv = Some (r, sv') \<and> store sv' = store sv \<and> consumed r = False \<and>
    (case new_con_cls r of
       None \<Rightarrow> mhd_yes r = False \<and> queued r = None \<and> dom L = ctx_slots base n \<and> server_inv langs base n sv' L
     | Some a \<Rightarrow> a \<notin> dom L \<and> server_inv langs base n sv' (L(a \<mapsto> (phase_after r, []))))"
  using assms
proof (cases rule: context_ok)
  case (full p)
  then show ?thesis by (simp add: ahc_def)
next
  case (new a p)
  let ?sv1 = "set_ctx a zero_ctx (sv\<lparr>ctx_pool := p\<rparr>)" and ?L = "L(a \<mapsto> (Open, []))"
  define asset where "asset = (if strncmp_eq (meth c) ''GET'' 4 then asset_find (assembled_html cfg) (url c) else None)"
  obtain allow sv2 where d: "ahc_debounce cfg c a (asset \<noteq> None) ?sv1 = Some (allow, sv2)"
      "server_inv langs base n sv2 ?L" "store sv2 = store ?sv1"
    by (rule debounce_ok [OF new(3), of a "[]" cfg c "asset \<noteq> None"]) (simp, rule that)
  let ?r429 = "answer a (send_text c 429 ''Too Many Requests'')"
  let ?r0 = "\<lparr>mhd_yes = True, queued = None, consumed = False, new_con_cls = Some a\<rparr>"
  have "server_inv langs base n sv2 (L(a \<mapsto> (Closing, [])))"
    using ended_call [OF d(2), of a "[]" ?r429 c] by (simp add: call_ok_def)
  moreover have "ahc cfg c sv = Some (if allow then ?r0 else ?r429, sv2)"
    using new(1) d(1) by (simp add: ahc_def asset_def)
  moreover have "phase_after ?r0 = Open" "consumed ?r429 = False"
    by (simp_all add: phase_after_def answer_def)
  ultimately show ?thesis using new(2) d(2,3) by auto
qed

end
