(* ===== verification/Storage_Status.thy ===== *)
theory Storage_Status
  imports Requests Small_Store
begin

text \<open>
  What \<^verbatim>\<open>storage_status\<close> counts. The allocator knows how many blocks are free only; that the rest is the number of blobs and of
  blocks with readers follows from the invariant, because no block is lost and none is held twice.
\<close>

section \<open>Held blocks, bucket by bucket\<close>

definition in_bucket :: "nat \<Rightarrow> ('o \<times> blk_t) set \<Rightarrow> ('o \<times> blk_t) set" where
  "in_bucket i H = {x \<in> H. bucket_of (blk_size (snd x)) = i}"

lemma live_held:
  assumes "pool_inv base ba m H" "i < 11"
  shows "bij_betw (\<lambda>x. blk_data (snd x)) (in_bucket i H) (live base ba m i)"
proof (rule bij_betw_imageI)
  note d = pool_invD [OF assms(1)]
  show "inj_on (\<lambda>x. blk_data (snd x)) (in_bucket i H)"
    using d(4) by (auto simp: inj_on_def in_bucket_def)
  show "(\<lambda>x. blk_data (snd x)) ` in_bucket i H = live base ba m i"
  proof (intro equalityI subsetI)
    fix a assume "a \<in> live base ba m i"
    from d(5) [OF assms(2) this] obtain o' b where "(o', b) \<in> H" "blk_data b = a" "bucket_of (blk_size b) = i" by blast
    then show "a \<in> (\<lambda>x. blk_data (snd x)) ` in_bucket i H"
      by (intro image_eqI [of _ _ "(o', b)"]) (simp_all add: in_bucket_def)
  qed (use d(3) in \<open>auto simp: in_bucket_def\<close>)
qed

lemma card_held:
  assumes "pool_inv base ba m H" "i < 11"
  shows "finite (in_bucket i H)" "card (in_bucket i H) + unat (bucket_free (ba ! i)) = 2 ^ (17 - i)"
proof -
  note b = pool_invD(1) [OF assms(1)] and bij = live_held [OF assms]
  have "finite (live base ba m i)" by (simp add: live_def)
  then show "finite (in_bucket i H)" using bij_betw_finite [OF bij] by simp
  have "card (live base ba m i) = 2 ^ (17 - i) - unat (bucket_free (ba ! i))"
    unfolding live_def
    using card_Diff_subset [OF _ balloc_invD(7) [OF b assms(2)]] distinct_card [OF balloc_invD(6) [OF b assms(2)]]
      balloc_invD(8) [OF b assms(2)] card_slots [OF assms(2)] by simp
  moreover have "unat (bucket_free (ba ! i)) \<le> 2 ^ (17 - i)"
    using bucket_list_le [OF b assms(2)] balloc_invD(8) [OF b assms(2)] by simp
  ultimately show "card (in_bucket i H) + unat (bucket_free (ba ! i)) = 2 ^ (17 - i)"
    using bij_betw_same_card [OF bij] by simp
qed

lemma card_all_held:
  assumes "pool_inv base ba m H"
  shows "finite H" "card H = (\<Sum>i<11. card (in_bucket i H))"
proof -
  have "H = (\<Union>i<11. in_bucket i H)"
    using bucket_of_ok(1) pool_invD(2) [OF assms] by (fastforce simp: in_bucket_def)
  moreover have "finite (\<Union>i<11. in_bucket i H)" using card_held(1) [OF assms] by simp
  moreover have "card (\<Union>i<11. in_bucket i H) = (\<Sum>i<11. card (in_bucket i H))"
    using card_held(1) [OF assms] by (intro card_UN_disjoint) (auto simp: in_bucket_def)
  ultimately show "finite H" "card H = (\<Sum>i<11. card (in_bucket i H))" by simp_all
qed

text \<open>Owners are ids and readers.\<close>

lemma holders_bij:
  "in_bucket i (holders V out) =
    (\<lambda>k. (Some k, fst (the (V k)))) ` {k. \<exists>b v. V k = Some (b, v) \<and> bucket_of (blk_size b) = i} \<union>
    Pair None ` {b \<in> out. bucket_of (blk_size b) = i}"
  by (force simp: in_bucket_def holders_def image_iff)

lemma card_bucket_holders:
  assumes "finite (in_bucket i (holders V out))"
  shows "card (in_bucket i (holders V out)) =
    card {k. \<exists>b v. V k = Some (b, v) \<and> bucket_of (blk_size b) = i} + card {b \<in> out. bucket_of (blk_size b) = i}"
proof -
  let ?f = "\<lambda>k. (Some k, fst (the (V k)))"
  have "inj_on ?f A" "inj_on (Pair (None :: htable_key_t option)) B" for A and B :: "blk_t set" by (auto simp: inj_on_def)
  moreover have "finite (?f ` {k. \<exists>b v. V k = Some (b, v) \<and> bucket_of (blk_size b) = i})"
      "finite (Pair (None :: htable_key_t option) ` {b \<in> out. bucket_of (blk_size b) = i})"
    using assms unfolding holders_bij by (simp_all only: finite_Un)
  ultimately show ?thesis
    unfolding holders_bij by (subst card_Un_disjoint) (auto simp: card_image)
qed

lemma card_holders:
  assumes "finite (holders V out)"
  shows "card (holders V out) = card (dom V) + card out"
proof -
  let ?f = "\<lambda>k. (Some k, fst (the (V k)))"
  have h: "holders V out = ?f ` dom V \<union> Pair None ` out" by (force simp: holders_def image_iff)
  have "inj_on ?f (dom V)" "inj_on (Pair (None :: htable_key_t option)) out" by (auto simp: inj_on_def)
  moreover have "finite (?f ` dom V)" "finite (Pair (None :: htable_key_t option) ` out)"
    using assms unfolding h by (simp_all only: finite_Un)
  ultimately show ?thesis unfolding h by (subst card_Un_disjoint) (auto simp: card_image)
qed


section \<open>The status\<close>

lemma capacity:
  assumes "i < 11"
  shows "unat (bbucket_capacity (of_nat i)) = 2 ^ (17 - i)"
proof -
  have "i \<in> {0, 1, 2, 3, 4, 5, 6, 7, 8, 9, 10}"
    using assms by (simp only: insert_iff empty_iff) presburger
  then show ?thesis by (auto simp: bbucket_capacity_def LOG_MAX_def LOG_MIN_def)
qed

definition blobs_in :: "storage \<Rightarrow> nat \<Rightarrow> htable_key_t set" where
  "blobs_in s i = {k. \<exists>b. owned_block s k = Some b \<and> bucket_of (blk_size b) = i}"

lemma in_use:
  assumes "storage_inv s out" "i < 11"
  shows "bbucket_capacity (of_nat i) - ucast (bucket_free (balloc_data s ! i)) =
    of_nat (card (blobs_in s i) + card {b \<in> out. bucket_of (blk_size b) = i})"
proof -
  note h = card_held [OF storage_invD(6) [OF assms(1)] assms(2)]
  have "blobs_in s i = {k. \<exists>b v. tab_view (tab s) k = Some (b, v) \<and> bucket_of (blk_size b) = i}"
    by (auto simp: blobs_in_def owned_block_def)
  then have c: "card (blobs_in s i) + card {b \<in> out. bucket_of (blk_size b) = i} + unat (bucket_free (balloc_data s ! i)) =
      unat (bbucket_capacity (of_nat i))"
    using h(2) card_bucket_holders [OF h(1)] capacity [OF assms(2)] by simp
  have "bbucket_capacity (of_nat i) = of_nat (card (blobs_in s i) + card {b \<in> out. bucket_of (blk_size b) = i}) +
      ucast (bucket_free (balloc_data s ! i))"
    using arg_cong [OF c, of "of_nat :: nat \<Rightarrow> u64"] by simp
  then show ?thesis by simp
qed

lemma foldl_in_use:
  "foldl (\<lambda>n (u, _). n + u) a (map (\<lambda>i. (of_nat (f i), g i)) xs) = a + (of_nat (sum_list (map f xs)) :: u64)"
  by (induction xs arbitrary: a) (simp_all add: add.assoc)

text \<open>
  C19: \<^verbatim>\<open>storage_status\<close> is exact: for every bucket the blocks in use are the blobs of that size, published or not, and the blocks that
  are being sent, and \<^verbatim>\<open>/status\<close> prints their total; nothing is counted twice and nothing overflows.
\<close>

theorem status_spec:
  assumes "storage_inv (store sv) out"
  shows "(\<exists>st. storage_status (store sv) = Some st \<and> length st = 11 \<and>
      (\<forall>i<11. unat (fst (st ! i)) = card (blobs_in (store sv) i) + card {b \<in> out. bucket_of (blk_size b) = i} \<and>
        unat (snd (st ! i)) = 2 ^ (17 - i))) \<and>
    status_payload cfg c sv = Some (''{'' @ [CHR 0x22] @ ''uptime_hours'' @ [CHR 0x22] @ '':'' @
      fmt_hours cfg (now_s c - start_time sv) @ '','' @ [CHR 0x22] @ ''blobs_in_use'' @ [CHR 0x22] @ '':'' @
      dec_of_nat (card (dom (blob_at (store sv))) + card out) @ ''}'')"
proof -
  let ?s = "store sv"
  let ?f = "\<lambda>i. card (blobs_in ?s i) + card {b \<in> out. bucket_of (blk_size b) = i}"
  let ?H = "holders (tab_view (tab ?s)) out"
  let ?st = "map (\<lambda>i. (of_nat (?f i) :: u64, bbucket_capacity (of_nat i))) [0..<11]"
  note p = storage_invD(6) [OF assms]
  have st: "storage_status ?s = Some ?st"
    unfolding status_list [OF assms] using in_use [OF assms] by (intro arg_cong [of _ _ Some] map_cong) auto
  have f: "?f i + unat (bucket_free (balloc_data ?s ! i)) = 2 ^ (17 - i)" "?f i = card (in_bucket i ?H)" if "i < 11" for i
  proof -
    have "blobs_in ?s i = {k. \<exists>b v. tab_view (tab ?s) k = Some (b, v) \<and> bucket_of (blk_size b) = i}"
      by (auto simp: blobs_in_def owned_block_def)
    then show "?f i = card (in_bucket i ?H)" using card_bucket_holders [OF card_held(1) [OF p that]] by simp
    then show "?f i + unat (bucket_free (balloc_data ?s ! i)) = 2 ^ (17 - i)" using card_held(2) [OF p that] by simp
  qed
  have le: "?f i \<le> 2 ^ 17" if "i < 11" for i
  proof -
    have "(2 :: nat) ^ (17 - i) \<le> 2 ^ 17" by (rule power_increasing) auto
    then show ?thesis using f(1) [OF that] by linarith
  qed
  then have u: "unat (of_nat (?f i) :: u64) = ?f i" if "i < 11" for i
    using le [OF that] by (intro unat_of_nat_small) simp
  have "sum_list (map ?f [0..<11]) = (\<Sum>i<11. card (in_bucket i ?H))"
    using f(2) by (simp add: interv_sum_list_conv_sum_set_nat atLeast0LessThan)
  also have "\<dots> = card ?H" using card_all_held(2) [OF p] by simp
  also have "\<dots> = card (dom (blob_at ?s)) + card out"
    using card_holders [OF card_all_held(1) [OF p]] dom_blob_at [OF assms] by simp
  finally have total: "sum_list (map ?f [0..<11]) = card (dom (blob_at ?s)) + card out" .
  have "(\<Sum>i<11. card (in_bucket i ?H)) \<le> (\<Sum>i<(11 :: nat). 2 ^ 17)" using le f(2) by (intro sum_mono) simp
  then have "card ?H < 2 ^ 64" unfolding card_all_held(2) [OF p] by simp
  then have "unat (foldl (\<lambda>n (u, _). n + u) 0 ?st) = card (dom (blob_at ?s)) + card out"
    unfolding foldl_in_use total using card_holders [OF card_all_held(1) [OF p]] dom_blob_at [OF assms]
    by (simp add: unat_of_nat_small del: of_nat_add)
  then have "status_payload cfg c sv = Some (''{'' @ [CHR 0x22] @ ''uptime_hours'' @ [CHR 0x22] @ '':'' @
      fmt_hours cfg (now_s c - start_time sv) @ '','' @ [CHR 0x22] @ ''blobs_in_use'' @ [CHR 0x22] @ '':'' @
      dec_of_nat (card (dom (blob_at ?s)) + card out) @ ''}'')"
    unfolding status_payload_def st by (simp only: bind.bind_lunit Let_def)
  moreover have "\<exists>st. storage_status ?s = Some st \<and> length st = 11 \<and>
      (\<forall>i<11. unat (fst (st ! i)) = ?f i \<and> unat (snd (st ! i)) = 2 ^ (17 - i))"
    using st u capacity by (intro exI [of _ ?st]) simp
  ultimately show ?thesis by simp
qed

theorem status_spec_witness:
  "\<exists>(sv :: server) cfg c st. blob_at (store sv) small_key \<noteq> None \<and> storage_status (store sv) = Some st \<and>
    length st = 11 \<and> status_payload cfg c sv = Some (''{'' @ [CHR 0x22] @ ''uptime_hours'' @ [CHR 0x22] @ '':'' @
      fmt_hours cfg (now_s c - start_time sv) @ '','' @ [CHR 0x22] @ ''blobs_in_use'' @ [CHR 0x22] @ '':1}'')"
proof -
  obtain s b c where s: "storage_inv s {}" "owned_block s small_key = Some b" "blob_at s = [small_key \<mapsto> (c, 100)]"
      "htable_size s = 16"
    by (rule small_store_published) (rule that)
  obtain sv :: server where sv: "store sv = s" by (metis server.select_convs(1))
  have one: "dec_of_nat (card (dom (blob_at (store sv))) + card ({} :: blk_t set)) = ''1''"
  proof -
    have "dec_of_nat 1 = ''1''" by code_simp
    then show ?thesis unfolding sv s(3) by simp
  qed
  have "storage_inv (store sv) {}" using s(1) sv by simp
  note spec = status_spec [OF this, unfolded one]
  from spec obtain st where st: "storage_status (store sv) = Some st" "length st = 11" by blast
  have "blob_at (store sv) small_key \<noteq> None" using s(3) sv by simp
  then show ?thesis using st conjunct2 [OF spec] by (simp only: append.simps) blast
qed

end
