(* ===== verification/Service.thy ===== *)
theory Service
  imports Requests
begin

text \<open>
  The service: any interleaving of calls of the handler, ends of requests and runs of the reaper that
  libmicrohttpd and the main loop may produce. Every reachable state satisfies the invariant, no step gets
  stuck, and the service refines the abstract map of secrets.
\<close>

section \<open>The end of a request and the reaper\<close>

lemma sends_remove:
  assumes "requests_ok st (ctxs sv) L" "a \<in> dom L" "ctxs sv' = (ctxs sv)(a := x')"
  shows "sends sv' (L(a := None)) =
    (if sending (ctxs sv a) then sends sv L - {blob_send (ctxs sv a)} else sends sv L)"
proof -
  have "sends sv' (L(a := None)) = (\<lambda>b. blob_send (ctxs sv b)) ` {b \<in> dom L. sending (ctxs sv b) \<and> b \<noteq> a}"
    using assms(3) by (auto simp: sends_def split: if_splits)
  moreover have "sends sv L = (\<lambda>b. blob_send (ctxs sv b)) ` {b \<in> dom L. sending (ctxs sv b)}"
    by (auto simp: sends_def)
  moreover have "blob_send (ctxs sv b) \<noteq> blob_send (ctxs sv a)"
    if "b \<in> dom L" "sending (ctxs sv b)" "b \<noteq> a" "sending (ctxs sv a)" for b
    using requests_okD(3) [OF assms(1) that(1) assms(2) that(2,4)] that(3) by blast
  ultimately show ?thesis by (cases "sending (ctxs sv a)") auto
qed

lemma requests_ok_remove:
  assumes R: "requests_ok st X L"
    and frame: "\<And>b. b \<in> dom L \<Longrightarrow> b \<noteq> a \<Longrightarrow> posting (X b) \<Longrightarrow>
      blob_at st' (ctx_id (X b)) = blob_at st (ctx_id (X b)) \<and>
      owned_block st' (ctx_id (X b)) = owned_block st (ctx_id (X b))"
    and unp: "\<And>k. unpublished_at st' k \<Longrightarrow> \<exists>b\<in>dom L. b \<noteq> a \<and> posting (X b) \<and> ctx_id (X b) = k"
  shows "requests_ok st' (X(a := x)) (L(a := None))"
  unfolding requests_ok_def
proof (intro conjI ballI allI impI)
  show "ctx_ok st' ((X(a := x)) b) p up" if "(L(a := None)) b = Some (p, up)" for b p up
  proof -
    have b: "b \<noteq> a" "L b = Some (p, up)" using that by (auto split: if_splits)
    then show ?thesis using frame [of b] by (auto intro: ctx_ok_cong [OF requests_okD(1) [OF R]])
  qed
  show "b = c" if "b \<in> dom (L(a := None))" "c \<in> dom (L(a := None))" "posting ((X(a := x)) b)"
      "posting ((X(a := x)) c)" "ctx_id ((X(a := x)) b) = ctx_id ((X(a := x)) c)" for b c
    using that requests_okD(2) [OF R, of b c] by (auto split: if_splits)
  show "b = c" if "b \<in> dom (L(a := None))" "c \<in> dom (L(a := None))" "sending ((X(a := x)) b)"
      "sending ((X(a := x)) c)" "blob_send ((X(a := x)) b) = blob_send ((X(a := x)) c)" for b c
    using that requests_okD(3) [OF R, of b c] by (auto split: if_splits)
  show "\<exists>b\<in>dom (L(a := None)). posting ((X(a := x)) b) \<and> ctx_id ((X(a := x)) b) = k"
    if "unpublished_at st' k" for k
    using unp [OF that] by auto
qed

lemma done_abort:
  assumes inv: "server_inv langs base n sv L" and a: "L a = Some (p, up)"
  obtains st where "(if blk_size (post_body (ctxs sv a)) \<noteq> 0 then storage_blob_abort (store sv) (ctx_id (ctxs sv a))
      else Some (store sv)) = Some st"
    "storage_inv st (sends sv L)" "secrets st = secrets (store sv)"
    "posting (ctxs sv a) \<Longrightarrow> erased st (post_body (ctxs sv a))"
    "\<And>b. b \<in> dom L \<Longrightarrow> b \<noteq> a \<Longrightarrow> posting (ctxs sv b) \<Longrightarrow>
      blob_at st (ctx_id (ctxs sv b)) = blob_at (store sv) (ctx_id (ctxs sv b)) \<and>
      owned_block st (ctx_id (ctxs sv b)) = owned_block (store sv) (ctx_id (ctxs sv b))"
    "\<And>k. unpublished_at st k \<Longrightarrow> \<exists>b\<in>dom L. b \<noteq> a \<and> posting (ctxs sv b) \<and> ctx_id (ctxs sv b) = k"
proof -
  note d = server_invD [OF inv]
  let ?x = "ctxs sv a"
  have dom: "a \<in> dom L" using a by auto
  show ?thesis
  proof (cases "posting ?x")
    case True
    then obtain cs where x: "owned_block (store sv) (ctx_id ?x) = Some (post_body ?x)"
        "blob_at (store sv) (ctx_id ?x) = Some (cs, VALID_UNTIL_NOT_PUBLISHED)"
      using requests_okD(1) [OF d(5) a] by (auto simp: ctx_ok_def)
    obtain st where r: "storage_blob_abort (store sv) (ctx_id ?x) = Some st" "storage_inv st (sends sv L)"
        "blob_at st = (blob_at (store sv))(ctx_id ?x := None)" "\<And>b. owned_block (store sv) (ctx_id ?x) = Some b \<Longrightarrow> erased st b"
        "\<And>j. j \<noteq> ctx_id ?x \<Longrightarrow> owned_block st j = owned_block (store sv) j"
      by (rule abort_map [OF d(1), of "ctx_id ?x"]) (rule that)
    have "secrets st = secrets (store sv)" using r(3) x(2) by (auto simp: secrets_def)
    moreover have "\<exists>b\<in>dom L. b \<noteq> a \<and> posting (ctxs sv b) \<and> ctx_id (ctxs sv b) = k" if "unpublished_at st k" for k
      using unpublished_other [OF d(5), of k a] that r(3) by (auto simp: unpublished_at_def split: if_splits)
    moreover have "ctx_id (ctxs sv b) \<noteq> ctx_id ?x" if "b \<in> dom L" "b \<noteq> a" "posting (ctxs sv b)" for b
      by (rule other_upload [OF d(5) dom True that])
    ultimately show ?thesis using that [of st] r x(1) True by (simp add: posting_def)
  next
    case False
    then show ?thesis
      using that [of "store sv"] d(1) unpublished_other [OF d(5), of _ a] by (simp add: posting_def)
  qed
qed

lemma done_free:
  assumes inv: "storage_inv st out" and b: "sending x \<Longrightarrow> blob_send x \<in> out"
  obtains st' where "(if blk_size (blob_send x) \<noteq> 0 then storage_blob_free st (blob_send x) else Some st) = Some st'"
    "storage_inv st' (if sending x then out - {blob_send x} else out)" "blob_at st' = blob_at st"
    "owned_block st' = owned_block st" "sending x \<Longrightarrow> erased st' (blob_send x)" "\<not> sending x \<Longrightarrow> st' = st"
proof (cases "sending x")
  case True
  obtain st' where "storage_blob_free st (blob_send x) = Some st'" "storage_inv st' (out - {blob_send x})"
      "blob_at st' = blob_at st" "erased st' (blob_send x)" "owned_block st' = owned_block st"
    by (rule free_map [OF inv b [OF True]]) (rule that)
  then show ?thesis using that True by (simp add: sending_def)
next
  case False
  then show ?thesis using that inv by (simp add: sending_def)
qed

lemma done_ok:
  assumes inv: "server_inv langs base n sv L" and a: "L a = Some (p, up)"
  obtains sv' where "req_done (Some a) sv = Some sv'" "server_inv langs base n sv' (L(a := None))"
    "secrets (store sv') = secrets (store sv)" "ctx_id (ctxs sv' a) = null_key"
    "sending (ctxs sv a) \<Longrightarrow> erased (store sv') (blob_send (ctxs sv a))"
    "posting (ctxs sv a) \<Longrightarrow> \<not> sending (ctxs sv a) \<Longrightarrow> erased (store sv') (post_body (ctxs sv a))"
proof -
  note d = server_invD [OF inv]
  let ?x = "ctxs sv a"
  have dom: "a \<in> dom L" using a by auto
  obtain st where st: "(if blk_size (post_body ?x) \<noteq> 0 then storage_blob_abort (store sv) (ctx_id ?x)
        else Some (store sv)) = Some st"
      "storage_inv st (sends sv L)" "secrets st = secrets (store sv)" "posting ?x \<Longrightarrow> erased st (post_body ?x)"
      "\<And>b. b \<in> dom L \<Longrightarrow> b \<noteq> a \<Longrightarrow> posting (ctxs sv b) \<Longrightarrow>
        blob_at st (ctx_id (ctxs sv b)) = blob_at (store sv) (ctx_id (ctxs sv b)) \<and>
        owned_block st (ctx_id (ctxs sv b)) = owned_block (store sv) (ctx_id (ctxs sv b))"
      "\<And>k. unpublished_at st k \<Longrightarrow> \<exists>b\<in>dom L. b \<noteq> a \<and> posting (ctxs sv b) \<and> ctx_id (ctxs sv b) = k"
    by (rule done_abort [OF inv a]) (rule that)
  have out: "blob_send ?x \<in> sends sv L" if "sending ?x" using that dom by (auto simp: sends_def)
  obtain st' where st': "(if blk_size (blob_send ?x) \<noteq> 0 then storage_blob_free st (blob_send ?x) else Some st) = Some st'"
      "storage_inv st' (if sending ?x then sends sv L - {blob_send ?x} else sends sv L)" "blob_at st' = blob_at st"
      "owned_block st' = owned_block st" "sending ?x \<Longrightarrow> erased st' (blob_send ?x)" "\<not> sending ?x \<Longrightarrow> st' = st"
    by (rule done_free [OF st(2) out]) (assumption, rule that)
  obtain al m where pool: "ctx_pool sv = (al, m)" by (cases "ctx_pool sv")
  obtain q where q: "ctxa_free (ctx_pool sv) a = Some q" "ctx_inv base n q (dom L - {a})"
    using ctxa_free_ok [of base n al m "dom L" a] d(2) dom pool by metis
  let ?sv' = "set_ctx a (?x\<lparr>ctx_id := null_key\<rparr>) (sv\<lparr>store := st', ctx_pool := q\<rparr>)"
  have "req_done (Some a) sv = Some ?sv'"
    using st(1) st'(1) q(1) by (simp only: req_done_def option.case Let_def bind.bind_lunit)
  moreover have "requests_ok st' ((ctxs sv)(a := ?x\<lparr>ctx_id := null_key\<rparr>)) (L(a := None))"
    by (rule requests_ok_remove [OF d(5)]) (use st st' in \<open>auto simp: unpublished_at_def\<close>)
  then have "server_inv langs base n ?sv' (L(a := None))"
    using sends_remove [OF d(5) dom, where sv' = ?sv'] st'(2) q(2) d
    by (simp add: server_inv_def pages_ok_def)
  moreover have "secrets st' = secrets (store sv)" using st(3) st'(3) by (simp add: secrets_def fun_eq_iff)
  ultimately show ?thesis using that [of ?sv'] st(4) st'(5,6) by simp
qed

lemma live_at_unpublished:
  assumes "now \<noteq> VALID_UNTIL_EMPTY"
  shows "blob_at st k = Some (c, VALID_UNTIL_NOT_PUBLISHED) \<longleftrightarrow>
    live_at now (blob_at st) k = Some (c, VALID_UNTIL_NOT_PUBLISHED)"
proof -
  have "now \<le> VALID_UNTIL_NOT_PUBLISHED"
  proof -
    have "unat now \<noteq> unat VALID_UNTIL_EMPTY" using assms by (simp add: word_unat_eq_iff)
    then show ?thesis
      using unsigned_less [of now, where 'a = nat]
      by (simp add: word_le_nat_alt VALID_UNTIL_NOT_PUBLISHED_def VALID_UNTIL_EMPTY_def)
  qed
  then show ?thesis by (auto simp: live_at_def split: option.splits)
qed

lemma reap_ok:
  assumes inv: "server_inv langs base n sv L" and now: "now \<noteq> VALID_UNTIL_EMPTY"
  obtains st' where "storage_reaper (store sv) now = Some st'"
    "server_inv langs base n (sv\<lparr>store := st'\<rparr>) L" "secrets st' = live_at now (secrets (store sv))"
    "\<And>k c t b. secrets (store sv) k = Some (c, t) \<Longrightarrow> t < now \<Longrightarrow> owned_block (store sv) k = Some b \<Longrightarrow>
      erased st' b"
proof -
  note d = server_invD [OF inv]
  obtain st' where r: "storage_reaper (store sv) now = Some st'" "storage_inv st' (sends sv L)"
      "blob_at st' = live_at now (blob_at (store sv))"
      "\<And>k c t b. blob_at (store sv) k = Some (c, t) \<Longrightarrow> t < now \<Longrightarrow> owned_block (store sv) k = Some b \<Longrightarrow> erased st' b"
      "\<And>k. blob_at st' k \<noteq> None \<Longrightarrow> owned_block st' k = owned_block (store sv) k"
    by (rule reap_map [OF d(1) now]) (rule that)
  have unp: "unpublished_at st' k \<longleftrightarrow> unpublished_at (store sv) k" for k
    using live_at_unpublished [OF now] r(3) by (simp add: unpublished_at_def)
  have same: "blob_at st' k = blob_at (store sv) k" if "unpublished_at (store sv) k" for k
    using that unfolding unpublished_at_def r(3) by (metis live_at_unpublished [OF now])
  have "requests_ok st' (ctxs sv) L"
    unfolding requests_ok_def
  proof (intro conjI allI impI)
    show "ctx_ok st' (ctxs sv a) p up" if "L a = Some (p, up)" for a p up
    proof (rule ctx_ok_cong [OF requests_okD(1) [OF d(5) that]])
      assume "posting (ctxs sv a)"
      then have u: "unpublished_at (store sv) (ctx_id (ctxs sv a))"
        using posting_unpublished [OF d(5)] that by blast
      show "blob_at st' (ctx_id (ctxs sv a)) = blob_at (store sv) (ctx_id (ctxs sv a))" by (rule same [OF u])
      then show "owned_block st' (ctx_id (ctxs sv a)) = owned_block (store sv) (ctx_id (ctxs sv a))"
        using u r(5) by (auto simp: unpublished_at_def)
    qed
  qed (use d(5) unp in \<open>simp_all add: requests_ok_def\<close>)
  moreover have "sends (sv\<lparr>store := st'\<rparr>) L = sends sv L" by (simp add: sends_def)
  ultimately have "server_inv langs base n (sv\<lparr>store := st'\<rparr>) L"
    using d r(2) by (simp add: server_inv_def pages_ok_def)
  moreover have "secrets st' = live_at now (secrets (store sv))"
    using r(3) by (auto simp: secrets_def live_at_def fun_eq_iff split: option.splits)
  moreover have "erased st' b"
    if "secrets (store sv) k = Some (c, t)" "t < now" "owned_block (store sv) k = Some b" for k c t b
    using r(4) [of k c t b] that by (auto simp: secrets_def split: option.splits if_splits)
  ultimately show ?thesis using that r(1) by blast
qed


section \<open>The steps of the service\<close>

text \<open>
  The server and the requests it has contexts for. \<open>first\<close>: the first call for a request, with the pointer to
  its context still \<^verbatim>\<open>NULL\<close>; \<open>later\<close>: another call for an open request; \<open>finish\<close>: libmicrohttpd ends a
  request, at any time and in any phase; \<open>reaper\<close>: the timer of the main loop.
\<close>

definition begin_request :: "ahc_result \<Rightarrow> requests \<Rightarrow> requests" where
  "begin_request r L = (case new_con_cls r of None \<Rightarrow> L | Some a \<Rightarrow> L(a \<mapsto> (phase_after r, [])))"

inductive step :: "config \<Rightarrow> nat \<Rightarrow> server \<times> requests \<Rightarrow> event \<Rightarrow> server \<times> requests \<Rightarrow> bool"
  for cfg langs
where
  first: "con_cls c = None \<Longrightarrow> call_in cfg langs c \<Longrightarrow> ahc cfg c sv = Some (r, sv') \<Longrightarrow>
    step cfg langs (sv, L) Quiet (sv', begin_request r L)"
| later: "con_cls c = Some a \<Longrightarrow> L a = Some (Open, up) \<Longrightarrow> call_in cfg langs c \<Longrightarrow>
    ahc cfg c sv = Some (r, sv') \<Longrightarrow> e = call_event c up (ctxs sv a) (ctxs sv' a) (store sv') \<Longrightarrow>
    step cfg langs (sv, L) e (sv', L(a \<mapsto> (phase_after r, up @ taken_in c r)))"
| finish: "L a = Some (p, up) \<Longrightarrow> req_done (Some a) sv = Some sv' \<Longrightarrow>
    step cfg langs (sv, L) Quiet (sv', L(a := None))"
| reaper: "now \<noteq> VALID_UNTIL_EMPTY \<Longrightarrow> storage_reaper (store sv) now = Some st \<Longrightarrow>
    step cfg langs (sv, L) (Reaped now) (sv\<lparr>store := st\<rparr>, L)"

inductive_cases stepE: "step cfg langs (sv, L) e s'"

inductive run :: "config \<Rightarrow> nat \<Rightarrow> server \<times> requests \<Rightarrow> event list \<Rightarrow> server \<times> requests \<Rightarrow> bool"
  for cfg langs s
where
  start: "run cfg langs s [] s"
| more: "run cfg langs s es s' \<Longrightarrow> step cfg langs s' e s'' \<Longrightarrow> run cfg langs s (es @ [e]) s''"

lemma step_ok:
  assumes "step cfg langs s e s'" "server_inv langs base n (fst s) (snd s)"
  shows "server_inv langs base n (fst s') (snd s') \<and>
    secrets_step (secrets (store (fst s))) e (secrets (store (fst s')))"
  using assms
proof (induction rule: step.induct)
  case (first c sv r sv' L)
  then show ?case
    using ahc_first [of langs base n sv L c cfg]
    by (auto simp: begin_request_def secrets_step.quiet split: option.splits)
next
  case (later c a L up sv r sv' e)
  then have "call_ok langs base n c a L up sv r sv'" using ahc_later [of langs base n sv L a up c cfg] by auto
  then show ?case unfolding call_ok_def fst_conv snd_conv later.hyps(5) by blast
next
  case (finish L a p up sv sv')
  then show ?case using done_ok [of langs base n sv L a p up] by (metis fst_conv snd_conv option.inject secrets_step.quiet)
next
  case (reaper now sv st L)
  then obtain st' where r: "storage_reaper (store sv) now = Some st'" "server_inv langs base n (sv\<lparr>store := st'\<rparr>) L"
      "secrets st' = live_at now (secrets (store sv))"
    using reap_ok [of langs base n sv L now] by auto
  moreover have "st' = st" using r(1) reaper.hyps(2) by simp
  ultimately show ?case using secrets_step.reap [of "secrets (store sv)" now] by simp
qed

lemma run_inv:
  assumes "run cfg langs s es s'" "server_inv langs base n (fst s) (snd s)"
  shows "server_inv langs base n (fst s') (snd s')"
  using assms by (induction rule: run.induct) (use step_ok in blast)+


lemma run_append:
  assumes "run cfg langs s es s'" "run cfg langs s' es' s''"
  shows "run cfg langs s (es @ es') s''"
  using assms(2) by (induction rule: run.induct) (use assms(1) run.more in \<open>fastforce simp flip: append_assoc\<close>)+

section \<open>Runs of the map of secrets\<close>

inductive secrets_run ::
    "(htable_key_t \<Rightarrow> (u8 list \<times> u32) option) \<Rightarrow> event list \<Rightarrow> (htable_key_t \<Rightarrow> (u8 list \<times> u32) option) \<Rightarrow> bool"
  for M
where
  start: "secrets_run M [] M"
| more: "secrets_run M es M' \<Longrightarrow> secrets_step M' e M'' \<Longrightarrow> secrets_run M (es @ [e]) M''"

lemma run_refines:
  assumes "run cfg langs s es s'" "server_inv langs base n (fst s) (snd s)"
  shows "secrets_run (secrets (store (fst s))) es (secrets (store (fst s')))"
  using assms
proof (induction rule: run.induct)
  case (more es s' e s'')
  then show ?case using step_ok [OF more.hyps(2) run_inv [OF more.hyps(1) more.prems]] secrets_run.more by blast
qed (rule secrets_run.start)

text \<open>The events that concern an id, and a stretch of a history that leaves the secret of an id alone.\<close>

fun about_key :: "htable_key_t \<Rightarrow> event \<Rightarrow> bool" where
  "about_key k (Posted j _ _) = (j = k)"
| "about_key k (Fetched j _) = (j = k)"
| "about_key k _ = False"

definition undisturbed :: "htable_key_t \<Rightarrow> u32 \<Rightarrow> event list \<Rightarrow> bool" where
  "undisturbed k t es \<longleftrightarrow> (\<forall>e\<in>set es. \<not> about_key k e \<and> (\<forall>now. e = Reaped now \<longrightarrow> now \<le> t))"

lemma undisturbed_snoc [simp]:
  "undisturbed k t (es @ [e]) \<longleftrightarrow> undisturbed k t es \<and> \<not> about_key k e \<and> (\<forall>now. e = Reaped now \<longrightarrow> now \<le> t)"
  by (auto simp: undisturbed_def)

lemma secrets_step_other:
  assumes "secrets_step M e M'" "M' k = Some (c, t)"
  shows "e = Posted k c t \<or> M k = Some (c, t) \<and> \<not> about_key k e \<and> (\<forall>now. e = Reaped now \<longrightarrow> now \<le> t)"
  using assms by (cases rule: secrets_step.cases) (auto simp: live_at_def split: if_splits option.splits)

lemma secret_origin:
  assumes "secrets_run M es M'" "M k = None" "M' k = Some (c, t)"
  shows "\<exists>es1 es2. es = es1 @ Posted k c t # es2 \<and> undisturbed k t es2"
  using assms(1,3)
proof (induction arbitrary: c t rule: secrets_run.induct)
  case start
  then show ?case using assms(2) by simp
next
  case (more es M1 e M2)
  from secrets_step_other [OF more.hyps(2) more.prems] show ?case
  proof
    assume "e = Posted k c t"
    then show ?thesis by (intro exI [of _ es] exI [of _ "[]"]) (simp add: undisturbed_def)
  next
    assume e: "M1 k = Some (c, t) \<and> \<not> about_key k e \<and> (\<forall>now. e = Reaped now \<longrightarrow> now \<le> t)"
    then obtain es1 es2 where "es = es1 @ Posted k c t # es2" "undisturbed k t es2"
      using more.IH by blast
    then show ?thesis using e by (intro exI [of _ es1] exI [of _ "es2 @ [e]"]) simp
  qed
qed

lemma secrets_run_append:
  assumes "secrets_run M (es @ es') M'"
  shows "\<exists>M1. secrets_run M es M1 \<and> secrets_run M1 es' M'"
  using assms
proof (induction es' arbitrary: M' rule: rev_induct)
  case Nil
  then show ?case using secrets_run.start by auto
next
  case (snoc e es')
  from snoc.prems obtain M2 where "secrets_run M (es @ es') M2" "secrets_step M2 e M'"
    by (cases rule: secrets_run.cases) (auto simp flip: append_assoc)
  then show ?case using snoc.IH secrets_run.more by blast
qed

lemma secrets_run_single: "secrets_run M [e] M' \<Longrightarrow> secrets_step M e M'"
  by (erule secrets_run.cases) (auto elim: secrets_run.cases)

text \<open>Whatever is fetched was posted, under the same id, and not fetched, replaced or reaped in between.\<close>

lemma fetched_origin:
  assumes "secrets_run M (es @ Fetched k c # es') M'" "M k = None"
  shows "\<exists>es1 es2 t. es = es1 @ Posted k c t # es2 \<and> undisturbed k t es2"
proof -
  have "secrets_run M ((es @ [Fetched k c]) @ es') M'" using assms(1) by simp
  then obtain M2 where "secrets_run M (es @ [Fetched k c]) M2" using secrets_run_append by blast
  then obtain M1 where "secrets_run M es M1" "secrets_step M1 (Fetched k c) M2"
    using secrets_run_append secrets_run_single by blast
  moreover then obtain t where "M1 k = Some (c, t)" by (auto elim: secrets_step.cases)
  ultimately show ?thesis using secret_origin assms(2) by blast
qed

end
