(* ===== verification/Exchange.thy ===== *)
theory Exchange
  imports Service
begin

text \<open>
  A whole exchange: one request uploads a secret, another one fetches it. The branches of the handler that
  succeed are followed call by call, from any state of the service that has room.
\<close>

section \<open>Numbers as text\<close>

lemma dec_digit:
  assumes "(n :: nat) < 10"
  shows "c_isdigit (char_of (48 + n))" "(of_char (char_of (48 + n)) :: nat) = 48 + n" "\<not> c_isspace (char_of (48 + n))"
    "char_of (48 + n) \<notin> {CHR ''-'', CHR ''+''}"
proof -
  have n: "n \<in> set [0..<10]" using assms by simp
  have "\<forall>n\<in>set [0..<10]. c_isdigit (char_of (48 + n)) \<and> (of_char (char_of (48 + n)) :: nat) = 48 + n \<and>
      \<not> c_isspace (char_of (48 + n)) \<and> char_of (48 + n) \<notin> {CHR ''-'', CHR ''+''}" by code_simp
  then show "c_isdigit (char_of (48 + n))" "(of_char (char_of (48 + n)) :: nat) = 48 + n" "\<not> c_isspace (char_of (48 + n))"
      "char_of (48 + n) \<notin> {CHR ''-'', CHR ''+''}" using n by blast+
qed

lemma digits_value_snoc: "digits_value (ds @ [ch]) = 10 * digits_value ds + (of_char ch - 48)"
  by (simp add: digits_value_def)

lemma dec_of_nat_digits: "set (dec_of_nat n) \<subseteq> Collect c_isdigit" "digits_value (dec_of_nat n) = n"
  "dec_of_nat n \<noteq> [] \<and> \<not> c_isspace (hd (dec_of_nat n)) \<and> hd (dec_of_nat n) \<notin> {CHR ''-'', CHR ''+''}"
proof (induction n rule: dec_of_nat.induct)
  case (1 n)
  have "set (dec_of_nat n) \<subseteq> Collect c_isdigit \<and> digits_value (dec_of_nat n) = n \<and>
      dec_of_nat n \<noteq> [] \<and> \<not> c_isspace (hd (dec_of_nat n)) \<and> hd (dec_of_nat n) \<notin> {CHR ''-'', CHR ''+''}"
  proof (cases "n < 10")
    case True
    then show ?thesis using dec_digit [of n] by (simp add: dec_of_nat.simps [of n] digits_value_def)
  next
    case False
    then show ?thesis
      using 1 [OF False] dec_digit [of "n mod 10"] by (simp add: dec_of_nat.simps [of n] digits_value_snoc)
  qed
  then show "set (dec_of_nat n) \<subseteq> Collect c_isdigit" "digits_value (dec_of_nat n) = n"
    "dec_of_nat n \<noteq> [] \<and> \<not> c_isspace (hd (dec_of_nat n)) \<and> hd (dec_of_nat n) \<notin> {CHR ''-'', CHR ''+''}"
    by blast+
qed

lemma dec_parse:
  "dropWhile c_isspace (dec_of_nat n) = dec_of_nat n" "takeWhile c_isdigit (dec_of_nat n) = dec_of_nat n"
  using dec_of_nat_digits [of n] by (cases "dec_of_nat n"; auto simp: takeWhile_eq_all_conv)+

lemma strtoul10_dec: "n < 2 ^ 64 \<Longrightarrow> strtoul10 (dec_of_nat n) = of_nat n"
  unfolding strtoul10_def Let_def dec_parse using dec_of_nat_digits [of n] by (auto simp: dec_parse)

lemma post_length_dec:
  assumes "hdr_content_length c = Some (dec_of_nat n)" "46 \<le> n" "n \<le> 2 ^ 17"
  shows "post_length c = Some (of_nat n)" "unat (of_nat n :: u64) = n"
proof -
  show n: "unat (of_nat n :: u64) = n" using assms(3) by (intro unat_of_nat_small) simp
  have "(of_nat n :: u64) \<noteq> ULONG_MAX" using n assms(3) by (auto simp: ULONG_MAX_def)
  moreover have "\<not> BLOB_SIZE_MAX < (of_nat n :: u64)" "\<not> (of_nat n :: u64) < BLOB_SIZE_MIN"
    using n assms(2,3) by (simp_all add: word_less_nat_alt BLOB_SIZE_MAX_def BLOB_SIZE_MIN_def LOG_MAX_def LOG_MIN_def)
  ultimately show "post_length c = Some (of_nat n)"
    using assms strtoul10_dec [of n] by (simp add: post_length_def)
qed


section \<open>Calls for a blob\<close>

text \<open>A request for the blob with key \<open>k\<close>, whose id is spelt \<open>h\<close> in the URL.\<close>

definition blob_request :: "mhd_call \<Rightarrow> htable_key_t \<Rightarrow> bool" where
  "blob_request c k \<longleftrightarrow> (\<exists>h bs. url c = ''/blob/'' @ h \<and> length h = ID_LENGTH \<and> hex_decode h = Some bs \<and>
     k = key_of_bytes bs) \<and> \<not> key_is_null k"

lemma blob_request_update [simp]:
  "blob_request (c\<lparr>con_cls := x\<rparr>) k = blob_request c k" "blob_request (c\<lparr>upload_data := d\<rparr>) k = blob_request c k"
  by (simp_all add: blob_request_def)

lemma blob_request_key: "blob_request c k \<Longrightarrow> url_key c = k"
  by (auto simp: blob_request_def url_key_def id_hex_to_bytes_decode)

lemma ahc_blob_request:
  assumes k: "blob_request c k" and a: "con_cls c = Some a" and d: "ahc_debounce cfg c a static sv = Some (True, sv)"
    and static: "static = (meth c = ''GET'' \<and> asset_find (assembled_html cfg) (url c) \<noteq> None)"
  shows "meth c = ''GET'' \<Longrightarrow> ahc cfg c sv = ahc_get_blob c a k sv"
    and "meth c = ''POST'' \<Longrightarrow> ahc cfg c sv = ahc_post_blob c a k sv"
proof -
  obtain h bs where h: "url c = ''/blob/'' @ h" "length h = ID_LENGTH" "hex_decode h = Some bs" "k = key_of_bytes bs"
      "\<not> key_is_null k"
    using k by (auto simp: blob_request_def)
  have url: "strncmp_eq (url c) ''/blob/'' 6" "drop 6 (url c) = h" using h(1) by (simp_all add: strncmp_eq_def)
  have len: "strnlen h (1 + ID_LENGTH) = ID_LENGTH" using h(2) by (simp add: strnlen_def)
  have "\<not> (key_h k = 0 \<and> key_l k = 0)" using h(5) by (simp add: key_is_null_def or_eq_0_iff)
  then have b: "ahc_blob c a g sv = (if g then Option.bind (ahc_get_blob c a k sv) (\<lambda>(r, sv). Some (Some r, sv))
      else if strncmp_eq (meth c) ''POST'' 5 then Option.bind (ahc_post_blob c a k sv) (\<lambda>(r, sv). Some (Some r, sv))
      else Some (None, sv))" for g
    using id_hex_to_bytes_decode [OF h(2)] h(3,4)
    by (auto simp: ahc_blob_def url(2) Let_def)
  have ahc: "ahc cfg c sv = Option.bind (ahc_blob c a (strncmp_eq (meth c) ''GET'' 4) sv) (\<lambda>(r, sv). case r of
      Some r \<Rightarrow> Some (r, sv)
    | None \<Rightarrow> if upload_data c \<noteq> [] then Some (drop_connection a, sv)
        else Some (answer a (send_text c 404 ''Not Found''), sv))"
    if "meth c = ''GET'' \<or> meth c = ''POST''"
    using a d static url len that by (auto simp: ahc_def ahc_context_def strncmp_eq_def NUL_def)
  show "ahc cfg c sv = ahc_get_blob c a k sv" if m: "meth c = ''GET''"
    using ahc m b by (cases "ahc_get_blob c a k sv") (auto simp: strncmp_eq_def)
  show "ahc cfg c sv = ahc_post_blob c a k sv" if m: "meth c = ''POST''"
    using ahc m b by (cases "ahc_post_blob c a k sv") (auto simp: strncmp_eq_def)
qed


section \<open>The calls of an exchange\<close>

text \<open>The build without the debouncer, which could turn either client away.\<close>

lemma no_debouncer: "\<not> use_debouncer cfg \<Longrightarrow> ahc_debounce cfg c a static sv = Some (True, sv)"
  by (simp add: ahc_debounce_def)

lemma first_step:
  assumes inv: "server_inv langs base n sv L" and c: "con_cls c = None" "call_in cfg langs c"
    and cfg: "\<not> use_debouncer cfg" and free: "dom L \<noteq> ctx_slots base n"
  obtains a sv' where "step cfg langs (sv, L) Quiet (sv', L(a \<mapsto> (Open, [])))" "a \<notin> dom L"
    "ctxs sv' = (ctxs sv)(a := zero_ctx)" "store sv' = store sv" "server_inv langs base n sv' (L(a \<mapsto> (Open, [])))"
  using inv c(1)
proof (cases rule: context_ok)
  case (full p)
  then show ?thesis using free by simp
next
  case (new a p)
  let ?sv' = "set_ctx a zero_ctx (sv\<lparr>ctx_pool := p\<rparr>)"
  let ?r = "\<lparr>mhd_yes = True, queued = None, consumed = False, new_con_cls = Some a\<rparr>"
  have "ahc cfg c sv = Some (?r, ?sv')" using new(1) no_debouncer [OF cfg] by (simp add: ahc_def)
  from step.first [OF c this, of L] have "step cfg langs (sv, L) Quiet (?sv', L(a \<mapsto> (Open, [])))"
    by (simp add: begin_request_def phase_after_def)
  then show ?thesis using that new by simp
qed

definition room :: "storage \<Rightarrow> u64 \<Rightarrow> bool" where
  "room st n \<longleftrightarrow> htable_free st \<noteq> 0 \<and> bucket_list (balloc_data st) (memory st) (bucket_of n) \<noteq> []"

lemma upload_step:
  assumes inv: "server_inv langs base n sv L" and a: "L a = Some (Open, [])" "ctxs sv a = zero_ctx"
    and c: "con_cls c = Some a" "call_in cfg langs c" "meth c = ''POST''" "blob_request c k"
    and cfg: "\<not> use_debouncer cfg" and d: "upload_data c \<noteq> []" "post_length c = Some m" "length (upload_data c) \<le> unat m"
    and st: "blob_at (store sv) k = None" "room (store sv) m"
  obtains sv' where "step cfg langs (sv, L) Quiet (sv', L(a \<mapsto> (Open, upload_data c)))"
    "server_inv langs base n sv' (L(a \<mapsto> (Open, upload_data c)))" "posting (ctxs sv' a)"
    "expected (ctxs sv' a) = m" "ctx_id (ctxs sv' a) = k" "secrets (store sv') = secrets (store sv)"
proof -
  let ?n = "of_nat (length (upload_data c)) :: u64"
  let ?x = "zero_ctx\<lparr>ctx_id := k, have_id := True, expected := m\<rparr>"
  let ?sv1 = "set_ctx a ?x sv"
  have k: "\<not> key_is_null k" using c(4) by (simp add: blob_request_def)
  have z: "\<not> posting ?x" "\<not> sending ?x" "\<not> posting zero_ctx"
    by (simp_all add: posting_def sending_def zero_ctx_def)
  have inv1: "server_inv langs base n ?sv1 L"
    by (rule ctx_change_same [OF inv a(1)])
      (use z a(2) post_length_size [OF d(2)] in \<open>simp_all add: ctx_ok_def, simp_all add: zero_ctx_def\<close>)
  have ready: "ready (ctxs ?sv1 a)" using z(1) k post_length_size [OF d(2)] by (simp add: ready_def, simp add: zero_ctx_def)
  have len: "length (upload_data c) < 2 ^ 63" using c(2) by (simp add: call_in_def)
  obtain b st' where cr: "storage_blob_create (store sv) k m = Some (b, st')" "blk_size b = m"
      "secrets st' = secrets (store sv)" "server_inv langs base n (set_ctx a (?x\<lparr>post_body := b\<rparr>) (?sv1\<lparr>store := st'\<rparr>)) L"
    by (rule create_inv [OF inv1 a(1) ready]) (use st that in \<open>auto simp: room_def\<close>)
  let ?sv2 = "set_ctx a (?x\<lparr>post_body := b\<rparr>) (?sv1\<lparr>store := st'\<rparr>)"
  have n0: "m \<noteq> 0" using post_length_size [OF d(2)] by (auto simp: size_ok_def)
  have p2: "posting (ctxs ?sv2 a)" using cr(2) n0 by (simp add: posting_def)
  have "unat ?n = length (upload_data c)" using len by (intro unat_of_nat_small) simp
  then have fits: "\<not> expected (ctxs ?sv2 a) < read_size (ctxs ?sv2 a) + ?n"
    using d(3) by (simp add: zero_ctx_def word_less_nat_alt)
  obtain sv' where ap: "post_append c a ?sv2 = Some (keep_reading a, sv')"
      "ctxs sv' a = (ctxs ?sv2 a)\<lparr>read_size := read_size (ctxs ?sv2 a) + ?n\<rparr>"
      "call_ok langs base n c a L [] ?sv2 (keep_reading a) sv'"
    by (rule post_append_fits [OF cr(4) a(1) p2 len fits]) (rule that)
  have "storage_blob_is_already_taken (store sv) k = Some False"
    using taken_iff [OF server_invD(1) [OF inv]] st(1) by simp
  then have cr1: "post_create c a ?sv1 = post_append c a ?sv2"
    using cr(1,2) n0 by (simp add: post_create_def Let_def)
  have "post_data c a (set_ctx a (zero_ctx\<lparr>ctx_id := k, have_id := True\<rparr>) sv) = post_append c a ?sv2"
    unfolding cr1 [symmetric] using d(2)
    by (simp add: post_data_def Let_def zero_ctx_def set_ctx_def null_blk_def)
  then have "ahc_post_blob c a k sv = Some (keep_reading a, sv')"
    using a(2) d(1) ap(1) by (simp add: ahc_post_blob_def Let_def) (simp add: zero_ctx_def)
  then have ahc: "ahc cfg c sv = Some (keep_reading a, sv')"
    using ahc_blob_request(2) [OF c(4,1) no_debouncer [OF cfg] refl c(3)] by simp
  have p': "posting (ctxs sv' a)" using ap(2) p2 by (simp add: posting_def)
  then have ev: "secrets_step (secrets (store ?sv2)) (call_event c [] (ctxs sv a) (ctxs sv' a) (store sv')) (secrets (store sv'))"
    using ap(3) z(3) a(2) by (simp add: call_ok_def call_event_def)
  have ns: "\<not> sending (ctxs sv' a)" using ap(2) by (simp add: sending_def zero_ctx_def)
  then have q: "call_event c [] (ctxs sv a) (ctxs sv' a) (store sv') = Quiet"
    using z(3) a(2) by (simp add: call_event_def)
  then have "secrets (store sv') = secrets (store sv)"
    using ev cr(3) by (auto elim: secrets_step.cases)
  moreover from step.later [where sv = sv and L = L, OF c(1) a(1) c(2) ahc refl] q
  have "step cfg langs (sv, L) Quiet (sv', L(a \<mapsto> (Open, upload_data c)))" by simp
  moreover have "server_inv langs base n sv' (L(a \<mapsto> (Open, upload_data c)))"
    using ap(3) by (simp add: call_ok_def)
  ultimately show ?thesis using that [of sv'] p' ap(2) by (simp add: zero_ctx_def)
qed

text \<open>A context that has a block has read what was uploaded.\<close>

lemma posting_read:
  assumes "ctx_ok st x Open up" "posting x"
  shows "unat (read_size x) = length up" "have_id x" "deferred_error x = DEFERRED_ERROR_CODE_NO_ERROR"
  using assms by (auto simp: ctx_ok_def)

lemma piece_step:
  assumes inv: "server_inv langs base n sv L" and a: "L a = Some (Open, up)"
    and x: "posting (ctxs sv a)" "expected (ctxs sv a) = m" "ctx_id (ctxs sv a) = k"
    and c: "con_cls c = Some a" "call_in cfg langs c" "meth c = ''POST''" "blob_request c k"
    and cfg: "\<not> use_debouncer cfg" and d: "upload_data c \<noteq> []" "length up + length (upload_data c) \<le> unat m"
  obtains sv' where "step cfg langs (sv, L) Quiet (sv', L(a \<mapsto> (Open, up @ upload_data c)))"
    "server_inv langs base n sv' (L(a \<mapsto> (Open, up @ upload_data c)))" "posting (ctxs sv' a)"
    "expected (ctxs sv' a) = m" "ctx_id (ctxs sv' a) = k" "secrets (store sv') = secrets (store sv)"
proof -
  note o' = open_ctx [OF inv a]
  note r = posting_read [OF o'(1) x(1)] and sz = posting_size [OF o'(1) x(1)]
  have len: "length (upload_data c) < 2 ^ 63" using c(2) by (simp add: call_in_def)
  let ?n = "of_nat (length (upload_data c)) :: u64"
  have "unat (read_size (ctxs sv a) + ?n) = length up + length (upload_data c)"
    using r(1) d(2) unat_of_nat_small [of "length (upload_data c)"] unsigned_less [of m, where 'a = nat] len
    by (subst unat_add_lem [THEN iffD1]) auto
  then have fits: "\<not> expected (ctxs sv a) < read_size (ctxs sv a) + ?n"
    using d(2) x(2) by (simp add: word_less_nat_alt)
  obtain sv' where ap: "post_append c a sv = Some (keep_reading a, sv')"
      "ctxs sv' a = (ctxs sv a)\<lparr>read_size := read_size (ctxs sv a) + ?n\<rparr>"
      "call_ok langs base n c a L up sv (keep_reading a) sv'"
    by (rule post_append_fits [OF inv a x(1) len fits]) (rule that)
  have idem: "set_ctx a (ctxs sv a) sv = sv" unfolding set_ctx_def by (simp add: fun_upd_idem)
  have "post_data c a sv = post_append c a (set_ctx a (ctxs sv a) sv)"
    using x(1) r(3) sz(1) by (simp add: post_data_def Let_def posting_def)
  then have "post_data c a sv = post_append c a sv" unfolding idem .
  then have "ahc_post_blob c a k sv = Some (keep_reading a, sv')"
    using r(2) x(3) d(1) ap(1) by (simp add: ahc_post_blob_def Let_def)
  then have ahc: "ahc cfg c sv = Some (keep_reading a, sv')"
    using ahc_blob_request(2) [OF c(4,1) no_debouncer [OF cfg] refl c(3)] by simp
  have p': "posting (ctxs sv' a)" "\<not> sending (ctxs sv' a)"
    using ap(2) x(1) o'(2) by (simp_all add: posting_def sending_def)
  then have q: "call_event c up (ctxs sv a) (ctxs sv' a) (store sv') = Quiet" by (simp add: call_event_def)
  then have "secrets (store sv') = secrets (store sv)"
    using ap(3) by (auto simp: call_ok_def elim: secrets_step.cases)
  moreover from step.later [where sv = sv and L = L, OF c(1) a c(2) ahc refl] q
  have "step cfg langs (sv, L) Quiet (sv', L(a \<mapsto> (Open, up @ upload_data c)))" by simp
  moreover have "server_inv langs base n sv' (L(a \<mapsto> (Open, up @ upload_data c)))"
    using ap(3) by (simp add: call_ok_def)
  ultimately show ?thesis using that [of sv'] p'(1) ap(2) x by simp
qed

lemma run_cons: "step cfg langs s e s' \<Longrightarrow> run cfg langs s' es s'' \<Longrightarrow> run cfg langs s (e # es) s''"
  using run_append [of cfg langs s "[e]" s' es s''] run.more [OF run.start, of cfg langs s e s'] by simp

text \<open>The rest of an upload, in any number of pieces.\<close>

lemma pieces_run:
  assumes c: "\<And>d. length d < 2 ^ 63 \<Longrightarrow> call_in cfg langs (p\<lparr>con_cls := Some a, upload_data := d\<rparr>)"
    "meth p = ''POST''" "blob_request p k" "\<not> use_debouncer cfg"
  shows "server_inv langs base n sv L \<Longrightarrow> L a = Some (Open, up) \<Longrightarrow> posting (ctxs sv a) \<Longrightarrow> expected (ctxs sv a) = m \<Longrightarrow>
    ctx_id (ctxs sv a) = k \<Longrightarrow> [] \<notin> set ds \<Longrightarrow> length up + length (concat ds) \<le> unat m \<Longrightarrow> unat m < 2 ^ 63 \<Longrightarrow>
    \<exists>sv'. run cfg langs (sv, L) (replicate (length ds) Quiet) (sv', L(a \<mapsto> (Open, up @ concat ds))) \<and>
      server_inv langs base n sv' (L(a \<mapsto> (Open, up @ concat ds))) \<and> posting (ctxs sv' a) \<and>
      expected (ctxs sv' a) = m \<and> ctx_id (ctxs sv' a) = k \<and> secrets (store sv') = secrets (store sv)"
proof (induction ds arbitrary: sv L up)
  case Nil
  have "L(a \<mapsto> (Open, up)) = L" using Nil.prems(2) by (simp add: fun_upd_idem)
  then show ?case using Nil.prems run.start by (intro exI [of _ sv]) simp
next
  case (Cons d ds)
  let ?c = "p\<lparr>con_cls := Some a, upload_data := d\<rparr>" and ?L = "L(a \<mapsto> (Open, up @ d))"
  have d: "d \<noteq> []" "length up + length d \<le> unat m" "length d < 2 ^ 63" using Cons.prems(6-8) by auto
  obtain sv1 where s: "step cfg langs (sv, L) Quiet (sv1, ?L)" "server_inv langs base n sv1 ?L" "posting (ctxs sv1 a)"
      "expected (ctxs sv1 a) = m" "ctx_id (ctxs sv1 a) = k" "secrets (store sv1) = secrets (store sv)"
    by (rule piece_step [OF Cons.prems(1-5), of ?c cfg]) (use c d that in auto)
  have "\<exists>sv'. run cfg langs (sv1, ?L) (replicate (length ds) Quiet) (sv', ?L(a \<mapsto> (Open, (up @ d) @ concat ds))) \<and>
      server_inv langs base n sv' (?L(a \<mapsto> (Open, (up @ d) @ concat ds))) \<and> posting (ctxs sv' a) \<and>
      expected (ctxs sv' a) = m \<and> ctx_id (ctxs sv' a) = k \<and> secrets (store sv') = secrets (store sv1)"
    by (rule Cons.IH [OF s(2) _ s(3-5)]) (use Cons.prems(6-8) in auto)
  then obtain sv' where r: "run cfg langs (sv1, ?L) (replicate (length ds) Quiet) (sv', ?L(a \<mapsto> (Open, (up @ d) @ concat ds)))"
      "server_inv langs base n sv' (?L(a \<mapsto> (Open, (up @ d) @ concat ds)))" "posting (ctxs sv' a)"
      "expected (ctxs sv' a) = m" "ctx_id (ctxs sv' a) = k" "secrets (store sv') = secrets (store sv1)" by (elim exE conjE)
  have e: "?L(a \<mapsto> (Open, (up @ d) @ concat ds)) = L(a \<mapsto> (Open, up @ concat (d # ds)))"
      "replicate (length (d # ds)) Quiet = Quiet # replicate (length ds) Quiet"
      "secrets (store sv') = secrets (store sv)" using r(6) s(6) by simp_all
  show ?case unfolding e(2) using run_cons [OF s(1) r(1)] r(2-5) e(3) unfolding e(1) by blast
qed

lemma publish_step:
  assumes inv: "server_inv langs base n sv L" and a: "L a = Some (Open, up)"
    and x: "posting (ctxs sv a)" "read_size (ctxs sv a) = expected (ctxs sv a)" "have_id (ctxs sv a)"
      "ctx_id (ctxs sv a) = k"
    and c: "con_cls c = Some a" "call_in cfg langs c" "meth c = ''POST''" "blob_request c k" "upload_data c = []"
    and cfg: "\<not> use_debouncer cfg"
  obtains sv' where "step cfg langs (sv, L) (Posted k up (now_s c + BLOB_TTL_S)) (sv', L(a \<mapsto> (Closing, up)))"
    "server_inv langs base n sv' (L(a \<mapsto> (Closing, up)))"
    "secrets (store sv') = (secrets (store sv))(k \<mapsto> (up, now_s c + BLOB_TTL_S))"
proof -
  let ?r = "answer a (send_response c 200 Body_empty None HP_API_BLOB)"
  obtain sv' where e: "post_end c a sv = Some (?r, sv')" "\<not> posting (ctxs sv' a)"
      "call_ok langs base n c a L up sv ?r sv'"
    using publish_call [OF inv a x(1,2)] c(2) by (auto simp: call_in_def)
  have "ahc_post_blob c a k sv = Some (?r, sv')"
    using e(1) x(3,4) c(5) by (simp add: ahc_post_blob_def Let_def)
  then have ahc: "ahc cfg c sv = Some (?r, sv')"
    using ahc_blob_request(2) [OF c(4,1) no_debouncer [OF cfg] refl c(3)] by simp
  have ev: "call_event c up (ctxs sv a) (ctxs sv' a) (store sv') = Posted k up (now_s c + BLOB_TTL_S)"
    using x(1,4) e(2) by (simp add: call_event_def)
  from step.later [where sv = sv and L = L, OF c(1) a c(2) ahc refl] ev
  have "step cfg langs (sv, L) (Posted k up (now_s c + BLOB_TTL_S)) (sv', L(a \<mapsto> (Closing, up)))" by simp
  moreover have "secrets_step (secrets (store sv)) (Posted k up (now_s c + BLOB_TTL_S)) (secrets (store sv'))"
    using e(3) ev by (simp add: call_ok_def)
  then have "secrets (store sv') = (secrets (store sv))(k \<mapsto> (up, now_s c + BLOB_TTL_S))"
    by (cases rule: secrets_step.cases) auto
  moreover have "server_inv langs base n sv' (L(a \<mapsto> (Closing, up)))" using e(3) by (simp add: call_ok_def)
  ultimately show ?thesis using that by blast
qed

lemma finish_step:
  assumes inv: "server_inv langs base n sv L" and a: "L a = Some (p, up)"
  obtains sv' where "step cfg langs (sv, L) Quiet (sv', L(a := None))"
    "server_inv langs base n sv' (L(a := None))" "secrets (store sv') = secrets (store sv)"
proof -
  obtain sv' where d: "req_done (Some a) sv = Some sv'" "server_inv langs base n sv' (L(a := None))"
      "secrets (store sv') = secrets (store sv)"
    by (rule done_ok [OF inv a]) (rule that)
  from step.finish [where L = L, OF a d(1)] show ?thesis using that d by blast
qed

text \<open>What a reader of a secret gets.\<close>

definition delivers :: "ahc_result \<Rightarrow> server \<Rightarrow> u8 list \<Rightarrow> bool" where
  "delivers r sv bs \<longleftrightarrow> (\<exists>resp b. queued r = Some resp \<and> code resp = 200 \<and> body resp = Body_blob b \<and>
     contents (store sv) b = Some bs)"

lemma fetch_step:
  assumes inv: "server_inv langs base n sv L" and a: "L a = Some (Open, up)" "ctxs sv a = zero_ctx"
    and c: "con_cls c = Some a" "call_in cfg langs c" "meth c = ''GET''" "blob_request c k" "create_ok c" "queue_ok c"
    and cfg: "\<not> use_debouncer cfg" and k: "secrets (store sv) k = Some (bs, t)"
  obtains r sv' where "ahc cfg c sv = Some (r, sv')" "delivers r sv' bs"
    "step cfg langs (sv, L) (Fetched k bs) (sv', L(a \<mapsto> (Closing, up)))"
    "server_inv langs base n sv' (L(a \<mapsto> (Closing, up)))" "secrets (store sv') = (secrets (store sv))(k := None)"
proof -
  have key: "url_key c = k" using c(4) by (rule blob_request_key)
  have b: "blob_at (store sv) (url_key c) = Some (bs, t)" "t \<noteq> VALID_UNTIL_NOT_PUBLISHED"
    using k key by (auto simp: secrets_def split: option.split_asm if_split_asm)
  obtain b sv' where g: "ahc_get_blob c a (url_key c) sv =
        Some (answer a (send_response c 200 (Body_blob b) (Some ''application/octet-stream'') HP_API_BLOB), sv')"
      "contents (store sv') b = Some bs" "blob_send (ctxs sv' a) = b" "sending (ctxs sv' a)"
      "posting (ctxs sv' a) = posting (ctxs sv a)"
      "call_ok langs base n c a L up sv
        (answer a (send_response c 200 (Body_blob b) (Some ''application/octet-stream'') HP_API_BLOB)) sv'"
    by (rule get_blob_some [OF inv a(1) b]) (rule that)
  let ?r = "answer a (send_response c 200 (Body_blob b) (Some ''application/octet-stream'') HP_API_BLOB)"
  have ahc: "ahc cfg c sv = Some (?r, sv')"
    using ahc_blob_request(1) [OF c(4,1) no_debouncer [OF cfg] refl c(3)] g(1) key by simp
  have ev: "call_event c up (ctxs sv a) (ctxs sv' a) (store sv') = Fetched k bs"
    using g(2-5) key by (simp add: call_event_def)
  from step.later [where sv = sv and L = L, OF c(1) a(1) c(2) ahc refl] ev
  have "step cfg langs (sv, L) (Fetched k bs) (sv', L(a \<mapsto> (Closing, up)))" by simp
  moreover have "secrets_step (secrets (store sv)) (Fetched k bs) (secrets (store sv'))"
    using g(6) ev by (simp add: call_ok_def)
  then have "secrets (store sv') = (secrets (store sv))(k := None)" by (cases rule: secrets_step.cases) auto
  moreover have "server_inv langs base n sv' (L(a \<mapsto> (Closing, up)))" using g(6) by (simp add: call_ok_def)
  moreover have "delivers ?r sv' bs"
    using c(5,6) g(2) by (simp add: delivers_def answer_def send_response_def Let_def)
  ultimately show ?thesis using that ahc by blast
qed

lemma run_snoc: "run cfg langs s es s' \<Longrightarrow> step cfg langs s' e s'' \<Longrightarrow> es' = es @ [e] \<Longrightarrow> run cfg langs s es' s''"
  using run.more by blast

text \<open>
  The post request \<open>p\<close> with the data in the pieces \<open>ds\<close> and the get request \<open>g\<close> for the same blob; the calls
  differ in the data and the context.
\<close>

definition exchange_events :: "htable_key_t \<Rightarrow> u8 list list \<Rightarrow> u32 \<Rightarrow> event list" where
  "exchange_events k ds t = Quiet # replicate (length ds) Quiet @ [Posted k (concat ds) t, Quiet, Quiet]"

lemma upload_run:
  assumes inv: "server_inv langs base n sv L" and cfg: "\<not> use_debouncer cfg" and free: "dom L \<noteq> ctx_slots base n"
    and p: "meth p = ''POST''" "blob_request p k" "call_in cfg langs p"
      "hdr_content_length p = Some (dec_of_nat (length (concat ds)))"
    and ds: "46 \<le> length (concat ds)" "length (concat ds) \<le> 2 ^ 17" "[] \<notin> set ds"
    and st: "blob_at (store sv) k = None" "room (store sv) (of_nat (length (concat ds)))"
  obtains sv1 where
    "run cfg langs (sv, L) (Quiet # replicate (length ds) Quiet @ [Posted k (concat ds) (now_s p + BLOB_TTL_S), Quiet]) (sv1, L)"
    "server_inv langs base n sv1 L"
    "secrets (store sv1) = (secrets (store sv))(k \<mapsto> (concat ds, now_s p + BLOB_TTL_S))"
proof -
  let ?m = "of_nat (length (concat ds)) :: u64"
  obtain d ds' where split: "ds = d # ds'" "d \<noteq> []" "[] \<notin> set ds'" using ds(1,3) by (cases ds) auto
  have ci: "call_in cfg langs (p\<lparr>con_cls := x, upload_data := d\<rparr>)" if "length d < 2 ^ 63" for x d
    using p(3) that by (simp add: call_in_def request_language_def)
  have pl: "post_length (p\<lparr>con_cls := x, upload_data := d\<rparr>) = Some ?m" for x d
    using post_length_dec(1) [OF _ ds(1,2), of "p\<lparr>con_cls := x, upload_data := d\<rparr>"] p(4) by simp
  have m: "unat ?m = length (concat ds)" using post_length_dec(2) [OF p(4) ds(1,2)] .
  obtain a s1 where 1: "step cfg langs (sv, L) Quiet (s1, L(a \<mapsto> (Open, [])))" "a \<notin> dom L"
      "ctxs s1 = (ctxs sv)(a := zero_ctx)" "store s1 = store sv" "server_inv langs base n s1 (L(a \<mapsto> (Open, [])))"
    by (rule first_step [OF inv, of "p\<lparr>con_cls := None, upload_data := []\<rparr>" cfg])
      (use ci [of "[]"] cfg free that in auto)
  obtain s2 where 2: "step cfg langs (s1, L(a \<mapsto> (Open, []))) Quiet (s2, L(a \<mapsto> (Open, d)))"
      "server_inv langs base n s2 (L(a \<mapsto> (Open, d)))" "posting (ctxs s2 a)"
      "expected (ctxs s2 a) = ?m" "ctx_id (ctxs s2 a) = k" "secrets (store s2) = secrets (store s1)"
    by (rule upload_step [OF 1(5), of a "p\<lparr>con_cls := Some a, upload_data := d\<rparr>" cfg k ?m])
      (use ci [of d] 1(3,4) cfg p split ds(2) m pl st that in auto)
  have "\<exists>s3. run cfg langs (s2, L(a \<mapsto> (Open, d))) (replicate (length ds') Quiet) (s3, L(a \<mapsto> (Open, d), a \<mapsto> (Open, d @ concat ds'))) \<and>
      server_inv langs base n s3 (L(a \<mapsto> (Open, d), a \<mapsto> (Open, d @ concat ds'))) \<and> posting (ctxs s3 a) \<and>
      expected (ctxs s3 a) = ?m \<and> ctx_id (ctxs s3 a) = k \<and> secrets (store s3) = secrets (store s2)"
    by (rule pieces_run [OF ci p(1,2) cfg 2(2) _ 2(3-5)]) (use split(1,3) m ds(2) in auto)
  then obtain s3 where 3: "run cfg langs (s2, L(a \<mapsto> (Open, d))) (replicate (length ds') Quiet) (s3, L(a \<mapsto> (Open, concat ds)))"
      "server_inv langs base n s3 (L(a \<mapsto> (Open, concat ds)))" "posting (ctxs s3 a)"
      "expected (ctxs s3 a) = ?m" "ctx_id (ctxs s3 a) = k" "secrets (store s3) = secrets (store s2)"
    using split(1) by auto
  have up: "(L(a \<mapsto> (Open, concat ds))) a = Some (Open, concat ds)" by simp
  note x = posting_read [OF open_ctx(1) [OF 3(2) up] 3(3)]
  have read: "read_size (ctxs s3 a) = expected (ctxs s3 a)" using x(1) m 3(4) by (simp add: word_unat_eq_iff)
  let ?pe = "p\<lparr>con_cls := Some a, upload_data := []\<rparr>"
  have pe: "con_cls ?pe = Some a" "meth ?pe = ''POST''" "blob_request ?pe k" "upload_data ?pe = []" "now_s ?pe = now_s p"
    using p(1,2) by simp_all
  obtain s4 where 4: "step cfg langs (s3, L(a \<mapsto> (Open, concat ds))) (Posted k (concat ds) (now_s p + BLOB_TTL_S)) (s4, L(a \<mapsto> (Closing, concat ds)))"
      "server_inv langs base n s4 (L(a \<mapsto> (Closing, concat ds)))"
      "secrets (store s4) = (secrets (store s3))(k \<mapsto> (concat ds, now_s p + BLOB_TTL_S))"
    by (rule publish_step [OF 3(2) up 3(3) read x(2) 3(5) pe(1) _ pe(2-4) cfg, unfolded fun_upd_upd pe(5)])
      (rule ci, simp, rule that)
  have L: "(L(a \<mapsto> (Closing, concat ds)))(a := None) = L" using 1(2) by (auto simp: fun_upd_idem_iff domIff)
  obtain s5 where 5: "step cfg langs (s4, L(a \<mapsto> (Closing, concat ds))) Quiet (s5, L)" "server_inv langs base n s5 L"
      "secrets (store s5) = secrets (store s4)"
    by (rule finish_step [OF 4(2), of a Closing "concat ds" cfg]) (use L that in auto)
  have "run cfg langs (s3, L(a \<mapsto> (Open, concat ds))) [Posted k (concat ds) (now_s p + BLOB_TTL_S), Quiet] (s5, L)"
    by (rule run_cons [OF 4(1) run_cons [OF 5(1) run.start]])
  from run_cons [OF 1(1) run_cons [OF 2(1) run_append [OF 3(1) this]]] have
    "run cfg langs (sv, L) (Quiet # replicate (length ds) Quiet @ [Posted k (concat ds) (now_s p + BLOB_TTL_S), Quiet]) (s5, L)"
    using split(1) by simp
  then show ?thesis using that 5(2,3) 4(3) 3(6) 2(6) 1(4) by simp
qed

lemma exchange_run:
  assumes inv: "server_inv langs base n sv L" and cfg: "\<not> use_debouncer cfg" and free: "dom L \<noteq> ctx_slots base n"
    and p: "meth p = ''POST''" "blob_request p k" "call_in cfg langs p"
      "hdr_content_length p = Some (dec_of_nat (length (concat ds)))"
    and g: "meth g = ''GET''" "blob_request g k" "call_in cfg langs g" "create_ok g" "queue_ok g" "upload_data g = []"
    and ds: "46 \<le> length (concat ds)" "length (concat ds) \<le> 2 ^ 17" "[] \<notin> set ds"
    and st: "blob_at (store sv) k = None" "room (store sv) (of_nat (length (concat ds)))"
  obtains sv1 L1 a r sv2 L2 where
    "run cfg langs (sv, L) (exchange_events k ds (now_s p + BLOB_TTL_S)) (sv1, L1)"
    "ahc cfg (g\<lparr>con_cls := Some a\<rparr>) sv1 = Some (r, sv2)" "delivers r sv2 (concat ds)"
    "run cfg langs (sv, L) (exchange_events k ds (now_s p + BLOB_TTL_S) @ [Fetched k (concat ds)]) (sv2, L2)"
    "secrets (store sv2) = (secrets (store sv))(k := None)"
proof -
  have gi: "call_in cfg langs (g\<lparr>con_cls := x\<rparr>)" for x using g(3) by (simp add: call_in_def request_language_def)
  obtain s4 where 4: "run cfg langs (sv, L) (Quiet # replicate (length ds) Quiet @ [Posted k (concat ds) (now_s p + BLOB_TTL_S), Quiet]) (s4, L)"
      "server_inv langs base n s4 L" "secrets (store s4) = (secrets (store sv))(k \<mapsto> (concat ds, now_s p + BLOB_TTL_S))"
    by (rule upload_run [OF inv cfg free p ds st]) (rule that)
  obtain a' s5 where 5: "step cfg langs (s4, L) Quiet (s5, L(a' \<mapsto> (Open, [])))" "ctxs s5 = (ctxs s4)(a' := zero_ctx)"
      "store s5 = store s4" "server_inv langs base n s5 (L(a' \<mapsto> (Open, [])))"
    by (rule first_step [OF 4(2), of "g\<lparr>con_cls := None\<rparr>" cfg]) (use gi cfg free that in auto)
  have k5: "secrets (store s5) k = Some (concat ds, now_s p + BLOB_TTL_S)" using 4(3) 5(3) by simp
  obtain r s6 where 6: "ahc cfg (g\<lparr>con_cls := Some a'\<rparr>) s5 = Some (r, s6)" "delivers r s6 (concat ds)"
      "step cfg langs (s5, L(a' \<mapsto> (Open, []))) (Fetched k (concat ds)) (s6, L(a' \<mapsto> (Closing, [])))"
      "secrets (store s6) = (secrets (store s5))(k := None)"
    by (rule fetch_step [OF 5(4), of a' "[]" "g\<lparr>con_cls := Some a'\<rparr>" cfg k "concat ds" "now_s p + BLOB_TTL_S"])
      (use gi cfg g 5(2) k5 that in auto)
  have r5: "run cfg langs (sv, L) (exchange_events k ds (now_s p + BLOB_TTL_S)) (s5, L(a' \<mapsto> (Open, [])))"
    by (rule run_snoc [OF 4(1) 5(1)]) (simp add: exchange_events_def)
  moreover have "run cfg langs (sv, L) (exchange_events k ds (now_s p + BLOB_TTL_S) @ [Fetched k (concat ds)])
      (s6, L(a' \<mapsto> (Closing, [])))"
    by (rule run_snoc [OF r5 6(3) refl])
  moreover have "secrets (store s6) = (secrets (store sv))(k := None)" using 6(4) 5(3) 4(3) by auto
  ultimately show ?thesis using that 6(1,2) by blast
qed

end
