(* ===== verification/Scan.thy ===== *)
theory Scan
  imports Handler
begin

unbundle bit_operations_syntax

text \<open>
  The search for the places in the page where the server writes the uptime and the version: 16 equal bytes in a
  row. \<^verbatim>\<open>server.c\<close> has it in a scalar, an x86 and an ARM version; a read outside of the data is \<^const>\<open>None\<close>.
\<close>

section \<open>Vectors\<close>

definition byte_at :: "u8 list \<Rightarrow> nat \<Rightarrow> u8 option" where
  "byte_at d i = (if i < length d then Some (d ! i) else None)"

text \<open>\<^verbatim>\<open>_mm_loadu_si128\<close>, \<^verbatim>\<open>_mm256_loadu_si256\<close> and \<^verbatim>\<open>vld1q_u8\<close>.\<close>

definition load_vec :: "nat \<Rightarrow> u8 list \<Rightarrow> nat \<Rightarrow> u8 list option" where
  "load_vec w d i = (if i + w \<le> length d then Some (take w (drop i d)) else None)"

text \<open>\<^verbatim>\<open>cmpeq_epi8\<close> and \<^verbatim>\<open>vceqq_u8\<close> with a vector of copies of \<open>ch\<close>; \<^verbatim>\<open>movemask_epi8\<close>; \<^verbatim>\<open>testz\<close> of a vector with itself.\<close>

definition cmpeq :: "u8 list \<Rightarrow> u8 \<Rightarrow> u8 list" where
  "cmpeq v ch = map (\<lambda>b. if b = ch then 0xFF else 0) v"

definition movemask_epi8 :: "u8 list \<Rightarrow> u32" where
  "movemask_epi8 v = horner_sum of_bool 2 (map (\<lambda>b. bit b 7) v)"

definition testz :: "u8 list \<Rightarrow> bool" where
  "testz v \<longleftrightarrow> (\<forall>b\<in>set v. b AND b = 0)"


section \<open>16 equal bytes\<close>

function all16_loop :: "u8 list \<Rightarrow> nat \<Rightarrow> u8 \<Rightarrow> nat \<Rightarrow> bool option" where
  "all16_loop d off ch i =
     (if i < REPLACE_SIZE then do {
        b \<leftarrow> byte_at d (off + i);
        if b \<noteq> ch then Some False else all16_loop d off ch (i + 1) }
      else Some True)"
  by pat_completeness auto
termination by (relation "measure (\<lambda>(d, off, ch, i). REPLACE_SIZE - i)") auto

definition all16_eq_byte_scalar :: "u8 list \<Rightarrow> nat \<Rightarrow> nat \<Rightarrow> u8 \<Rightarrow> bool option" where
  "all16_eq_byte_scalar d off remaining ch =
     (if remaining < REPLACE_SIZE then Some False else all16_loop d off ch 0)"

text \<open>The instruction sets the build distinguishes.\<close>

datatype simd = No_simd | X86_sse | X86_avx2 | Arm_neon

text \<open>The loop of the ARM version over the bytes of the mask.\<close>

function mask_loop :: "u8 list \<Rightarrow> nat \<Rightarrow> bool option" where
  "mask_loop mk i =
     (if i < REPLACE_SIZE then do {
        b \<leftarrow> byte_at mk i;
        if b \<noteq> 0xFF then Some False else mask_loop mk (i + 1) }
      else Some True)"
  by pat_completeness auto
termination by (relation "measure (\<lambda>(mk, i). REPLACE_SIZE - i)") auto

declare all16_loop.simps [simp del] mask_loop.simps [simp del]

definition all16_eq_byte :: "simd \<Rightarrow> u8 list \<Rightarrow> nat \<Rightarrow> nat \<Rightarrow> u8 \<Rightarrow> bool option" where
  "all16_eq_byte simd d off remaining ch =
     (if remaining < REPLACE_SIZE then Some False
      else if simd \<in> {X86_sse, X86_avx2} \<and> 16 \<le> remaining then do {
        v \<leftarrow> load_vec 16 d off;
        let mk = movemask_epi8 (cmpeq v ch);
        let full = (if REPLACE_SIZE = 32 then 0xFFFFFFFF else push_bit REPLACE_SIZE 1 - 1);
        Some (mk AND full = full) }
      else if simd = Arm_neon \<and> 16 \<le> remaining then do {
        v \<leftarrow> load_vec 16 d off;
        mask_loop (cmpeq v ch) 0 }
      else all16_eq_byte_scalar d off remaining ch)"


section \<open>The search\<close>

text \<open>
  \<^verbatim>\<open>find_16_scalar(data + off, sz, ch)\<close>; the result is an offset into the whole data, the inner \<^const>\<open>None\<close>
  is \<^verbatim>\<open>NULL\<close>.
\<close>

function find_scalar_loop :: "u8 list \<Rightarrow> nat \<Rightarrow> nat \<Rightarrow> u8 \<Rightarrow> nat \<Rightarrow> nat option option" where
  "find_scalar_loop d off sz ch i =
     (if i \<le> sz - REPLACE_SIZE then do {
        b \<leftarrow> byte_at d (off + i);
        found \<leftarrow> (if b = ch then all16_eq_byte_scalar d (off + i) (sz - i) ch else Some False);
        if found then Some (Some (off + i)) else find_scalar_loop d off sz ch (i + 1) }
      else Some None)"
  by pat_completeness auto
termination by (relation "measure (\<lambda>(d, off, sz, ch, i). Suc sz - i)") auto

declare find_scalar_loop.simps [simp del]

definition find_16_scalar :: "u8 list \<Rightarrow> nat \<Rightarrow> nat \<Rightarrow> u8 \<Rightarrow> nat option option" where
  "find_16_scalar d off sz ch =
     (if sz < REPLACE_SIZE then Some None else find_scalar_loop d off sz ch 0)"

text \<open>The loop over the bytes of one vector.\<close>

function vec_loop :: "simd \<Rightarrow> u8 list \<Rightarrow> nat \<Rightarrow> u8 \<Rightarrow> nat \<Rightarrow> u8 list \<Rightarrow> nat \<Rightarrow> nat option option" where
  "vec_loop simd d off ch w mk i =
     (if i < w then do {
        let remaining = length d - (off + i);
        b \<leftarrow> byte_at mk i;
        found \<leftarrow> (if b = 0xFF then all16_eq_byte simd d (off + i) remaining ch else Some False);
        if found then Some (Some (off + i)) else vec_loop simd d off ch w mk (i + 1) }
      else Some None)"
  by pat_completeness auto
termination by (relation "measure (\<lambda>(simd, d, off, ch, w, mk, i). w - i)") auto

declare vec_loop.simps [simp del]

text \<open>
  The loop over the vectors, of 32 bytes with AVX2 and of 16 with NEON; AVX2 skips the loop over the bytes of a
  vector without a hit.
\<close>

function find_vectors :: "simd \<Rightarrow> nat \<Rightarrow> u8 list \<Rightarrow> u8 \<Rightarrow> nat \<Rightarrow> nat option option" where
  "find_vectors simd w d ch off =
     (if 0 < w \<and> w \<le> length d - off then do {
        v \<leftarrow> load_vec w d off;
        let eq = cmpeq v ch;
        r \<leftarrow> (if simd = X86_avx2 \<and> testz eq then Some None else vec_loop simd d off ch w eq 0);
        case r of Some p \<Rightarrow> Some (Some p) | None \<Rightarrow> find_vectors simd w d ch (off + w) }
      else find_16_scalar d off (length d - off) ch)"
  by pat_completeness auto
termination by (relation "measure (\<lambda>(simd, w, d, ch, off). length d - off)") auto

declare find_vectors.simps [simp del]

definition find_16 :: "simd \<Rightarrow> u8 list \<Rightarrow> u8 \<Rightarrow> nat option option" where
  "find_16 simd d ch = (case simd of
     X86_avx2 \<Rightarrow> find_vectors simd 32 d ch 0
   | Arm_neon \<Rightarrow> find_vectors simd 16 d ch 0
   | _ \<Rightarrow> find_16_scalar d 0 (length d) ch)"


section \<open>All versions agree\<close>

text \<open>16 bytes \<open>ch\<close> from \<open>i\<close> on.\<close>

definition run16 :: "u8 list \<Rightarrow> u8 \<Rightarrow> nat \<Rightarrow> bool" where
  "run16 d ch i \<longleftrightarrow> i + 16 \<le> length d \<and> (\<forall>j<16. d ! (i + j) = ch)"

definition first16 :: "u8 list \<Rightarrow> u8 \<Rightarrow> nat option" where
  "first16 d ch = List.find (run16 d ch) [0..<length d]"

lemma replace_size [simp]: "REPLACE_SIZE = 16"
  by (simp add: REPLACE_SIZE_def)

lemma index_step: "i < n \<Longrightarrow> {i..<n} = insert i {Suc i..<n}" for i n :: nat
  by auto

lemma all16_loop_run:
  assumes "off + 16 \<le> length d"
  shows "i + k = 16 \<Longrightarrow> all16_loop d off ch i = Some (\<forall>j\<in>{i..<16}. d ! (off + j) = ch)"
proof (induction k arbitrary: i)
  case (Suc k)
  then have "byte_at d (off + i) = Some (d ! (off + i))" "{i..<16} = insert i {Suc i..<16}"
    using assms index_step [of i 16] by (simp_all add: byte_at_def)
  then show ?case using Suc.IH [of "Suc i"] Suc.prems by (simp add: all16_loop.simps [of d off ch i])
qed (simp add: all16_loop.simps)

lemma mask_loop_run:
  assumes "length mk = 16"
  shows "i + k = 16 \<Longrightarrow> mask_loop mk i = Some (\<forall>j\<in>{i..<16}. mk ! j = 0xFF)"
proof (induction k arbitrary: i)
  case (Suc k)
  then have "byte_at mk i = Some (mk ! i)" "{i..<16} = insert i {Suc i..<16}"
    using assms index_step [of i 16] by (simp_all add: byte_at_def)
  then show ?case using Suc.IH [of "Suc i"] Suc.prems by (simp add: mask_loop.simps [of mk i])
qed (simp add: mask_loop.simps)

lemma run16_iff: "off + 16 \<le> length d \<Longrightarrow> (\<forall>j\<in>{0..<16}. d ! (off + j) = ch) \<longleftrightarrow> run16 d ch off"
  by (auto simp: run16_def)

lemma all16_scalar_run:
  assumes "off + remaining = length d"
  shows "all16_eq_byte_scalar d off remaining ch = Some (run16 d ch off)"
  using assms all16_loop_run [of off d 0 16 ch] run16_iff [of off d ch]
  by (auto simp: all16_eq_byte_scalar_def run16_def)

lemma cmpeq_nth:
  "i < length v \<Longrightarrow> cmpeq v ch ! i = 0xFF \<longleftrightarrow> v ! i = ch" "i < length v \<Longrightarrow> bit (cmpeq v ch ! i) 7 \<longleftrightarrow> v ! i = ch"
  "length (cmpeq v ch) = length v"
  by (auto simp: cmpeq_def)

lemma movemask_bit: "bit (movemask_epi8 v) i \<longleftrightarrow> i < 32 \<and> i < length v \<and> bit (v ! i) 7"
  by (simp add: movemask_epi8_def bit_horner_sum_bit_iff) auto

lemma movemask_full:
  assumes "length v = 16"
  shows "movemask_epi8 v AND (push_bit 16 1 - 1) = push_bit 16 1 - 1 \<longleftrightarrow> (\<forall>j\<in>{0..<16}. bit (v ! j) 7)"
proof -
  have full: "push_bit 16 1 - 1 = (mask 16 :: u32)" by (simp add: mask_eq_exp_minus_1)
  show ?thesis
  proof
    assume "movemask_epi8 v AND (push_bit 16 1 - 1) = push_bit 16 1 - 1"
    then have eq: "movemask_epi8 v AND mask 16 = mask 16" by (simp only: full)
    have "bit (v ! j) 7" if "j < 16" for j
    proof -
      have "bit (mask 16 :: u32) j" using that by (simp only: bit_mask_iff) simp
      then have "bit (movemask_epi8 v AND mask 16) j" by (simp only: eq)
      then show ?thesis by (simp only: bit_and_iff movemask_bit)
    qed
    then show "\<forall>j\<in>{0..<16}. bit (v ! j) 7" by simp
  next
    assume "\<forall>j\<in>{0..<16}. bit (v ! j) 7"
    then show "movemask_epi8 v AND (push_bit 16 1 - 1) = push_bit 16 1 - 1"
      unfolding full using assms by (intro bit_eqI) (auto simp only: bit_and_iff bit_mask_iff movemask_bit atLeast0LessThan lessThan_iff)
  qed
qed

text \<open>The test of 16 bytes is the same with every instruction set.\<close>

lemma all16_run:
  assumes "off + remaining = length d"
  shows "all16_eq_byte simd d off remaining ch = Some (run16 d ch off)"
proof (cases "remaining < 16")
  case True
  then show ?thesis using assms by (auto simp: all16_eq_byte_def run16_def)
next
  case False
  then have fits: "off + 16 \<le> length d" using assms by simp
  let ?v = "take 16 (drop off d)"
  have v: "load_vec 16 d off = Some ?v" "length ?v = 16" using fits by (simp_all add: load_vec_def)
  have nth: "\<And>j. j < 16 \<Longrightarrow> ?v ! j = d ! (off + j)" using fits by simp
  have eq: "(\<forall>j\<in>{0..<16}. bit (cmpeq ?v ch ! j) 7) \<longleftrightarrow> run16 d ch off"
      "(\<forall>j\<in>{0..<16}. cmpeq ?v ch ! j = 0xFF) \<longleftrightarrow> run16 d ch off"
    using cmpeq_nth v(2) nth run16_iff [OF fits, of ch] by simp_all
  have len: "length (cmpeq ?v ch) = 16" using cmpeq_nth(3) v(2) by metis
  show ?thesis
    using False v(1) movemask_full [OF len] mask_loop_run [OF len, of 0 16] eq all16_scalar_run [OF assms]
    by (cases simd) (simp_all add: all16_eq_byte_def Let_def)
qed

text \<open>Each loop finds the first run in the part it has still to search.\<close>

lemma find_upt_step: "i < n \<Longrightarrow> List.find P [i..<n] = (if P i then Some i else List.find P [Suc i..<n])"
  by (simp add: upt_conv_Cons)

lemma find_upt_none: "(\<And>j. i \<le> j \<Longrightarrow> j < n \<Longrightarrow> \<not> P j) \<Longrightarrow> List.find P [i..<n] = None"
  by (auto simp: find_None_iff)

lemma find_upt_split:
  assumes "i \<le> k" "k \<le> n"
  shows "List.find P [i..<n] = (case List.find P [i..<k] of Some p \<Rightarrow> Some p | None \<Rightarrow> List.find P [k..<n])"
proof -
  have "List.find P (xs @ ys) = (case List.find P xs of Some p \<Rightarrow> Some p | None \<Rightarrow> List.find P ys)" for xs ys
    by (induction xs) auto
  moreover have "[i..<n] = [i..<k] @ [k..<n]" using assms upt_add_eq_append [of i k "n - k"] by simp
  ultimately show ?thesis by metis
qed

lemma find_scalar_run:
  assumes "off + sz = length d" "16 \<le> sz"
  shows "i + k = Suc (sz - 16) \<Longrightarrow>
    find_scalar_loop d off sz ch i = Some (List.find (run16 d ch) [off + i..<length d])"
proof (induction k arbitrary: i)
  case 0
  then have "List.find (run16 d ch) [off + i..<length d] = None"
    using assms by (intro find_upt_none) (auto simp: run16_def)
  then show ?case using 0 by (simp add: find_scalar_loop.simps)
next
  case (Suc k)
  then have i: "i \<le> sz - 16" "off + i < length d" using assms by simp_all
  have all: "all16_eq_byte_scalar d (off + i) (sz - i) ch = Some (run16 d ch (off + i))"
    using assms i(1) by (intro all16_scalar_run) simp
  have "d ! (off + i) = ch" if "run16 d ch (off + i)"
    using that unfolding run16_def by (metis add.right_neutral zero_less_numeral)
  then show ?case
    using Suc.IH [of "Suc i"] Suc.prems i all find_upt_step [OF i(2), of "run16 d ch"]
    by (auto simp: find_scalar_loop.simps [of d off sz ch i] byte_at_def)
qed

lemma find_16_scalar_run:
  assumes "off + sz = length d"
  shows "find_16_scalar d off sz ch = Some (List.find (run16 d ch) [off..<length d])"
proof (cases "sz < 16")
  case True
  then have "List.find (run16 d ch) [off..<length d] = None"
    using assms by (intro find_upt_none) (auto simp: run16_def)
  then show ?thesis using True by (simp add: find_16_scalar_def)
next
  case False
  then show ?thesis
    using find_scalar_run [OF assms, of 0 "Suc (sz - 16)"] by (simp add: find_16_scalar_def)
qed

lemma vec_loop_run:
  assumes "off + w \<le> length d" "length mk = w" "\<And>j. j < w \<Longrightarrow> mk ! j = 0xFF \<longleftrightarrow> d ! (off + j) = ch"
  shows "i + k = w \<Longrightarrow> vec_loop simd d off ch w mk i = Some (List.find (run16 d ch) [off + i..<off + w])"
proof (induction k arbitrary: i)
  case 0
  then show ?case by (simp add: vec_loop.simps)
next
  case (Suc k)
  then have i: "i < w" "off + i < off + w" by simp_all
  have all: "all16_eq_byte simd d (off + i) (length d - (off + i)) ch = Some (run16 d ch (off + i))"
    using assms(1) i(1) by (intro all16_run) simp
  have "mk ! i = 0xFF" if "run16 d ch (off + i)"
    using that assms(3) [OF i(1)] unfolding run16_def by (metis add.right_neutral zero_less_numeral)
  then show ?case
    using Suc.IH [of "Suc i"] Suc.prems i assms(2) all find_upt_step [OF i(2), of "run16 d ch"]
    by (auto simp: vec_loop.simps [of simd d off ch w mk i] byte_at_def)
qed

lemma find_vectors_run:
  "off \<le> length d \<Longrightarrow> find_vectors simd w d ch off = Some (List.find (run16 d ch) [off..<length d])"
proof (induction "length d - off" arbitrary: off rule: less_induct)
  case less
  show ?case
  proof (cases "0 < w \<and> w \<le> length d - off")
    case False
    then show ?thesis using less.prems find_16_scalar_run [of off "length d - off" d ch]
      by (auto simp: find_vectors.simps [of simd w d ch off])
  next
    case True
    then have fits: "off + w \<le> length d" using less.prems by linarith
    let ?v = "take w (drop off d)" and ?F = "\<lambda>i j. List.find (run16 d ch) [i..<j]"
    have v: "load_vec w d off = Some ?v" "length ?v = w" using fits by (simp_all add: load_vec_def)
    have hit: "cmpeq ?v ch ! j = 0xFF \<longleftrightarrow> d ! (off + j) = ch" if "j < w" for j
      using cmpeq_nth(1) [of j ?v ch] that fits v(2) by simp
    have loop: "vec_loop simd d off ch w (cmpeq ?v ch) 0 = Some (?F off (off + w))"
      using vec_loop_run [OF fits _ hit, of 0 w simd] cmpeq_nth(3) [of ?v ch] v(2) by simp
    have "?F off (off + w) = None" if z: "testz (cmpeq ?v ch)"
    proof (rule find_upt_none)
      fix j assume j: "off \<le> j" "j < off + w"
      then have "cmpeq ?v ch ! (j - off) \<in> set (cmpeq ?v ch)"
        using cmpeq_nth(3) [of ?v ch] v(2) by (intro nth_mem) simp
      then have "cmpeq ?v ch ! (j - off) = 0" using z by (auto simp: testz_def)
      then have "d ! j \<noteq> ch" using hit [of "j - off"] j by auto
      then show "\<not> run16 d ch j" unfolding run16_def by (metis add.right_neutral zero_less_numeral)
    qed
    then have r: "(if simd = X86_avx2 \<and> testz (cmpeq ?v ch) then Some None
        else vec_loop simd d off ch w (cmpeq ?v ch) 0) = Some (?F off (off + w))" using loop by simp
    have "length d - (off + w) < length d - off" using fits True by linarith
    then have "find_vectors simd w d ch (off + w) = Some (?F (off + w) (length d))"
      using less.hyps fits by blast
    then show ?thesis
      using True v(1) r find_upt_split [of off "off + w" "length d" "run16 d ch"] fits
      by (simp add: find_vectors.simps [of simd w d ch off] Let_def split: option.splits)
  qed
qed

lemma find_16_run: "find_16 simd d ch = Some (first16 d ch)"
  using find_vectors_run [of 0 d simd _ ch] find_16_scalar_run [of 0 "length d" d ch]
  by (cases simd) (simp_all add: find_16_def first16_def)

lemma first16_Some:
  "first16 d ch = Some i \<longleftrightarrow> run16 d ch i \<and> (\<forall>j<i. \<not> run16 d ch j)"
proof -
  have "run16 d ch i \<Longrightarrow> i < length d" by (simp add: run16_def)
  then show ?thesis unfolding first16_def find_Some_iff by (auto simp: nth_upt)
qed

lemma first16_None: "first16 d ch = None \<longleftrightarrow> (\<forall>i. \<not> run16 d ch i)"
  unfolding first16_def find_None_iff by (auto simp: run16_def)

text \<open>
  C37: \<^verbatim>\<open>find_16\<close> with every instruction set: it reads only inside the data, gives the same result as the plain
  scalar loop, and that result is the first place with 16 bytes \<open>ch\<close> in a row, or \<^verbatim>\<open>NULL\<close> if there is none.
\<close>

theorem find_16_equivalence:
  "find_16 simd d ch = find_16_scalar d 0 (length d) ch \<and>
   (\<exists>r. find_16 simd d ch = Some r \<and>
     (\<forall>i. r = Some i \<longleftrightarrow> run16 d ch i \<and> \<not> (\<exists>j<i. run16 d ch j)) \<and> (r = None \<longleftrightarrow> \<not> (\<exists>i. run16 d ch i)))"
  using find_16_run [of simd d ch] find_16_scalar_run [of 0 "length d" d ch] first16_Some first16_None
  by (simp add: first16_def [symmetric])

end
