(* ===== verification/Translate.thy ===== *)
theory Translate
  imports Scan "HOL-Library.Sublist"
begin

text \<open>
  The translation of the assets: keys such as \<^verbatim>\<open>@page_title@\<close> in a file are replaced by their values, in one pass
  that computes the size and one that writes. The bytes from the start of the file to the end of the memory
  it lies in are a list, the file a prefix of it; a read behind the memory is \<^const>\<open>None\<close>.
\<close>

section \<open>The code\<close>

record TranslationEntry =
  entry_key :: "u8 list"
  entry_value :: "u8 list"

definition TR_KEY_MARKER :: u8 where "TR_KEY_MARKER = 0x40"

definition memcmp_eq :: "u8 list \<Rightarrow> nat \<Rightarrow> u8 list \<Rightarrow> bool option" where
  "memcmp_eq d i k = map_option (\<lambda>v. v = k) (load_vec (length k) d i)"

text \<open>The loop over the entries: the first whose key is at \<open>i\<close>.\<close>

fun match_entry :: "u8 list \<Rightarrow> nat \<Rightarrow> TranslationEntry list \<Rightarrow> TranslationEntry option option" where
  "match_entry d i [] = Some None"
| "match_entry d i (e # es) = do {
     found \<leftarrow> memcmp_eq d i (entry_key e);
     if found then Some (Some e) else match_entry d i es }"

definition key_at_ptr :: "u8 list \<Rightarrow> TranslationEntry list \<Rightarrow> nat \<Rightarrow> TranslationEntry option option" where
  "key_at_ptr d trs i = do {
     b \<leftarrow> byte_at d i;
     if b = TR_KEY_MARKER then match_entry d i trs else Some None }"

function translated_size_loop ::
    "u8 list \<Rightarrow> nat \<Rightarrow> TranslationEntry list \<Rightarrow> nat \<Rightarrow> u64 \<Rightarrow> u64 option" where
  "translated_size_loop d file_size trs i ret =
     (if i < file_size then do {
        m \<leftarrow> key_at_ptr d trs i;
        case m of
          Some e \<Rightarrow> translated_size_loop d file_size trs (i + length (entry_key e) + 1)
            (ret - of_nat (length (entry_key e)) + of_nat (length (entry_value e)))
        | None \<Rightarrow> translated_size_loop d file_size trs (i + 1) ret }
      else Some ret)"
  by pat_completeness auto
termination by (relation "measure (\<lambda>(d, file_size, trs, i, ret). file_size - i)") auto

definition get_translated_file_size :: "u8 list \<Rightarrow> nat \<Rightarrow> TranslationEntry list \<Rightarrow> u64 option" where
  "get_translated_file_size d file_size trs =
     translated_size_loop d file_size trs 0 (of_nat file_size)"

text \<open>\<open>out\<close> is what has been written so far.\<close>

function translate_loop ::
    "u8 list \<Rightarrow> nat \<Rightarrow> TranslationEntry list \<Rightarrow> nat \<Rightarrow> u64 \<Rightarrow> u8 list \<Rightarrow> (u64 \<times> u8 list) option" where
  "translate_loop d file_size trs i ret out =
     (if i < file_size then do {
        m \<leftarrow> key_at_ptr d trs i;
        case m of
          Some e \<Rightarrow> do {
            let i = i + length (entry_key e);
            let out = out @ entry_value e;
            let ret = ret - of_nat (length (entry_key e)) + of_nat (length (entry_value e));
            b \<leftarrow> byte_at d i;
            translate_loop d file_size trs (i + 1) ret (out @ [b]) }
        | None \<Rightarrow> do {
            b \<leftarrow> byte_at d i;
            translate_loop d file_size trs (i + 1) ret (out @ [b]) } }
      else Some (ret, out))"
  by pat_completeness auto
termination by (relation "measure (\<lambda>(d, file_size, trs, i, ret, out). file_size - i)") auto

declare translated_size_loop.simps [simp del] translate_loop.simps [simp del]

definition translate_file :: "u8 list \<Rightarrow> nat \<Rightarrow> TranslationEntry list \<Rightarrow> (u64 \<times> u8 list) option" where
  "translate_file d file_size trs = translate_loop d file_size trs 0 (of_nat file_size) []"


section \<open>The two passes agree\<close>

text \<open>Where the loops end: at the end of the file, or behind it if a key reaches there.\<close>

function end_index :: "u8 list \<Rightarrow> nat \<Rightarrow> TranslationEntry list \<Rightarrow> nat \<Rightarrow> nat option" where
  "end_index d file_size trs i =
     (if i < file_size then do {
        m \<leftarrow> key_at_ptr d trs i;
        end_index d file_size trs (i + (case m of Some e \<Rightarrow> length (entry_key e) | None \<Rightarrow> 0) + 1) }
      else Some i)"
  by pat_completeness auto
termination by (relation "measure (\<lambda>(d, file_size, trs, i). file_size - i)") (auto split: option.splits)

declare end_index.simps [simp del]

lemma passes_agree:
  "translate_loop d fs trs i ret out = Some (n, out') \<Longrightarrow>
   translated_size_loop d fs trs i ret = Some n \<and>
   (\<exists>j. end_index d fs trs i = Some j \<and>
     n + of_nat j + of_nat (length out) = ret + of_nat i + of_nat (length out'))"
proof (induction d fs trs i ret out rule: translate_loop.induct)
  case (1 d fs trs i ret out)
  note unfolds = translate_loop.simps [of d fs trs i] translated_size_loop.simps [of d fs trs i]
    end_index.simps [of d fs trs i]
  show ?case
  proof (cases "i < fs")
    case False
    then show ?thesis using "1.prems" by (simp add: unfolds)
  next
    case True
    then obtain m where m: "key_at_ptr d trs i = Some m"
      using "1.prems" by (cases "key_at_ptr d trs i") (simp_all add: unfolds)
    show ?thesis
    proof (cases m)
      case None
      then obtain b where "byte_at d i = Some b" "translate_loop d fs trs (i + 1) ret (out @ [b]) = Some (n, out')"
        using "1.prems" True m by (auto simp: unfolds bind_eq_Some_conv)
      then show ?thesis using "1.IH"(1) [OF True m None] True m None by (auto simp: unfolds algebra_simps)
    next
      case (Some e)
      then obtain b where "byte_at d (i + length (entry_key e)) = Some b"
          "translate_loop d fs trs (i + length (entry_key e) + 1)
             (ret - of_nat (length (entry_key e)) + of_nat (length (entry_value e)))
             (out @ entry_value e @ [b]) = Some (n, out')"
        using "1.prems" True m by (auto simp: unfolds Let_def bind_eq_Some_conv)
      then show ?thesis using "1.IH"(2) [OF True m Some refl refl refl] True m Some
        by (auto simp: unfolds algebra_simps)
    qed
  qed
qed


section \<open>Templates\<close>

text \<open>
  A file as its author sees it: plain text, then keys each followed by text. The byte behind a key is copied
  without a look at it, so only the rest of that text must be free of the marker.
\<close>

definition plain :: "u8 list \<Rightarrow> bool" where
  "plain s \<longleftrightarrow> TR_KEY_MARKER \<notin> set s"

definition render_keys :: "(TranslationEntry \<times> u8 list) list \<Rightarrow> u8 list" where
  "render_keys segs = concat (map (\<lambda>(e, tx). entry_key e @ tx) segs)"

definition render_values :: "(TranslationEntry \<times> u8 list) list \<Rightarrow> u8 list" where
  "render_values segs = concat (map (\<lambda>(e, tx). entry_value e @ tx) segs)"

definition keys_ok :: "TranslationEntry list \<Rightarrow> bool" where
  "keys_ok trs \<longleftrightarrow> (\<forall>e\<in>set trs. entry_key e \<noteq> [] \<and> hd (entry_key e) = TR_KEY_MARKER) \<and>
     (\<forall>e\<in>set trs. \<forall>e'\<in>set trs. prefix (entry_key e) (entry_key e') \<longrightarrow> e = e')"

text \<open>\<open>n\<close> bytes follow the last text; the longest key must fit into what follows the start of each key.\<close>

definition seg_ok :: "TranslationEntry list \<Rightarrow> nat \<Rightarrow> TranslationEntry \<times> u8 list \<Rightarrow> bool" where
  "seg_ok trs n = (\<lambda>(e, tx). e \<in> set trs \<and> tx \<noteq> [] \<and> plain (tl tx) \<and>
     (\<forall>e'\<in>set trs. length (entry_key e') \<le> length (entry_key e) + length tx + n))"

lemma match_entry_key:
  assumes ok: "keys_ok trs" and e: "e \<in> set trs" and d: "drop i d = entry_key e @ u"
    and fits: "\<And>e'. e' \<in> set trs \<Longrightarrow> i + length (entry_key e') \<le> length d"
  shows "set es \<subseteq> set trs \<Longrightarrow> e \<in> set es \<Longrightarrow> match_entry d i es = Some (Some e)"
proof (induction es)
  case (Cons e' es)
  have l: "memcmp_eq d i (entry_key e') = Some (take (length (entry_key e')) (drop i d) = entry_key e')"
    using fits [of e'] Cons.prems by (simp add: memcmp_eq_def load_vec_def)
  have "e' = e" if "take (length (entry_key e')) (drop i d) = entry_key e'"
  proof -
    have "prefix (entry_key e') (drop i d)" using that by (metis take_is_prefix)
    moreover have "prefix (entry_key e) (drop i d)" using d by simp
    ultimately show ?thesis
      using ok e Cons.prems(1) prefix_same_cases unfolding keys_ok_def by (metis list.set_intros(1) subsetD)
  qed
  moreover have "take (length (entry_key e)) (drop i d) = entry_key e" using d by simp
  ultimately show ?case using Cons l by auto
qed simp

lemma translate_plain:
  assumes "fs \<le> length d"
  shows "take (length s) (drop i d) = s \<Longrightarrow> plain s \<Longrightarrow> i + length s \<le> fs \<Longrightarrow>
    translate_loop d fs trs i ret out = translate_loop d fs trs (i + length s) ret (out @ s)"
proof (induction s arbitrary: i out)
  case (Cons b s)
  then have i: "i < fs" "i < length d" using assms by simp_all
  then have dr: "drop i d = d ! i # drop (Suc i) d" by (simp add: Cons_nth_drop_Suc)
  then have b: "d ! i = b" "take (length s) (drop (Suc i) d) = s" using Cons.prems(1) by simp_all
  have "key_at_ptr d trs i = Some None"
    using i b(1) Cons.prems(2) by (auto simp: key_at_ptr_def byte_at_def plain_def)
  then show ?case
    using Cons.IH [of "Suc i" "out @ [b]"] Cons.prems b i
    by (simp add: translate_loop.simps [of d fs trs i] byte_at_def plain_def)
qed simp

lemma translate_segment:
  assumes ok: "keys_ok trs" "seg_ok trs n (e, tx)" and fs: "fs \<le> length d"
    and d: "drop i d = entry_key e @ tx @ u" "n \<le> length u" and i: "i + length (entry_key e @ tx) \<le> fs"
  shows "translate_loop d fs trs i ret out =
    translate_loop d fs trs (i + length (entry_key e @ tx))
      (ret - of_nat (length (entry_key e)) + of_nat (length (entry_value e))) (out @ entry_value e @ tx)"
proof -
  let ?k = "length (entry_key e)"
  obtain b s where tx: "tx = b # s" "plain s" using ok(2) by (cases tx) (auto simp: seg_ok_def)
  have e: "e \<in> set trs" using ok(2) by (simp add: seg_ok_def)
  have k: "entry_key e \<noteq> []" "hd (entry_key e) = TR_KEY_MARKER" using ok(1) e by (auto simp: keys_ok_def)
  have len: "length d = i + ?k + length tx + length u"
    using arg_cong [OF d(1), of length] i fs by simp
  have fits: "i + length (entry_key e') \<le> length d" if "e' \<in> set trs" for e'
  proof -
    have "length (entry_key e') \<le> ?k + length tx + n" using ok(2) that by (simp add: seg_ok_def)
    then show ?thesis using len d(2) by linarith
  qed
  have "d ! i = hd (drop i d)" using len k(1) by (intro hd_drop_conv_nth [symmetric]) simp
  then have "d ! i = TR_KEY_MARKER" using d(1) k by simp
  then have at: "key_at_ptr d trs i = Some (Some e)"
    using match_entry_key [OF ok(1) e d(1) fits] e len k(1) by (simp add: key_at_ptr_def byte_at_def)
  have "drop ?k (drop i d) = tx @ u" unfolding d(1) by simp
  then have dr: "drop (i + ?k) d = b # s @ u" using tx(1) by (simp add: add.commute)
  have "i + ?k < length d" using len tx(1) by simp
  from Cons_nth_drop_Suc [OF this] dr have b: "d ! (i + ?k) = b" "drop (Suc (i + ?k)) d = s @ u" by simp_all
  have "translate_loop d fs trs i ret out = translate_loop d fs trs (i + ?k + 1)
      (ret - of_nat ?k + of_nat (length (entry_value e))) (out @ entry_value e @ [b])"
    using at i k(1) len tx(1) b(1) by (simp add: translate_loop.simps [of d fs trs i] byte_at_def Let_def)
  also have "\<dots> = translate_loop d fs trs (i + ?k + 1 + length s)
      (ret - of_nat ?k + of_nat (length (entry_value e))) ((out @ entry_value e @ [b]) @ s)"
    by (rule translate_plain [OF fs _ tx(2)]) (use b(2) i tx(1) in simp_all)
  finally show ?thesis using tx(1) by (simp add: add.assoc)
qed

lemma translate_segments:
  assumes ok: "keys_ok trs" and fs: "fs \<le> length d"
  shows "(\<And>sg. sg \<in> set segs \<Longrightarrow> seg_ok trs (length u) sg) \<Longrightarrow> drop i d = render_keys segs @ u \<Longrightarrow>
    i + length (render_keys segs) = fs \<Longrightarrow>
    translate_loop d fs trs i ret out =
      Some (ret + of_nat (length (render_values segs)) - of_nat (length (render_keys segs)), out @ render_values segs)"
proof (induction segs arbitrary: i ret out)
  case Nil
  then have "i = fs" by (simp add: render_keys_def)
  then show ?case by (simp add: translate_loop.simps [of d fs trs fs] render_keys_def render_values_def)
next
  case (Cons sg segs)
  obtain e tx where sg: "sg = (e, tx)" by (cases sg)
  have d: "drop i d = entry_key e @ tx @ render_keys segs @ u" using Cons.prems(2) sg by (simp add: render_keys_def)
  have len: "i + length (entry_key e @ tx) + length (render_keys segs) = fs"
    using Cons.prems(3) sg by (simp add: render_keys_def)
  have sok: "seg_ok trs (length u) (e, tx)" using Cons.prems(1) sg by simp
  have step: "translate_loop d fs trs i ret out = translate_loop d fs trs (i + length (entry_key e @ tx))
      (ret - of_nat (length (entry_key e)) + of_nat (length (entry_value e))) (out @ entry_value e @ tx)"
    by (rule translate_segment [OF ok sok fs d]) (use len in auto)
  have "drop (length (entry_key e @ tx)) (drop i d) = render_keys segs @ u" unfolding d by simp
  then have "drop (i + length (entry_key e @ tx)) d = render_keys segs @ u" by (simp add: add.commute)
  from Cons.IH [OF _ this len] Cons.prems(1) step sg show ?case
    by (simp add: render_keys_def render_values_def algebra_simps)
qed

lemma translate_template:
  assumes ok: "keys_ok trs" "plain pre" "\<And>sg. sg \<in> set segs \<Longrightarrow> seg_ok trs (length u) sg"
  shows "translate_file (pre @ render_keys segs @ u) (length (pre @ render_keys segs)) trs =
      Some (of_nat (length (pre @ render_values segs)), pre @ render_values segs)"
    and "get_translated_file_size (pre @ render_keys segs @ u) (length (pre @ render_keys segs)) trs =
      Some (of_nat (length (pre @ render_values segs)))"
proof -
  let ?d = "pre @ render_keys segs @ u" and ?fs = "length (pre @ render_keys segs)"
  have "translate_file ?d ?fs trs = translate_loop ?d ?fs trs (length pre) (of_nat ?fs) pre"
    unfolding translate_file_def using translate_plain [of ?fs ?d pre 0 trs "of_nat ?fs" "[]"] ok(2) by simp
  also have "\<dots> = Some (of_nat ?fs + of_nat (length (render_values segs)) - of_nat (length (render_keys segs)),
      pre @ render_values segs)"
    by (rule translate_segments [OF ok(1) _ ok(3)]) simp_all
  finally show r: "translate_file ?d ?fs trs =
      Some (of_nat (length (pre @ render_values segs)), pre @ render_values segs)" by simp
  then show "get_translated_file_size ?d ?fs trs = Some (of_nat (length (pre @ render_values segs)))"
    using passes_agree unfolding translate_file_def get_translated_file_size_def by blast
qed


section \<open>All assets in all languages\<close>

text \<open>
  A file is translated for every language; \<open>jobs\<close> lists the translations, offsets and sizes in the order of
  \<^verbatim>\<open>translate_assets\<close>. The sizes are added up first.
\<close>

type_synonym job = "TranslationEntry list \<times> nat \<times> nat"

definition translation_jobs :: "(nat \<Rightarrow> TranslationEntry list) \<Rightarrow> nat \<Rightarrow> (nat \<times> nat) list \<Rightarrow> job list" where
  "translation_jobs lang_trs langs assets =
     concat (map (\<lambda>i. map (\<lambda>(off, n). (lang_trs i, off, n)) assets) [0..<langs])"

fun size_pass :: "u8 list \<Rightarrow> job list \<Rightarrow> u64 \<Rightarrow> u64 option" where
  "size_pass m [] sum_size = Some sum_size"
| "size_pass m ((trs, off, n) # jobs) sum_size = do {
     translated_size \<leftarrow> get_translated_file_size (drop off m) n trs;
     size_pass m jobs (sum_size + translated_size) }"

fun write_pass :: "u8 list \<Rightarrow> job list \<Rightarrow> u8 list \<Rightarrow> nat \<Rightarrow> (u8 list \<times> (nat \<times> nat) list) option" where
  "write_pass m [] new data_ptr = Some (new, [])"
| "write_pass m ((trs, off, n) # jobs) new data_ptr = do {
     (translated_size, out) \<leftarrow> translate_file (drop off m) n trs;
     new \<leftarrow> write_page new data_ptr out;
     (new, places) \<leftarrow> write_pass m jobs new (data_ptr + unat translated_size);
     Some (new, (data_ptr, unat translated_size) # places) }"

text \<open>
  \<open>fresh\<close> is the memory \<^verbatim>\<open>malloc\<close> gives for a size, if it gives any; the inner \<^const>\<open>None\<close> is the result \<^verbatim>\<open>false\<close>.
\<close>

definition translate_assets ::
    "(u64 \<Rightarrow> u8 list option) \<Rightarrow> (nat \<Rightarrow> TranslationEntry list) \<Rightarrow> nat \<Rightarrow> u8 list \<Rightarrow> (nat \<times> nat) list \<Rightarrow>
     (u8 list \<times> (nat \<times> nat) list) option option" where
  "translate_assets fresh lang_trs langs m assets = do {
     let jobs = translation_jobs lang_trs langs assets;
     sum_size \<leftarrow> size_pass m jobs 0;
     case fresh sum_size of
       None \<Rightarrow> Some None
     | Some new \<Rightarrow> do {
         r \<leftarrow> write_pass m jobs new 0;
         Some (Some r) } }"

text \<open>\<open>out\<close> is what becomes of a file, and both passes say so; the places of the outputs behind each other.\<close>

definition job_out :: "u8 list \<Rightarrow> job \<Rightarrow> u8 list \<Rightarrow> bool" where
  "job_out m = (\<lambda>(trs, off, n) out. translate_file (drop off m) n trs = Some (of_nat (length out), out) \<and>
     get_translated_file_size (drop off m) n trs = Some (of_nat (length out)))"

fun places :: "nat \<Rightarrow> u8 list list \<Rightarrow> (nat \<times> nat) list" where
  "places p [] = []"
| "places p (out # outs) = (p, length out) # places (p + length out) outs"

lemma size_pass_ok:
  "list_all2 (job_out m) jobs outs \<Longrightarrow> size_pass m jobs t = Some (t + of_nat (length (concat outs)))"
  by (induction arbitrary: t rule: list_all2_induct) (auto simp: job_out_def add.assoc)

lemma write_pass_ok:
  "list_all2 (job_out m) jobs outs \<Longrightarrow> p + length (concat outs) = length new \<Longrightarrow>
   length (concat outs) < 2 ^ 64 \<Longrightarrow>
   write_pass m jobs new p = Some (take p new @ concat outs, places p outs)"
proof (induction jobs outs arbitrary: p new rule: list_all2_induct)
  case (Cons j jobs out outs)
  obtain trs off n where j: "j = (trs, off, n)" by (cases j)
  have t: "translate_file (drop off m) n trs = Some (of_nat (length out), out)"
    using Cons.hyps(1) j by (simp add: job_out_def)
  have u: "unat (of_nat (length out) :: u64) = length out"
    using Cons.prems(2) by (intro unat_of_nat_small) simp
  let ?new = "splice new p out"
  have w: "write_page new p out = Some ?new" "length ?new = length new"
    using Cons.prems(1) write_page_ok [of p out new] by simp_all
  have "take (p + length out) ?new = take p new @ out" using Cons.prems(1) by (intro splice_take) simp
  then show ?case
    using Cons.IH [of "p + length out" ?new] Cons.prems j t u w by simp
qed simp

lemma places_slice:
  "(off, n) = places p outs ! k \<Longrightarrow> k < length outs \<Longrightarrow>
   p \<le> off \<and> take n (drop (off - p) (concat outs)) = outs ! k"
proof (induction outs arbitrary: p k)
  case (Cons out outs)
  show ?case
  proof (cases k)
    case (Suc k')
    then have "p + length out \<le> off \<and> take n (drop (off - (p + length out)) (concat outs)) = outs ! k'"
      using Cons.IH [of "p + length out" k'] Cons.prems by simp
    then show ?thesis using Suc by (auto simp: le_diff_conv2)
  qed (use Cons.prems in simp)
qed simp

definition template_at :: "u8 list \<Rightarrow> job \<Rightarrow> u8 list \<times> (TranslationEntry \<times> u8 list) list \<Rightarrow> bool" where
  "template_at m = (\<lambda>(trs, off, n) (pre, segs). keys_ok trs \<and> plain pre \<and> n = length (pre @ render_keys segs) \<and>
     take n (drop off m) = pre @ render_keys segs \<and>
     (\<forall>sg\<in>set segs. seg_ok trs (length m - off - n) sg))"

lemma template_job_out:
  assumes "template_at m (trs, off, n) (pre, segs)"
  shows "job_out m (trs, off, n) (pre @ render_values segs)"
proof -
  have a: "keys_ok trs" "plain pre" "n = length (pre @ render_keys segs)" "take n (drop off m) = pre @ render_keys segs"
      "\<And>sg. sg \<in> set segs \<Longrightarrow> seg_ok trs (length m - off - n) sg"
    using assms unfolding template_at_def prod.case by blast+
  let ?u = "drop n (drop off m)"
  have d: "drop off m = pre @ render_keys segs @ ?u"
    using append_take_drop_id [of n "drop off m"] unfolding a(4) by simp
  have u: "\<And>sg. sg \<in> set segs \<Longrightarrow> seg_ok trs (length ?u) sg" using a(5) by (simp add: add.commute)
  note r = translate_template [of trs pre segs ?u, OF a(1,2) u, folded d a(3)]
  show ?thesis unfolding job_out_def prod.case by (intro conjI r)
qed

lemma translate_assets_ok:
  assumes "list_all2 (template_at m) (translation_jobs lang_trs langs files) temps"
    and "outs = map (\<lambda>(pre, segs). pre @ render_values segs) temps" "length (concat outs) < 2 ^ 64"
    and "\<And>n. length (malloc n) = unat n"
  shows "translate_assets (\<lambda>n. Some (malloc n)) lang_trs langs m files = Some (Some (concat outs, places 0 outs))"
proof -
  let ?jobs = "translation_jobs lang_trs langs files"
  have o': "list_all2 (job_out m) ?jobs outs"
    unfolding assms(2) list_all2_map2 using assms(1)
    by (rule list_all2_mono) (auto intro: template_job_out)
  have "unat (of_nat (length (concat outs)) :: u64) = length (concat outs)"
    using assms(3) by (rule unat_of_nat_small)
  then show ?thesis
    using size_pass_ok [OF o', of 0] write_pass_ok [OF o', of 0 "malloc (of_nat (length (concat outs)))"] assms(3,4)
    by (simp add: translate_assets_def)
qed

lemma length_places [simp]: "length (places p outs) = length outs"
  by (induction outs arbitrary: p) simp_all

lemma places_nth:
  "k < length outs \<Longrightarrow> (case places 0 outs ! k of (off, n) \<Rightarrow> take n (drop off (concat outs))) = outs ! k"
  using places_slice [of _ _ 0 outs k] by (auto split: prod.splits)



end
