(* ===== verification/Files.thy ===== *)
theory Files
  imports Translate
begin

text \<open>
  Reading files at startup: the assets and the TLS key and certificate. What the operating system answers is in
  the record of a file; \<open>reads\<close> are the results of successive \<^verbatim>\<open>read\<close> calls, \<^const>\<open>None\<close> for an error and the
  empty list for the end of the file.
\<close>

section \<open>One file\<close>

record os_file =
  can_open :: bool
  fstat_ok :: bool
  is_regular :: bool
  st_size :: int
  reads :: "u8 list option list"

definition open_file_and_get_size :: "os_file \<Rightarrow> int" where
  "open_file_and_get_size f =
     (if \<not> can_open f then - 1
      else if \<not> fstat_ok f then - 1
      else if \<not> is_regular f then - 1
      else if st_size f \<le> 0 then - 1
      else st_size f)"

text \<open>The loop over \<^verbatim>\<open>offset\<close>, which is the length of \<open>out\<close>; \<^const>\<open>None\<close> if it waits for another \<^verbatim>\<open>read\<close>.\<close>

fun read_loop :: "nat \<Rightarrow> u8 list \<Rightarrow> u8 list option list \<Rightarrow> (bool \<times> u8 list) option" where
  "read_loop n out [] = (if length out < n then None else Some (True, out))"
| "read_loop n out (r # rs) =
     (if length out < n then
        (case r of
           None \<Rightarrow> Some (False, out)
         | Some bytes_read \<Rightarrow> if bytes_read = [] then Some (False, out) else read_loop n (out @ bytes_read) rs)
      else Some (True, out))"

definition read_and_close_file :: "os_file \<Rightarrow> nat \<Rightarrow> (bool \<times> u8 list) option" where
  "read_and_close_file f n = read_loop n [] (reads f)"

text \<open>A file with the given contents, which \<^verbatim>\<open>read\<close> may deliver in any pieces.\<close>

definition has_contents :: "os_file \<Rightarrow> u8 list \<Rightarrow> bool" where
  "has_contents f cs \<longleftrightarrow> can_open f \<and> fstat_ok f \<and> is_regular f \<and> cs \<noteq> [] \<and> st_size f = int (length cs) \<and>
     (\<exists>pieces. reads f = map Some pieces \<and> [] \<notin> set pieces \<and> concat pieces = cs)"

lemma read_loop_pieces:
  "[] \<notin> set pieces \<Longrightarrow> length out + length (concat pieces) = n \<Longrightarrow>
   read_loop n out (map Some pieces) = Some (True, out @ concat pieces)"
proof (induction pieces arbitrary: out)
  case (Cons p ps)
  then have "length out < n" by (cases p) auto
  then show ?case using Cons.IH [of "out @ p"] Cons.prems by auto
qed simp

lemma contents_read:
  assumes "has_contents f cs"
  shows "open_file_and_get_size f = int (length cs)" "read_and_close_file f (length cs) = Some (True, cs)"
  using assms read_loop_pieces [of _ "[]" "length cs"]
  by (auto simp: has_contents_def open_file_and_get_size_def read_and_close_file_def)

lemma read_loop_short:
  "[] \<notin> set pieces \<Longrightarrow> length out + length (concat pieces) < n \<Longrightarrow> r = None \<or> r = Some [] \<Longrightarrow>
   read_loop n out (map Some pieces @ r # rs) = Some (False, out @ concat pieces)"
  by (induction pieces arbitrary: out) auto


section \<open>The assets\<close>

text \<open>The two loops of \<^verbatim>\<open>assets_load\<close>; the inner \<^const>\<open>None\<close> is \<^verbatim>\<open>false\<close>, \<open>m\<close> is the memory up to \<^verbatim>\<open>current_ptr\<close>.\<close>

fun open_assets :: "os_file list \<Rightarrow> int list option" where
  "open_assets [] = Some []"
| "open_assets (f # fs) =
     (let asset_size = open_file_and_get_size f
      in if asset_size < 0 then None else map_option (Cons asset_size) (open_assets fs))"

fun read_assets :: "(os_file \<times> int) list \<Rightarrow> u8 list \<Rightarrow> (u8 list \<times> (nat \<times> nat) list) option option" where
  "read_assets [] m = Some (Some (m, []))"
| "read_assets ((f, asset_size) # fs) m = do {
     (ok, bytes) \<leftarrow> read_and_close_file f (nat asset_size);
     if \<not> ok then Some None
     else do {
       r \<leftarrow> read_assets fs (m @ bytes);
       case r of
         None \<Rightarrow> Some None
       | Some (m', assets) \<Rightarrow> Some (Some (m', (length m, nat asset_size) # assets)) } }"

definition assets_load :: "bool \<Rightarrow> os_file list \<Rightarrow> (u8 list \<times> (nat \<times> nat) list) option option" where
  "assets_load malloc_ok files = (case open_assets files of
     None \<Rightarrow> Some None
   | Some asset_sizes \<Rightarrow> if \<not> malloc_ok then Some None else read_assets (zip files asset_sizes) [])"

lemma read_assets_ok:
  "list_all2 has_contents fs css \<Longrightarrow>
   read_assets (zip fs (map (\<lambda>cs. int (length cs)) css)) m = Some (Some (m @ concat css, places (length m) css))"
  by (induction arbitrary: m rule: list_all2_induct) (simp_all add: contents_read)

lemma assets_load_ok:
  assumes "list_all2 has_contents fs css"
  shows "assets_load True fs = Some (Some (concat css, places 0 css))"
proof -
  have "open_assets fs = Some (map (\<lambda>cs. int (length cs)) css)"
    using assms by (induction rule: list_all2_induct) (simp_all add: contents_read)
  then show ?thesis using read_assets_ok [OF assms, of "[]"] by (simp add: assets_load_def)
qed

text \<open>
  C39: \<^verbatim>\<open>assets_load\<close> places the files one behind the other, whatever pieces \<^verbatim>\<open>read\<close> delivers them in; one file
  that cannot be opened, is not a regular file or is empty, or no memory, and the server does not start.
\<close>

theorem assets_load_spec:
  "(list_all2 has_contents files css \<longrightarrow>
     (\<exists>m ps. assets_load True files = Some (Some (m, ps)) \<and> m = concat css \<and> length ps = length css \<and>
       (\<forall>k<length css. case ps ! k of (off, n) \<Rightarrow> take n (drop off m) = css ! k))) \<and>
   ((\<exists>f\<in>set files. open_file_and_get_size f = - 1) \<longrightarrow> assets_load malloc_ok files = Some None) \<and>
   assets_load False files = Some None"
proof (intro conjI impI)
  assume o': "list_all2 has_contents files css"
  have "case places 0 css ! k of (off, n) \<Rightarrow> take n (drop off (concat css)) = css ! k" if "k < length css" for k
    using places_nth [OF that] by (auto split: prod.splits)
  then show "\<exists>m ps. assets_load True files = Some (Some (m, ps)) \<and> m = concat css \<and> length ps = length css \<and>
      (\<forall>k<length css. case ps ! k of (off, n) \<Rightarrow> take n (drop off m) = css ! k)"
    using assets_load_ok [OF o'] by simp
next
  assume "\<exists>f\<in>set files. open_file_and_get_size f = - 1"
  then have "open_assets files = None" by (induction files) (auto simp: Let_def)
  then show "assets_load malloc_ok files = Some None" by (simp add: assets_load_def)
next
  show "assets_load False files = Some None" by (simp add: assets_load_def split: option.splits)
qed

theorem assets_load_spec_witness:
  "\<exists>m ps. assets_load True
      [\<lparr>can_open = True, fstat_ok = True, is_regular = True, st_size = 3, reads = [Some [1], Some [2, 3]]\<rparr>,
       \<lparr>can_open = True, fstat_ok = True, is_regular = True, st_size = 1, reads = [Some [4]]\<rparr>] =
      Some (Some (m, ps)) \<and> m = [1, 2, 3, 4] \<and> assets_load False [] = Some None"
proof -
  let ?f1 = "\<lparr>can_open = True, fstat_ok = True, is_regular = True, st_size = 3,
    reads = [Some [1], Some [2, 3]]\<rparr> :: os_file"
  let ?f2 = "\<lparr>can_open = True, fstat_ok = True, is_regular = True, st_size = 1, reads = [Some [4]]\<rparr> :: os_file"
  have "has_contents ?f1 [1, 2, 3]"
    unfolding has_contents_def by (simp add: exI [of _ "[[1], [2, 3]]"])
  moreover have "has_contents ?f2 [4]"
    unfolding has_contents_def by (simp add: exI [of _ "[[4]]"])
  ultimately have "list_all2 has_contents [?f1, ?f2] [[1, 2, 3], [4]]" by simp
  then show ?thesis
    using assets_load_spec [of "[?f1, ?f2]" "[[1, 2, 3], [4]]"] assets_load_spec [of "[]" "[]"] by force
qed


section \<open>The TLS key and certificate\<close>

text \<open>One allocation, \<^const>\<open>None\<close> while the pointer is \<^verbatim>\<open>NULL\<close>; the pointers into it are offsets.\<close>

record tls_data =
  tls_key_and_cert_memory :: "u8 list option"
  tls_key :: nat
  tls_cert :: nat

definition no_tls :: tls_data where
  "no_tls = \<lparr>tls_key_and_cert_memory = None, tls_key = 0, tls_cert = 0\<rparr>"

text \<open>
  \<^verbatim>\<open>tls_data_load\<close>. A failed \<^verbatim>\<open>malloc\<close> is logged and not returned, so the code goes on with offsets of a null
  pointer: undefined, the outer \<^const>\<open>None\<close>. The order of the two files in memory is the reverse of the order in which
  they are read.
\<close>

definition tls_data_load :: "(nat \<Rightarrow> u8 list option) \<Rightarrow> os_file \<Rightarrow> os_file \<Rightarrow> (bool \<times> tls_data) option" where
  "tls_data_load malloc cert_file key_file =
     (let cert_size = open_file_and_get_size cert_file
      in if cert_size < 0 then Some (False, no_tls)
         else
           (let key_size = open_file_and_get_size key_file
            in if key_size < 0 then Some (False, no_tls)
               else do {
                 m \<leftarrow> malloc (nat (cert_size + key_size + 2));
                 let key_ptr = 0;
                 let cert_ptr = nat (key_size + 1);
                 (ok, bytes) \<leftarrow> read_and_close_file cert_file (nat cert_size);
                 m \<leftarrow> write_page m cert_ptr bytes;
                 if \<not> ok then Some (False, \<lparr>tls_key_and_cert_memory = Some m, tls_key = key_ptr, tls_cert = cert_ptr\<rparr>)
                 else do {
                   m \<leftarrow> write_page m (cert_ptr + nat cert_size) [0];
                   (ok, bytes) \<leftarrow> read_and_close_file key_file (nat key_size);
                   m \<leftarrow> write_page m key_ptr bytes;
                   if \<not> ok then Some (False, \<lparr>tls_key_and_cert_memory = Some m, tls_key = key_ptr, tls_cert = cert_ptr\<rparr>)
                   else do {
                     m \<leftarrow> write_page m (key_ptr + nat key_size) [0];
                     Some (True, \<lparr>tls_key_and_cert_memory = Some m, tls_key = key_ptr, tls_cert = cert_ptr\<rparr>) } } }))"

definition tls_data_zero :: "tls_data \<Rightarrow> tls_data" where
  "tls_data_zero t = t\<lparr>tls_key_and_cert_memory := map_option (map (\<lambda>_. 0)) (tls_key_and_cert_memory t)\<rparr>"

text \<open>The string at a pointer: the bytes up to the terminator.\<close>

definition string_at :: "u8 list \<Rightarrow> nat \<Rightarrow> u8 list" where
  "string_at m p = takeWhile (\<lambda>b. b \<noteq> 0) (drop p m)"

lemma string_at_eq: "0 \<notin> set s \<Longrightarrow> m = xs @ s @ 0 # ys \<Longrightarrow> string_at m (length xs) = s"
  by (simp add: string_at_def, subst takeWhile_append2) auto

lemma write_page_append: "length bs = length ys \<Longrightarrow> p = length xs \<Longrightarrow> write_page (xs @ ys @ zs) p bs = Some (xs @ bs @ zs)"
  by (simp add: write_page_def splice_def)

lemma tls_data_load_ok:
  assumes cert: "has_contents cert_file cert" and key: "has_contents key_file key"
    and m: "length m = length cert + length key + 2"
  shows "tls_data_load (\<lambda>_. Some m) cert_file key_file = Some (True,
    \<lparr>tls_key_and_cert_memory = Some (key @ 0 # cert @ [0]), tls_key = 0, tls_cert = length key + 1\<rparr>)"
proof -
  let ?k = "take (length key) m" and ?z = "[m ! length key]"
  let ?c = "take (length cert) (drop (length key + 1) m)" and ?e = "[m ! (length key + 1 + length cert)]"
  have split: "m = ?k @ ?z @ ?c @ ?e"
  proof (rule nth_equalityI)
    show "m ! i = (?k @ ?z @ ?c @ ?e) ! i" if i: "i < length m" for i
    proof -
      consider "i < length key" | "i = length key" | "length key < i" "i < length key + 1 + length cert"
        | "i = length key + 1 + length cert" using i m by linarith
      then show ?thesis by cases (use m in \<open>auto simp: nth_append\<close>)
    qed
  qed (use m in simp)
  have len: "length ?k = length key" "length ?c = length cert" using m by simp_all
  note w = write_page_append
  have 1: "write_page m (length key + 1) cert = Some (?k @ ?z @ cert @ ?e)"
    by (subst split) (use w [of cert ?c "length key + 1" "?k @ ?z" ?e] len in simp)
  have 2: "write_page (?k @ ?z @ cert @ ?e) (length key + 1 + length cert) [0] = Some (?k @ ?z @ cert @ [0])"
    using w [of "[0]" ?e "length key + 1 + length cert" "?k @ ?z @ cert" "[]"] len by simp
  have 3: "write_page (?k @ ?z @ cert @ [0]) 0 key = Some (key @ ?z @ cert @ [0])"
    using w [of key ?k 0 "[]" "?z @ cert @ [0]"] len by simp
  have 4: "write_page (key @ ?z @ cert @ [0]) (length key) [0] = Some (key @ [0] @ cert @ [0])"
    using w [of "[0]" ?z "length key" key "cert @ [0]"] by simp
  have "nat (int (length key) + 1) = length key + 1" by simp
  then show ?thesis
    using contents_read [OF cert] contents_read [OF key] 1 2 3 4 by (simp add: tls_data_load_def Let_def)
qed

text \<open>
  C38: \<^verbatim>\<open>tls_data_load\<close> gives libmicrohttpd the key and the certificate as two terminated strings, writes inside
  its allocation only, and \<^verbatim>\<open>tls_data_zero\<close> leaves no byte of them; without a file it returns \<^verbatim>\<open>false\<close>, and without memory it
  does not: it computes with a null pointer.
\<close>

theorem tls_data_spec:
  assumes "has_contents cert_file cert" "has_contents key_file key" "0 \<notin> set cert" "0 \<notin> set key"
    and "length m = length cert + length key + 2"
  shows "(\<exists>t mem. tls_data_load (\<lambda>_. Some m) cert_file key_file = Some (True, t) \<and>
      tls_key_and_cert_memory t = Some mem \<and> length mem = length m \<and>
      string_at mem (tls_key t) = key \<and> string_at mem (tls_cert t) = cert \<and>
      tls_key_and_cert_memory (tls_data_zero t) = Some (replicate (length m) 0)) \<and>
    tls_data_load malloc (cert_file\<lparr>can_open := False\<rparr>) key_file = Some (False, no_tls) \<and>
    tls_data_load (\<lambda>_. None) cert_file key_file = None"
proof (intro conjI)
  let ?t = "\<lparr>tls_key_and_cert_memory = Some (key @ 0 # cert @ [0]), tls_key = 0, tls_cert = length key + 1\<rparr>"
  have "tls_data_load (\<lambda>_. Some m) cert_file key_file = Some (True, ?t)"
    by (rule tls_data_load_ok [OF assms(1,2,5)])
  moreover have "string_at (key @ 0 # cert @ [0]) 0 = key"
    using string_at_eq [of key _ "[]" "cert @ [0]"] assms(4) by simp
  moreover have "string_at (key @ 0 # cert @ [0]) (length key + 1) = cert"
    using string_at_eq [of cert "key @ 0 # cert @ [0]" "key @ [0]" "[]"] assms(3) by simp
  moreover have "tls_key_and_cert_memory (tls_data_zero ?t) = Some (replicate (length m) 0)"
    using map_replicate_const [of 0 "key @ 0 # cert @ [0]"] assms(5) by (simp add: tls_data_zero_def add.commute del: map_append)
  ultimately show "\<exists>t mem. tls_data_load (\<lambda>_. Some m) cert_file key_file = Some (True, t) \<and>
      tls_key_and_cert_memory t = Some mem \<and> length mem = length m \<and>
      string_at mem (tls_key t) = key \<and> string_at mem (tls_cert t) = cert \<and>
      tls_key_and_cert_memory (tls_data_zero t) = Some (replicate (length m) 0)"
    using assms(5) by (intro exI [of _ ?t]) simp
  show "tls_data_load malloc (cert_file\<lparr>can_open := False\<rparr>) key_file = Some (False, no_tls)"
    by (simp add: tls_data_load_def open_file_and_get_size_def)
  show "tls_data_load (\<lambda>_. None) cert_file key_file = None"
    using contents_read(1) [OF assms(1)] contents_read(1) [OF assms(2)] by (simp add: tls_data_load_def)
qed

theorem tls_data_spec_witness:
  "\<exists>t mem. tls_data_load (\<lambda>_. Some [9, 9, 9, 9, 9])
      \<lparr>can_open = True, fstat_ok = True, is_regular = True, st_size = 2, reads = [Some [1, 2]]\<rparr>
      \<lparr>can_open = True, fstat_ok = True, is_regular = True, st_size = 1, reads = [Some [3]]\<rparr> = Some (True, t) \<and>
    tls_key_and_cert_memory t = Some mem \<and> string_at mem (tls_key t) = [3] \<and> string_at mem (tls_cert t) = [1, 2]"
proof -
  let ?c = "\<lparr>can_open = True, fstat_ok = True, is_regular = True, st_size = 2, reads = [Some [1, 2]]\<rparr> :: os_file"
  let ?k = "\<lparr>can_open = True, fstat_ok = True, is_regular = True, st_size = 1, reads = [Some [3]]\<rparr> :: os_file"
  have "has_contents ?c [1, 2]" "has_contents ?k [3]"
    unfolding has_contents_def by (simp_all add: exI [of _ "[[1, 2]]"] exI [of _ "[[3]]"])
  from tls_data_spec [OF this, of "[9, 9, 9, 9, 9]"] show ?thesis by force
qed

end
