(* ===== verification/Startup.thy ===== *)
theory Startup
  imports Exchange Files
begin

text \<open>
  The start of the server in \<^verbatim>\<open>main\<close>: the arguments, then the store, the files and pages, the places in the
  pages, and the pool of contexts. If it succeeds, the server satisfies its invariant and holds no secret.
\<close>

section \<open>The arguments\<close>

definition DEFAULT_PORT :: u32 where "DEFAULT_PORT = 8443"

record main_args =
  port :: u32
  cert_path :: string
  key_path :: string
  use_tls :: bool

datatype parsed = Exit_success | Go main_args

definition default_args :: main_args where
  "default_args = \<lparr>port = DEFAULT_PORT, cert_path = ''cert.pem'', key_path = ''key.pem'', use_tls = True\<rparr>"

text \<open>\<^verbatim>\<open>atoi\<close>, undefined when the number is not an \<^verbatim>\<open>int\<close>.\<close>

definition atoi :: "string \<Rightarrow> int option" where
  "atoi s =
     (let s = dropWhile c_isspace s;
          negative = (s \<noteq> [] \<and> hd s = CHR ''-'');
          s = (if s \<noteq> [] \<and> hd s \<in> {CHR ''-'', CHR ''+''} then tl s else s);
          n = int (digits_value (takeWhile c_isdigit s));
          v = (if negative then - n else n)
      in if - (2 ^ 31) \<le> v \<and> v < 2 ^ 31 then Some v else None)"

function parse_args :: "string list \<Rightarrow> main_args \<Rightarrow> parsed option" where
  "parse_args [] a = Some (Go a)"
| "parse_args (x # xs) a =
     (if x = ''--port'' \<and> xs \<noteq> [] then do {
        v \<leftarrow> atoi (hd xs);
        parse_args (tl xs) (a\<lparr>port := ucast (of_int v :: 16 word)\<rparr>) }
      else if x = ''--cert'' \<and> xs \<noteq> [] then parse_args (tl xs) (a\<lparr>cert_path := hd xs\<rparr>)
      else if x = ''--key'' \<and> xs \<noteq> [] then parse_args (tl xs) (a\<lparr>key_path := hd xs\<rparr>)
      else if x = ''--http'' then parse_args xs (a\<lparr>use_tls := False\<rparr>)
      else if x = ''--version'' then Some Exit_success
      else if x = ''--help'' then Some Exit_success
      else parse_args xs a)"
  by pat_completeness auto
termination by (relation "measure (\<lambda>(xs, a). length xs)") (auto simp: less_Suc_eq_le)

text \<open>The port is taken modulo \<open>2\<^sup>1\<^sup>6\<close>: 70000 is port 4464. A number that is no \<^verbatim>\<open>int\<close> is undefined.\<close>

lemma port_argument:
  "parse_args [''--port'', dec_of_nat n] a = (if n < 2 ^ 31 then Some (Go (a\<lparr>port := of_nat (n mod 65536)\<rparr>)) else None)"
proof -
  have d: "hd (dec_of_nat n) \<noteq> CHR ''-''" "hd (dec_of_nat n) \<noteq> CHR ''+''" using dec_of_nat_digits(3) [of n] by auto
  have "atoi (dec_of_nat n) = (if n < 2 ^ 31 then Some (int n) else None)"
    using d dec_of_nat_digits(2) [of n] by (auto simp: atoi_def Let_def dec_parse)
  moreover have "ucast (of_int (int n) :: 16 word) = (of_nat (n mod 65536) :: u32)"
    by (simp add: word_unat_eq_iff unsigned_ucast_eq unsigned_of_nat take_bit_eq_mod)
  ultimately show ?thesis by (simp del: of_int_of_nat_eq)
qed


section \<open>Everything else\<close>

definition STORAGE_BLOBS_MAX :: u64 where "STORAGE_BLOBS_MAX = 2 * 131072"
definition REQUESTS_MAX :: u32 where "REQUESTS_MAX = 1024 * 8"
definition REPLACE_UPTIME_CH :: u8 where "REPLACE_UPTIME_CH = 0x55"
definition REPLACE_VERSION_CH :: u8 where "REPLACE_VERSION_CH = 0x56"

text \<open>What the system gives \<^verbatim>\<open>main\<close>, and what the build fixes: the languages, their translations, the instruction set.\<close>

record startup_env =
  storage_memory :: "addr option"
  storage_locked :: bool
  mhd_has_tls :: bool
  cert_file :: os_file
  key_file :: os_file
  tls_malloc :: "nat \<Rightarrow> u8 list option"
  asset_files :: "os_file list"
  assets_malloc_ok :: bool
  translated_malloc :: "u64 \<Rightarrow> u8 list option"
  ctx_memory :: "addr option"
  ctx_bytes :: "addr \<Rightarrow> u8"
  lang_COUNT :: nat
  lang_trs :: "nat \<Rightarrow> TranslationEntry list"
  env_simd :: simd
  env_now :: u32

text \<open>The asset with number \<open>j\<close> in language \<open>i\<close> is a part of the translated memory.\<close>

definition page_of :: "u8 list \<Rightarrow> (nat \<times> nat) list \<Rightarrow> nat \<Rightarrow> nat \<Rightarrow> nat \<Rightarrow> u8 list" where
  "page_of m ps assets_count i j = (case ps ! (i * assets_count + j) of (off, n) \<Rightarrow> take n (drop off m))"

text \<open>The loop over the languages that looks for the two places; the inner \<^const>\<open>None\<close> goes to the cleanup.\<close>

fun find_pointers ::
    "simd \<Rightarrow> (nat \<Rightarrow> u8 list) \<Rightarrow> nat list \<Rightarrow> (nat \<Rightarrow> nat) \<Rightarrow> (nat \<Rightarrow> nat) \<Rightarrow>
     ((nat \<Rightarrow> nat) \<times> (nat \<Rightarrow> nat)) option option" where
  "find_pointers simd page [] up vp = Some (Some (up, vp))"
| "find_pointers simd page (i # rest) up vp = do {
     u \<leftarrow> find_16 simd (page i) REPLACE_UPTIME_CH;
     case u of
       None \<Rightarrow> Some None
     | Some u \<Rightarrow> do {
         v \<leftarrow> find_16 simd (page i) REPLACE_VERSION_CH;
         case v of
           None \<Rightarrow> Some None
         | Some v \<Rightarrow> find_pointers simd page rest (up(i := u)) (vp(i := v)) } }"

text \<open>The TLS data, unless \<^verbatim>\<open>--http\<close> is given; \<^const>\<open>False\<close> goes to the cleanup.\<close>

definition main_tls :: "startup_env \<Rightarrow> bool \<Rightarrow> (bool \<times> tls_data) option" where
  "main_tls env tls =
     (if \<not> tls then Some (True, no_tls)
      else if \<not> mhd_has_tls env then Some (False, no_tls)
      else tls_data_load (tls_malloc env) (cert_file env) (key_file env))"

text \<open>The pages: loaded, copied for every language, translated, and the two places found in each.\<close>

definition main_pages ::
    "startup_env \<Rightarrow> ((nat \<Rightarrow> nat \<Rightarrow> u8 list) \<times> (nat \<Rightarrow> nat) \<times> (nat \<Rightarrow> nat)) option option" where
  "main_pages env = do {
     loaded \<leftarrow> assets_load (assets_malloc_ok env) (asset_files env);
     case loaded of
       None \<Rightarrow> Some None
     | Some (m, assets) \<Rightarrow> do {
         translated \<leftarrow> translate_assets (translated_malloc env) (lang_trs env) (lang_COUNT env) m assets;
         case translated of
           None \<Rightarrow> Some None
         | Some (m, ps) \<Rightarrow> do {
             let pgs = page_of m ps (length (asset_files env));
             ptrs \<leftarrow> find_pointers (env_simd env) (\<lambda>i. pgs i 0) [0..<lang_COUNT env] (\<lambda>_. 0) (\<lambda>_. 0);
             Some (map_option (Pair pgs) ptrs) } } }"

definition main_ctx_pool :: "startup_env \<Rightarrow> addr \<Rightarrow> (ctxalloc_t \<times> mem) option" where
  "main_ctx_pool env p =
     (let req_ctx_memory_size = unat (ctxa_footprint REQUESTS_MAX);
          m = (\<lambda>x. if p \<le> x \<and> x < p + req_ctx_memory_size then Some (ctx_bytes env x) else None)
      in ctxa_init m p REQUESTS_MAX)"

text \<open>
  \<^verbatim>\<open>main\<close> up to the start of the daemon: \<^verbatim>\<open>storage_init\<close> exits on its own, every later failure goes to the cleanup with the
  store and as much of the TLS data as there is.
\<close>

datatype start = Exit_failure | To_cleanup tls_data storage | Started tls_data server

definition main_init :: "startup_env \<Rightarrow> bool \<Rightarrow> start option" where
  "main_init env tls = do {
     st \<leftarrow> storage_init (storage_memory env) (storage_locked env) STORAGE_BLOBS_MAX;
     case st of
       Inl _ \<Rightarrow> Some Exit_failure
     | Inr st \<Rightarrow> do {
         (tls_ok, t) \<leftarrow> main_tls env tls;
         if \<not> tls_ok then Some (To_cleanup t st)
         else do {
           loaded \<leftarrow> main_pages env;
           case loaded of
             None \<Rightarrow> Some (To_cleanup t st)
           | Some (pgs, up, vp) \<Rightarrow>
               (case ctx_memory env of
                  None \<Rightarrow> Some (To_cleanup t st)
                | Some p \<Rightarrow> do {
                    pool \<leftarrow> main_ctx_pool env p;
                    Some (Started t \<lparr>store = st, ctx_pool = pool, ctxs = (\<lambda>_. zero_ctx), deb = deb_init,
                      pages = pgs, html_uptime_ptr = up, html_version_ptr = vp, start_time = env_now env\<rparr>) }) } } }"


section \<open>What a started server satisfies\<close>

lemma find_pointers_run:
  "find_pointers simd page gs up vp = Some (Some (up', vp')) \<Longrightarrow>
   (\<forall>i\<in>set gs. run16 (page i) REPLACE_UPTIME_CH (up' i) \<and> run16 (page i) REPLACE_VERSION_CH (vp' i)) \<and>
   (\<forall>i. i \<notin> set gs \<longrightarrow> up' i = up i \<and> vp' i = vp i)" if "distinct gs"
  using that
proof (induction gs arbitrary: up vp)
  case (Cons i gs)
  obtain u v where u: "first16 (page i) REPLACE_UPTIME_CH = Some u" "first16 (page i) REPLACE_VERSION_CH = Some v"
      "find_pointers simd page gs (up(i := u)) (vp(i := v)) = Some (Some (up', vp'))"
    using Cons.prems by (auto simp: find_16_run split: option.splits)
  then show ?case using Cons.IH [OF u(3)] Cons.prems(2) first16_Some by auto
qed simp

lemma run16_disjoint:
  assumes "run16 d ch u" "run16 d ch' v" "ch \<noteq> ch'"
  shows "u + 16 \<le> v \<or> v + 16 \<le> u"
proof (rule ccontr)
  assume "\<not> ?thesis"
  then have "max u v - u < 16" "max u v - v < 16" by auto
  then have "d ! max u v = ch" "d ! max u v = ch'" using assms unfolding run16_def
    by (metis add_diff_inverse_nat max.cobounded1 max.cobounded2 not_less)+
  then show False using assms(3) by simp
qed

lemma requests_max: "unat REQUESTS_MAX = 8192" "unat (ctxa_footprint REQUESTS_MAX) = 8192 * csz + 16"
proof -
  show "unat REQUESTS_MAX = 8192" by (simp add: REQUESTS_MAX_def)
  show "unat (ctxa_footprint REQUESTS_MAX) = 8192 * csz + 16"
    by (simp add: ctxa_footprint_def REQUESTS_MAX_def sizeof_ctxalloc_block_t_def sizeof_ctxalloc_t_def)
qed

text \<open>The memory that \<^verbatim>\<open>main\<close> gets is where memory can be.\<close>

definition env_ok :: "startup_env \<Rightarrow> bool" where
  "env_ok env \<longleftrightarrow> (\<forall>p. storage_memory env = Some p \<longrightarrow> allocated_ok p STORAGE_BLOBS_MAX) \<and>
     (\<forall>q. ctx_memory env = Some q \<longrightarrow> 0 < q \<and> q + 8192 * csz + 16 < 2 ^ 64)"

lemma blobs_max: "pow2_size STORAGE_BLOBS_MAX"
  by (rule pow2_sizeI [of 18]) (simp_all add: STORAGE_BLOBS_MAX_def)

lemma ctx_pool_ready:
  assumes "0 < q" "q + 8192 * csz + 16 < 2 ^ 64"
  obtains pool where "main_ctx_pool env q = Some pool" "ctx_inv q 8192 pool {}"
proof -
  let ?m = "\<lambda>x. if q \<le> x \<and> x < q + unat (ctxa_footprint REQUESTS_MAX) then Some (ctx_bytes env x) else None"
  have "0 < REQUESTS_MAX" by (simp add: REQUESTS_MAX_def)
  moreover have "q + unat REQUESTS_MAX * csz < 2 ^ 64" using assms(2) by (simp add: requests_max)
  moreover have "bytes q (unat REQUESTS_MAX * csz) \<subseteq> dom ?m" by (auto simp: requests_max)
  ultimately show ?thesis
  proof (rule ctxa_init_ok [OF assms(1)])
    fix a m' assume "ctxa_init ?m q REQUESTS_MAX = Some (a, m')" "ctx_inv q (unat REQUESTS_MAX) (a, m') {}"
    then show thesis using that unfolding main_ctx_pool_def Let_def requests_max(1) by blast
  qed
qed

lemma storage_ready:
  assumes "allocated_ok p STORAGE_BLOBS_MAX"
  obtains st where "storage_init (Some p) True STORAGE_BLOBS_MAX = Some (Inr st)" "storage_inv st {}"
    "blob_at st = Map.empty" "\<And>n. size_ok n \<Longrightarrow> room st n"
proof -
  obtain s where s: "storage_init (Some p) True STORAGE_BLOBS_MAX = Some (Inr s)" "storage_inv s {}"
      "tab_view (tab s) = Map.empty" "htable_free s = STORAGE_BLOBS_MAX"
      "\<And>i. i < 11 \<Longrightarrow> bucket_list (balloc_data s) (memory s) i = all_slots (arena s) i"
    by (rule init_ok [OF blobs_max assms]) (rule that)
  have "blob_at s = Map.empty" using s(3) by (simp add: blob_at_def fun_eq_iff)
  moreover have "room s n" if "size_ok n" for n
  proof -
    have "bucket_of n < 11" using bucket_of_ok(1) [OF that] .
    then have "bucket_list (balloc_data s) (memory s) (bucket_of n) \<noteq> []"
      using s(5) all_slots(3) [of "arena s" "bucket_of n"] by force
    then show ?thesis using s(4) by (simp add: room_def STORAGE_BLOBS_MAX_def)
  qed
  ultimately show ?thesis using that s(1,2) by blast
qed

lemma fresh_server_inv:
  assumes "storage_inv (store sv) {}" "\<And>k. \<not> unpublished_at (store sv) k" "ctx_inv base n (ctx_pool sv) {}"
    "deb sv = deb_init" "pages_ok langs sv"
  shows "server_inv langs base n sv Map.empty"
  using assms deb_init_inv by (simp add: server_inv_def requests_ok_def sends_def)

lemma main_init_parts:
  assumes "main_init env tls = Some (Started t sv)"
  obtains st pgs up vp q pool where "main_tls env tls = Some (True, t)"
    "storage_init (storage_memory env) (storage_locked env) STORAGE_BLOBS_MAX = Some (Inr st)"
    "main_pages env = Some (Some (pgs, up, vp))" "ctx_memory env = Some q" "main_ctx_pool env q = Some pool"
    "sv = \<lparr>store = st, ctx_pool = pool, ctxs = (\<lambda>_. zero_ctx), deb = deb_init, pages = pgs,
      html_uptime_ptr = up, html_version_ptr = vp, start_time = env_now env\<rparr>"
proof -
  obtain r where r: "storage_init (storage_memory env) (storage_locked env) STORAGE_BLOBS_MAX = Some r"
    using assms by (cases "storage_init (storage_memory env) (storage_locked env) STORAGE_BLOBS_MAX")
      (simp_all add: main_init_def)
  then obtain st where st: "r = Inr st" using assms by (cases r) (simp_all add: main_init_def)
  have tls: "main_tls env tls = Some (True, t)"
  proof (cases "main_tls env tls")
    case (Some x)
    then show ?thesis using assms r st
      by (cases x) (auto simp: main_init_def bind_eq_Some_conv split: if_split_asm option.split_asm prod.split_asm)
  qed (use assms r st in \<open>simp add: main_init_def\<close>)
  then obtain pg where pg: "main_pages env = Some (Some pg)"
    using assms r st by (cases "main_pages env") (auto simp: main_init_def split: option.split_asm)
  obtain pgs up vp where "pg = (pgs, up, vp)" by (cases pg) auto
  moreover obtain q where q: "ctx_memory env = Some q"
    using assms r st pg calculation tls
    by (cases "ctx_memory env") (simp_all add: main_init_def)
  moreover obtain pool where "main_ctx_pool env q = Some pool"
    using assms r st pg calculation tls
    by (cases "main_ctx_pool env q") (simp_all add: main_init_def)
  ultimately show ?thesis
    using that assms r st pg tls by (simp add: main_init_def)
qed

lemma main_init_ok:
  assumes "main_init env tls = Some (Started t sv)" "env_ok env"
  obtains base where "ctx_memory env = Some base" "server_inv (lang_COUNT env) base 8192 sv Map.empty"
    "blob_at (store sv) = Map.empty" "\<And>n. size_ok n \<Longrightarrow> room (store sv) n"
    "\<And>g. g < lang_COUNT env \<Longrightarrow> run16 (pages sv g 0) REPLACE_UPTIME_CH (html_uptime_ptr sv g)"
    "\<And>g. g < lang_COUNT env \<Longrightarrow> run16 (pages sv g 0) REPLACE_VERSION_CH (html_version_ptr sv g)"
proof -
  obtain st pgs up vp q pool where
      st: "storage_init (storage_memory env) (storage_locked env) STORAGE_BLOBS_MAX = Some (Inr st)" and
      pgs: "main_pages env = Some (Some (pgs, up, vp))" and
      q: "ctx_memory env = Some q" "main_ctx_pool env q = Some pool" and
      sv: "sv = \<lparr>store = st, ctx_pool = pool, ctxs = (\<lambda>_. zero_ctx), deb = deb_init, pages = pgs,
        html_uptime_ptr = up, html_version_ptr = vp, start_time = env_now env\<rparr>"
    by (rule main_init_parts [OF assms(1)]) (rule that)
  obtain p where p: "storage_memory env = Some p" "storage_locked env"
    using st by (auto simp: storage_init_def split: option.splits if_splits)
  have "allocated_ok p STORAGE_BLOBS_MAX" using assms(2) p(1) by (simp add: env_ok_def)
  then obtain st1 where st1: "storage_init (Some p) True STORAGE_BLOBS_MAX = Some (Inr st1)" "storage_inv st1 {}"
      "blob_at st1 = Map.empty" "\<And>n. size_ok n \<Longrightarrow> room st1 n"
    by (rule storage_ready) (rule that)
  have st': "st1 = st" using st p st1(1) by simp
  have pool: "ctx_inv q 8192 pool {}"
    by (rule ctx_pool_ready [of q env]) (use q assms(2) in \<open>auto simp: env_ok_def\<close>)
  have ptrs: "run16 (pgs g 0) REPLACE_UPTIME_CH (up g) \<and> run16 (pgs g 0) REPLACE_VERSION_CH (vp g)"
    if g: "g < lang_COUNT env" for g
  proof -
    have "find_pointers (env_simd env) (\<lambda>i. pgs i 0) [0..<lang_COUNT env] (\<lambda>_. 0) (\<lambda>_. 0) = Some (Some (up, vp))"
      using pgs by (auto simp: main_pages_def bind_eq_Some_conv Let_def split: option.split_asm)
    from find_pointers_run [OF _ this] g show ?thesis by simp
  qed
  have "pages_ok (lang_COUNT env) sv" using ptrs by (auto simp: pages_ok_def sv run16_def)
  then have "server_inv (lang_COUNT env) q 8192 sv Map.empty"
    by (intro fresh_server_inv) (use st1 st' pool in \<open>simp_all add: sv unpublished_at_def\<close>)
  then show ?thesis using that q(1) st1(3,4) st' ptrs by (simp add: sv)
qed

text \<open>
  C34: if \<^verbatim>\<open>main\<close> gets as far as starting the daemon, the server satisfies its invariant, with no request and no secret, and in
  every language the places for the uptime and the version are found in the page and do not overlap.
\<close>

theorem main_init_inv:
  assumes "main_init env tls = Some (Started t sv)" "env_ok env"
  shows "(\<exists>base. ctx_memory env = Some base \<and> server_inv (lang_COUNT env) base 8192 sv Map.empty) \<and>
    secrets (store sv) = Map.empty \<and>
    (\<forall>g<lang_COUNT env. run16 (pages sv g 0) REPLACE_UPTIME_CH (html_uptime_ptr sv g) \<and>
       run16 (pages sv g 0) REPLACE_VERSION_CH (html_version_ptr sv g) \<and>
       (html_uptime_ptr sv g + 16 \<le> html_version_ptr sv g \<or> html_version_ptr sv g + 16 \<le> html_uptime_ptr sv g))"
proof -
  obtain base where b: "ctx_memory env = Some base" "server_inv (lang_COUNT env) base 8192 sv Map.empty"
      "blob_at (store sv) = Map.empty"
      "\<And>g. g < lang_COUNT env \<Longrightarrow> run16 (pages sv g 0) REPLACE_UPTIME_CH (html_uptime_ptr sv g)"
      "\<And>g. g < lang_COUNT env \<Longrightarrow> run16 (pages sv g 0) REPLACE_VERSION_CH (html_version_ptr sv g)"
    by (rule main_init_ok [OF assms]) (rule that)
  have "REPLACE_UPTIME_CH \<noteq> REPLACE_VERSION_CH"
    by (simp add: REPLACE_UPTIME_CH_def REPLACE_VERSION_CH_def)
  then show ?thesis
    using b run16_disjoint by (simp add: secrets_def fun_eq_iff) blast
qed


section \<open>The start succeeds\<close>

lemma find_pointers_found:
  "(\<And>i. i \<in> set gs \<Longrightarrow> (\<exists>u. run16 (page i) REPLACE_UPTIME_CH u) \<and> (\<exists>v. run16 (page i) REPLACE_VERSION_CH v)) \<Longrightarrow>
   \<exists>r. find_pointers simd page gs up vp = Some (Some r)"
proof (induction gs arbitrary: up vp)
  case (Cons i gs)
  then obtain u v where "first16 (page i) REPLACE_UPTIME_CH = Some u" "first16 (page i) REPLACE_VERSION_CH = Some v"
    using first16_None by (metis list.set_intros(1) not_None_eq)
  then show ?case using Cons by (simp add: find_16_run)
qed simp

lemma main_start_ok:
  assumes "storage_memory env = Some p" "storage_locked env" "ctx_memory env = Some q" "env_ok env"
    and "main_tls env tls = Some (True, t)" "assets_malloc_ok env" "list_all2 has_contents (asset_files env) css" "css \<noteq> []"
    and "list_all2 (template_at (concat css)) (translation_jobs (lang_trs env) (lang_COUNT env) (places 0 css)) temps"
    and "outs = map (\<lambda>(pre, segs). pre @ render_values segs) temps" "length (concat outs) < 2 ^ 64"
    and "translated_malloc env = (\<lambda>n. Some (malloc n))" "\<And>n. length (malloc n) = unat n"
    and "\<And>g. g < lang_COUNT env \<Longrightarrow> (\<exists>u. run16 (outs ! (g * length css)) REPLACE_UPTIME_CH u) \<and>
      (\<exists>v. run16 (outs ! (g * length css)) REPLACE_VERSION_CH v)"
  shows "\<exists>sv. main_init env tls = Some (Started t sv) \<and>
    (\<forall>g<lang_COUNT env. \<forall>j<length css. pages sv g j = outs ! (g * length css + j))"
proof -
  let ?n = "length (asset_files env)"
  let ?pgs = "page_of (concat outs) (places 0 outs) ?n"
  have n: "?n = length css" using assms(7) by (rule list_all2_lengthD)
  have "length outs = length (translation_jobs (lang_trs env) (lang_COUNT env) (places 0 css))"
    using list_all2_lengthD [OF assms(9)] assms(10) by simp
  also have "\<dots> = lang_COUNT env * length css"
    by (simp add: translation_jobs_def length_concat o_def sum_list_triv)
  finally have len: "length outs = lang_COUNT env * length css" .
  have pgs: "?pgs g j = outs ! (g * length css + j)" if "g < lang_COUNT env" "j < length css" for g j
  proof -
    have "g * length css + j < Suc g * length css" using that by simp
    also have "\<dots> \<le> length outs" unfolding len using that(1) by (intro mult_right_mono) auto
    finally show ?thesis using places_nth [of "g * length css + j" outs] by (simp add: page_of_def n)
  qed
  have "(\<exists>u. run16 (?pgs g 0) REPLACE_UPTIME_CH u) \<and> (\<exists>v. run16 (?pgs g 0) REPLACE_VERSION_CH v)"
    if g: "g < lang_COUNT env" for g
    using pgs [OF g, of 0] assms(8) assms(14) [OF g] by simp
  then obtain up vp where "find_pointers (env_simd env) (\<lambda>i. ?pgs i 0) [0..<lang_COUNT env] (\<lambda>_. 0) (\<lambda>_. 0) = Some (Some (up, vp))"
    using find_pointers_found [of "[0..<lang_COUNT env]" "\<lambda>i. ?pgs i 0"] by force
  then have "main_pages env = Some (Some (?pgs, up, vp))"
    using assets_load_ok [OF assms(7)] translate_assets_ok [OF assms(9-11,13)] assms(6,12)
    by (simp add: main_pages_def Let_def)
  moreover obtain st where "storage_init (Some p) True STORAGE_BLOBS_MAX = Some (Inr st)"
    using storage_ready [of p] assms(1,4) unfolding env_ok_def by metis
  moreover obtain pool where "main_ctx_pool env q = Some pool"
    using ctx_pool_ready [of q env] assms(3,4) unfolding env_ok_def by metis
  ultimately show ?thesis using assms(1-3,5) pgs by (simp add: main_init_def)
qed


text \<open>A server with one page, which holds nothing but the two places, in one language without keys.\<close>

definition tiny_page :: "u8 list" where
  "tiny_page = replicate 16 REPLACE_UPTIME_CH @ replicate 16 REPLACE_VERSION_CH"

definition tiny_env :: startup_env where
  "tiny_env = \<lparr>storage_memory = Some 4096, storage_locked = True, mhd_has_tls = False,
     cert_file = undefined, key_file = undefined, tls_malloc = (\<lambda>_. None),
     asset_files = [\<lparr>can_open = True, fstat_ok = True, is_regular = True, st_size = 32, reads = [Some tiny_page]\<rparr>],
     assets_malloc_ok = True, translated_malloc = (\<lambda>n. Some (replicate (unat n) 0)),
     ctx_memory = Some (2 ^ 40), ctx_bytes = (\<lambda>_. 7), lang_COUNT = 1, lang_trs = (\<lambda>_. []),
     env_simd = X86_avx2, env_now = 0\<rparr>"

lemma tiny_page_simps:
  "length tiny_page = 32" "tiny_page \<noteq> []" "plain tiny_page"
  "run16 tiny_page REPLACE_UPTIME_CH 0" "run16 tiny_page REPLACE_VERSION_CH 16"
proof -
  show "length tiny_page = 32" "tiny_page \<noteq> []" by (simp_all add: tiny_page_def)
  show "plain tiny_page"
    by (simp add: tiny_page_def plain_def TR_KEY_MARKER_def REPLACE_UPTIME_CH_def REPLACE_VERSION_CH_def)
  show "run16 tiny_page REPLACE_UPTIME_CH 0" "run16 tiny_page REPLACE_VERSION_CH 16"
    by (simp_all add: tiny_page_def run16_def nth_append)
qed

lemma tiny_env_ok: "env_ok tiny_env" "main_tls tiny_env False = Some (True, no_tls)"
  "list_all2 has_contents (asset_files tiny_env) [tiny_page]"
  "list_all2 (template_at (concat [tiny_page]))
     (translation_jobs (lang_trs tiny_env) (lang_COUNT tiny_env) (places 0 [tiny_page])) [(tiny_page, [])]"
proof -
  show "env_ok tiny_env"
    by (simp add: env_ok_def tiny_env_def allocated_ok_def STORAGE_BLOBS_MAX_def bfootprint_eq sizeof_ctxalloc_block_t_def)
  show "main_tls tiny_env False = Some (True, no_tls)" by (simp add: main_tls_def)
  show "list_all2 has_contents (asset_files tiny_env) [tiny_page]"
    using tiny_page_simps(1,2) by (simp add: tiny_env_def has_contents_def exI [of _ "[tiny_page]"])
  show "list_all2 (template_at (concat [tiny_page]))
      (translation_jobs (lang_trs tiny_env) (lang_COUNT tiny_env) (places 0 [tiny_page])) [(tiny_page, [])]"
    using tiny_page_simps(1,3)
    by (simp add: tiny_env_def translation_jobs_def template_at_def keys_ok_def render_keys_def)
qed

lemma tiny_outs: "map (\<lambda>(pre, segs). pre @ render_values segs) [(tiny_page, [])] = [tiny_page]"
  by (simp add: render_values_def)


lemma tiny_started: obtains sv where "main_init tiny_env False = Some (Started no_tls sv)"
proof -
  have "\<exists>sv. main_init tiny_env False = Some (Started no_tls sv) \<and>
      (\<forall>g<lang_COUNT tiny_env. \<forall>j<length [tiny_page]. pages sv g j = [tiny_page] ! (g * length [tiny_page] + j))"
    by (rule main_start_ok [where temps = "[(tiny_page, [])]" and malloc = "\<lambda>n. replicate (unat n) 0",
          OF _ _ _ tiny_env_ok(1,2) _ tiny_env_ok(3) _ tiny_env_ok(4) tiny_outs [symmetric]])
      (use tiny_page_simps in \<open>auto simp: tiny_env_def\<close>)
  then show ?thesis using that by blast
qed

theorem main_init_inv_witness:
  "\<exists>sv. main_init tiny_env False = Some (Started no_tls sv) \<and> server_inv 1 (2 ^ 40) 8192 sv Map.empty"
proof -
  obtain sv where "main_init tiny_env False = Some (Started no_tls sv)" by (rule tiny_started)
  from main_init_inv [OF this tiny_env_ok(1)] this show ?thesis by (auto simp: tiny_env_def)
qed

end
