(* ===== verification/Guarantees.thy ===== *)
theory Guarantees
  imports Startup
begin

text \<open>
  What the running server guarantees: from the start on, over every history of requests, ends of requests and
  runs of the reaper.
\<close>

section \<open>Histories of the service\<close>

definition service :: "startup_env \<Rightarrow> config \<Rightarrow> event list \<Rightarrow> server \<times> requests \<Rightarrow> bool" where
  "service env cfg es s \<longleftrightarrow> env_ok env \<and>
     (\<exists>tls t sv0. main_init env tls = Some (Started t sv0) \<and> run cfg (lang_COUNT env) (sv0, Map.empty) es s)"

lemma service_inv:
  assumes "service env cfg es (sv, L)"
  obtains base where "ctx_memory env = Some base" "server_inv (lang_COUNT env) base 8192 sv L"
    "secrets_run Map.empty es (secrets (store sv))"
proof -
  obtain tls t sv0 where s: "env_ok env" "main_init env tls = Some (Started t sv0)"
      "run cfg (lang_COUNT env) (sv0, Map.empty) es (sv, L)"
    using assms by (auto simp: service_def)
  obtain base where b: "ctx_memory env = Some base" "server_inv (lang_COUNT env) base 8192 sv0 Map.empty"
      "blob_at (store sv0) = Map.empty"
    by (rule main_init_ok [OF s(2,1)]) (rule that)
  have "secrets (store sv0) = Map.empty" using b(3) by (simp add: secrets_def fun_eq_iff)
  then show ?thesis
    using that [OF b(1)] run_inv [OF s(3)] run_refines [OF s(3)] b(2) by simp
qed


text \<open>
  C1: the server refines the map of secrets: every history of the service is a history of the abstract map,
  in which a secret appears only by a post to an id that has none, disappears only by a fetch that returns it or by the
  reaper after its time, and nothing else changes the map.
\<close>

theorem service_refines:
  assumes "service env cfg es (sv, L)"
  shows "secrets_run Map.empty es (secrets (store sv))"
  by (rule service_inv [OF assms])

text \<open>
  C2: what a client fetches is what another one posted under this id, byte for byte; between the two nobody else has
  fetched or posted it and the reaper has not passed its time. So one upload is delivered at most once.
\<close>

theorem delivered_once:
  assumes "service env cfg (es @ Fetched k bs # es') s"
  shows "\<exists>es1 es2 t. es = es1 @ Posted k bs t # es2 \<and> undisturbed k t es2"
proof -
  obtain sv L where s: "s = (sv, L)" by (cases s)
  obtain base where "secrets_run Map.empty (es @ Fetched k bs # es') (secrets (store sv))"
    by (rule service_inv [OF assms [unfolded s]]) (rule that)
  then show ?thesis by (rule fetched_origin) simp
qed

text \<open>
  C5: nothing is left behind: once every request has ended, each block of the arena that is not free belongs to a
  published secret; aborted and half-finished uploads are gone and all contexts are back in the pool.
\<close>

theorem nothing_left_behind:
  assumes "service env cfg es (sv, Map.empty)"
  shows "storage_inv (store sv) {} \<and> (\<forall>k. \<not> unpublished_at (store sv) k) \<and>
    secrets (store sv) = blob_at (store sv) \<and> unat (available (fst (ctx_pool sv))) = 8192"
proof -
  obtain base where "server_inv (lang_COUNT env) base 8192 sv Map.empty"
    by (rule service_inv [OF assms]) (rule that)
  note d = server_invD [OF this]
  have s: "storage_inv (store sv) {}" using d(1) by (simp add: sends_def)
  have u: "\<not> unpublished_at (store sv) k" for k using requests_okD(4) [OF d(5), of k] by auto
  have "secrets (store sv) k = blob_at (store sv) k" for k
    using u [of k] by (auto simp: secrets_def unpublished_at_def split: option.splits)
  moreover have "unat (available (fst (ctx_pool sv))) = 8192"
  proof -
    obtain al m where p: "ctx_pool sv = (al, m)" by (cases "ctx_pool sv")
    have i: "ctx_inv base 8192 (al, m) {}" using d(2) p by simp
    have "card (set (ctx_free_list al m)) = 8192" using ctx_invD(9) [OF i] ctx_slots_card [of base 8192] by simp
    then show ?thesis using ctx_invD(6,7) [OF i] distinct_card p by fastforce
  qed
  ultimately show ?thesis using s u by (simp add: fun_eq_iff)
qed



section \<open>An example\<close>

text \<open>The server with one page, in a build without the debouncer, and two requests for the same blob.\<close>

definition tiny_cfg :: config where
  "tiny_cfg = \<lparr>use_debouncer = False, use_tailscale = False, assembled_html = False, lang_from_str = (\<lambda>_. 0),
     version_string = ''1'', inet_pton4 = (\<lambda>_. None), inet_pton6 = (\<lambda>_. None), fmt_hours = (\<lambda>_. ''0.0'')\<rparr>"

definition tiny_call :: "string \<Rightarrow> string option \<Rightarrow> mhd_call" where
  "tiny_call m len = \<lparr>url = ''/blob/01000000000000000000000000000000'', meth = m, upload_data = [], con_cls = None,
     hdr_content_length = len, hdr_accept_language = None, hdr_origin = None, hdr_forwarded_for = None,
     client_addr = None, now_s = 100, now_tv_sec = 100, now_tv_nsec = 0, create_ok = True, queue_ok = True\<rparr>"

definition tiny_key :: htable_key_t where
  "tiny_key = key_of_bytes [1, 0, 0, 0, 0, 0, 0, 0, 0, 0, 0, 0, 0, 0, 0, 0]"

definition tiny_secret :: "u8 list" where
  "tiny_secret = replicate 50 7"

lemma tiny_call_ok: "blob_request (tiny_call m len) tiny_key" "call_in tiny_cfg 1 (tiny_call m len)"
proof -
  have "hex_decode ''01000000000000000000000000000000'' =
      Some [1, 0, 0, 0, 0, 0, 0, 0, 0, 0, 0, 0, 0, 0, 0, 0]" by code_simp
  moreover have "\<not> key_is_null tiny_key"
    by (simp add: key_is_null_iff tiny_key_def key_of_bytes_def null_key_def)
  ultimately show "blob_request (tiny_call m len) tiny_key"
    by (simp add: blob_request_def tiny_call_def ID_LENGTH_def tiny_key_def)
  show "call_in tiny_cfg 1 (tiny_call m len)"
    by (simp add: call_in_def tiny_call_def cstr_def NUL_def request_language_def)
qed

lemma tiny_fields:
  "meth (tiny_call m len) = m" "hdr_content_length (tiny_call m len) = len" "create_ok (tiny_call m len)"
  "queue_ok (tiny_call m len)" "upload_data (tiny_call m len) = []" "now_s (tiny_call m len) = 100"
  "\<not> use_debouncer tiny_cfg"
  by (simp_all add: tiny_call_def tiny_cfg_def)

lemma tiny_exchange:
  obtains sv L sv1 L1 sv2 L2 where "service tiny_env tiny_cfg [] (sv, L)" "L = Map.empty" "blob_at (store sv) = Map.empty"
    "room (store sv) 50"
    "service tiny_env tiny_cfg [Quiet, Quiet, Posted tiny_key tiny_secret 3700, Quiet, Quiet] (sv2, L2)"
    "service tiny_env tiny_cfg [Quiet, Quiet, Posted tiny_key tiny_secret 3700, Quiet, Quiet, Fetched tiny_key tiny_secret] (sv1, L1)"
proof -
  obtain sv where sv: "main_init tiny_env False = Some (Started no_tls sv)" by (rule tiny_started)
  obtain base where b: "server_inv (lang_COUNT tiny_env) base 8192 sv Map.empty"
      "blob_at (store sv) = Map.empty" "\<And>n. size_ok n \<Longrightarrow> room (store sv) n"
    by (rule main_init_ok [OF sv tiny_env_ok(1)]) (rule that)
  have langs: "lang_COUNT tiny_env = 1" by (simp add: tiny_env_def)
  have r: "room (store sv) 50" by (rule b(3)) (simp add: size_ok_def)
  have len: "length tiny_secret = 50" "dec_of_nat 50 = ''50''"
    by (simp_all add: tiny_secret_def) code_simp
  have free: "dom (Map.empty :: requests) \<noteq> ctx_slots base 8192" using ctx_slots_card [of base 8192] by auto
  have ttl: "(100 :: u32) + BLOB_TTL_S = 3700" by (simp add: BLOB_TTL_S_def)
  have one: "concat [tiny_secret] = tiny_secret" "[] \<notin> set [tiny_secret]" by (simp_all add: tiny_secret_def)
  have ev: "exchange_events tiny_key [tiny_secret] t = [Quiet, Quiet, Posted tiny_key tiny_secret t, Quiet, Quiet]" for t
    by (simp add: exchange_events_def)
  obtain sv1 L1 sv2 L2 where r2: "run tiny_cfg (lang_COUNT tiny_env) (sv, Map.empty)
      (exchange_events tiny_key [tiny_secret] (now_s (tiny_call ''POST'' (Some ''50'')) + BLOB_TTL_S)) (sv2, L2)"
    and r1: "run tiny_cfg (lang_COUNT tiny_env) (sv, Map.empty)
      (exchange_events tiny_key [tiny_secret] (now_s (tiny_call ''POST'' (Some ''50'')) + BLOB_TTL_S) @
       [Fetched tiny_key tiny_secret]) (sv1, L1)"
  proof (rule exchange_run [where p = "tiny_call ''POST'' (Some ''50'')" and g = "tiny_call ''GET'' None" and
        k = tiny_key and ds = "[tiny_secret]", OF b(1) tiny_fields(7) free])
  qed (simp_all only: tiny_call_ok langs tiny_fields b(2) one len, simp_all add: r)
  have "service tiny_env tiny_cfg [] (sv, Map.empty)"
    unfolding service_def using sv tiny_env_ok(1) run.start by blast
  moreover have "service tiny_env tiny_cfg
      [Quiet, Quiet, Posted tiny_key tiny_secret 3700, Quiet, Quiet, Fetched tiny_key tiny_secret] (sv1, L1)"
    unfolding service_def using sv tiny_env_ok(1) r1 [unfolded tiny_fields ttl ev, simplified] by blast
  moreover have "service tiny_env tiny_cfg [Quiet, Quiet, Posted tiny_key tiny_secret 3700, Quiet, Quiet] (sv2, L2)"
    unfolding service_def using sv tiny_env_ok(1) r2 [unfolded tiny_fields ttl ev] by blast
  ultimately show ?thesis using that b(2) r by blast
qed


theorem service_refines_witness:
  "\<exists>sv :: server. secrets_run Map.empty [Quiet, Quiet, Posted tiny_key tiny_secret 3700, Quiet, Quiet, Fetched tiny_key tiny_secret]
    (secrets (store sv))"
proof -
  obtain sv L where "service tiny_env tiny_cfg
      [Quiet, Quiet, Posted tiny_key tiny_secret 3700, Quiet, Quiet, Fetched tiny_key tiny_secret] (sv, L)"
    by (rule tiny_exchange) (rule that)
  from service_refines [OF this] show ?thesis by blast
qed

theorem delivered_once_witness:
  "\<exists>es1 es2 t. [Quiet, Quiet, Posted tiny_key tiny_secret 3700, Quiet, Quiet] = es1 @ Posted tiny_key tiny_secret t # es2 \<and>
    undisturbed tiny_key t es2"
proof -
  obtain sv L where "service tiny_env tiny_cfg
      ([Quiet, Quiet, Posted tiny_key tiny_secret 3700, Quiet, Quiet] @ Fetched tiny_key tiny_secret # []) (sv, L)"
    by (rule tiny_exchange) (simp add: that)
  then show ?thesis by (rule delivered_once)
qed

theorem nothing_left_behind_witness:
  "\<exists>sv. service tiny_env tiny_cfg [] (sv, Map.empty) \<and> unat (available (fst (ctx_pool sv))) = 8192"
proof -
  obtain sv where s: "service tiny_env tiny_cfg [] (sv, Map.empty)" by (rule tiny_exchange) simp
  then show ?thesis using nothing_left_behind [OF s] by blast
qed


end
