(* ===== verification/Shutdown.thy ===== *)
theory Shutdown
  imports Guarantees
begin

text \<open>
  The main loop of the server and the end of \<^verbatim>\<open>main\<close>: every history of the loop is a history of the service, and
  whatever ends the loop, the cleanup runs through and erases all that is secret.
\<close>

section \<open>The main loop\<close>

definition EPOLL_EVENTS_MAX :: nat where "EPOLL_EVENTS_MAX = 2"

text \<open>What the descriptors of the events are compared with.\<close>

datatype main_fd = mhd_epfd | reaper_tfd

text \<open>\<^verbatim>\<open>MHD_run\<close> calls the handler and \<^verbatim>\<open>req_done\<close> any number of times; the reaper is not its business.\<close>

inductive mhd_run :: "config \<Rightarrow> nat \<Rightarrow> server \<times> requests \<Rightarrow> event list \<Rightarrow> server \<times> requests \<Rightarrow> bool"
  for cfg langs s
where
  idle: "mhd_run cfg langs s [] s"
| callback: "mhd_run cfg langs s es s' \<Longrightarrow> step cfg langs s' e s'' \<Longrightarrow> (\<forall>now. e \<noteq> Reaped now) \<Longrightarrow>
    mhd_run cfg langs s (es @ [e]) s''"

text \<open>The loop over the events; \<^const>\<open>False\<close> when \<^verbatim>\<open>MHD_run\<close> fails and the code goes to the cleanup.\<close>

inductive serve_events ::
    "config \<Rightarrow> nat \<Rightarrow> server \<times> requests \<Rightarrow> main_fd list \<Rightarrow> event list \<Rightarrow> bool \<Rightarrow> server \<times> requests \<Rightarrow> bool"
  for cfg langs
where
  served: "serve_events cfg langs s [] [] True s"
| mhd: "mhd_run cfg langs s es s' \<Longrightarrow> serve_events cfg langs s' fds es' ok s'' \<Longrightarrow>
    serve_events cfg langs s (mhd_epfd # fds) (es @ es') ok s''"
| mhd_failed: "mhd_run cfg langs s es s' \<Longrightarrow> serve_events cfg langs s (mhd_epfd # fds) es False s'"
| timer: "step cfg langs s (Reaped now) s' \<Longrightarrow> serve_events cfg langs s' fds es ok s'' \<Longrightarrow>
    serve_events cfg langs s (reaper_tfd # fds) (Reaped now # es) ok s''"

text \<open>
  The loop itself, with \<^const>\<open>True\<close> for \<^verbatim>\<open>EXIT_SUCCESS\<close>. \<open>events\<close> with an empty list is a call of \<^verbatim>\<open>epoll_wait\<close> that
  a signal interrupts; \<open>timeout\<close> is one that returns 0.
\<close>

inductive main_loop ::
    "config \<Rightarrow> nat \<Rightarrow> server \<times> requests \<Rightarrow> event list \<Rightarrow> bool \<Rightarrow> server \<times> requests \<Rightarrow> bool"
  for cfg langs
where
  stop: "main_loop cfg langs s [] True s"
| events: "length fds \<le> EPOLL_EVENTS_MAX \<Longrightarrow> serve_events cfg langs s fds es True s' \<Longrightarrow>
    main_loop cfg langs s' es' ok s'' \<Longrightarrow> main_loop cfg langs s (es @ es') ok s''"
| events_failed: "length fds \<le> EPOLL_EVENTS_MAX \<Longrightarrow> serve_events cfg langs s fds es False s' \<Longrightarrow>
    main_loop cfg langs s es False s'"
| timeout: "mhd_run cfg langs s es s' \<Longrightarrow> main_loop cfg langs s' es' ok s'' \<Longrightarrow>
    main_loop cfg langs s (es @ es') ok s''"
| timeout_failed: "mhd_run cfg langs s es s' \<Longrightarrow> main_loop cfg langs s es False s'"


section \<open>The cleanup\<close>

text \<open>\<^verbatim>\<open>MHD_stop_daemon\<close> ends every request, in an order of its own, with \<^verbatim>\<open>req_done\<close>.\<close>

fun stop_daemon :: "addr list \<Rightarrow> server \<Rightarrow> server option" where
  "stop_daemon [] sv = Some sv"
| "stop_daemon (a # rest) sv = do { sv \<leftarrow> req_done (Some a) sv; stop_daemon rest sv }"

text \<open>
  From the label \<^verbatim>\<open>cleanup\<close> on. The contexts, which the allocator sees as bytes and the handler as \<^typ>\<open>req_ctx_t\<close>, are
  erased in both views; the counters of the pool are behind them in the same memory.
\<close>

definition main_cleanup ::
    "addr list option \<Rightarrow> tls_data \<Rightarrow> addr option \<Rightarrow> server \<Rightarrow> (tls_data \<times> server) option" where
  "main_cleanup d tls req_ctx_memory sv = do {
     sv \<leftarrow> (case d of None \<Rightarrow> Some sv | Some open_requests \<Rightarrow> stop_daemon open_requests sv);
     let tls = tls_data_zero tls;
     (_, st) \<leftarrow> storage_zero (store sv);
     let sv = sv\<lparr>store := st\<rparr>;
     case req_ctx_memory of
       None \<Rightarrow> Some (tls, sv)
     | Some p \<Rightarrow> do {
         m \<leftarrow> secure_zero (snd (ctx_pool sv)) p (unat (ctxa_footprint REQUESTS_MAX) - sizeof_ctxalloc_t);
         Some (tls, sv\<lparr>ctx_pool := (\<lparr>free_ctxs = 0, capacity = 0, available = 0\<rparr>, m), ctxs := (\<lambda>_. zero_ctx)\<rparr>) } }"


text \<open>
  The ways \<^verbatim>\<open>main\<close> gets to the cleanup, with the exit code, the requests the daemon has open (if there is a daemon), the TLS data,
  the memory of the contexts, and the server. A start that fails leaves the other static variables zero or filled with parts
  of pages, which the cleanup does not touch. \<open>no_daemon\<close>: \<^verbatim>\<open>MHD_start_daemon\<close> fails; \<open>no_loop\<close>: the daemon or \<^verbatim>\<open>epoll\<close> gives no
  descriptor. \<^verbatim>\<open>--help\<close>, \<^verbatim>\<open>--version\<close> and a failed \<^verbatim>\<open>storage_init\<close> do not get there; there is nothing to erase.
\<close>

definition before_contexts :: "storage \<Rightarrow> server" where
  "before_contexts st = \<lparr>store = st, ctx_pool = (\<lparr>free_ctxs = 0, capacity = 0, available = 0\<rparr>, Map.empty),
     ctxs = (\<lambda>_. zero_ctx), deb = deb_init, pages = (\<lambda>_ _. []), html_uptime_ptr = (\<lambda>_. 0),
     html_version_ptr = (\<lambda>_. 0), start_time = 0\<rparr>"

inductive main_stops :: "startup_env \<Rightarrow> config \<Rightarrow> string list \<Rightarrow> event list \<Rightarrow> bool \<Rightarrow>
    addr list option \<Rightarrow> tls_data \<Rightarrow> addr option \<Rightarrow> server \<Rightarrow> bool"
  for env cfg args
where
  start_failed: "parse_args args default_args = Some (Go a) \<Longrightarrow> main_init env (use_tls a) = Some (To_cleanup t st) \<Longrightarrow>
    main_stops env cfg args [] False None t None (before_contexts st)"
| no_daemon: "parse_args args default_args = Some (Go a) \<Longrightarrow> main_init env (use_tls a) = Some (Started t sv) \<Longrightarrow>
    main_stops env cfg args [] False None t (ctx_memory env) sv"
| no_loop: "parse_args args default_args = Some (Go a) \<Longrightarrow> main_init env (use_tls a) = Some (Started t sv) \<Longrightarrow>
    main_stops env cfg args [] False (Some []) t (ctx_memory env) sv"
| loop_left: "parse_args args default_args = Some (Go a) \<Longrightarrow> main_init env (use_tls a) = Some (Started t sv0) \<Longrightarrow>
    main_loop cfg (lang_COUNT env) (sv0, Map.empty) es ok (sv, L) \<Longrightarrow>
    distinct open_requests \<Longrightarrow> set open_requests = dom L \<Longrightarrow>
    main_stops env cfg args es ok (Some open_requests) t (ctx_memory env) sv"


section \<open>The loop runs the service\<close>

lemma run_single: "step cfg langs s e s' \<Longrightarrow> run cfg langs s [e] s'"
  using run.more [OF run.start, of cfg langs s e s'] by simp

lemma mhd_run_run: "mhd_run cfg langs s es s' \<Longrightarrow> run cfg langs s es s'"
  by (induction rule: mhd_run.induct) (auto intro: run.intros)

lemma serve_events_run: "serve_events cfg langs s fds es ok s' \<Longrightarrow> run cfg langs s es s'"
proof (induction rule: serve_events.induct)
  case (timer s now s' fds es ok s'')
  then show ?case using run_append [OF run_single] by fastforce
qed (auto intro: run.start mhd_run_run run_append)

lemma main_loop_run: "main_loop cfg langs s es ok s' \<Longrightarrow> run cfg langs s es s'"
  by (induction rule: main_loop.induct) (auto intro: run.start mhd_run_run serve_events_run run_append)

text \<open>Ending all requests is part of a history, too.\<close>

lemma stop_daemon_ok:
  "server_inv langs base n sv L \<Longrightarrow> distinct open_requests \<Longrightarrow> set open_requests = dom L \<Longrightarrow>
   \<exists>sv'. stop_daemon open_requests sv = Some sv' \<and> server_inv langs base n sv' Map.empty \<and>
     secrets (store sv') = secrets (store sv)"
proof (induction open_requests arbitrary: sv L)
  case Nil
  then have "L = Map.empty" by auto
  then show ?case using Nil by simp
next
  case (Cons a as)
  then have "a \<in> dom L" by auto
  then obtain p up where "L a = Some (p, up)" by auto
  from done_ok [OF Cons.prems(1) this] obtain sv1 where sv1: "req_done (Some a) sv = Some sv1"
      "server_inv langs base n sv1 (L(a := None))" "secrets (store sv1) = secrets (store sv)" by metis
  have "set as = dom (L(a := None))" "distinct as" using Cons.prems(2,3) by auto
  from Cons.IH [OF sv1(2) this(2,1)] show ?case using sv1(1,3) by simp
qed

lemma failed_start_store:
  assumes "main_init env tls = Some (To_cleanup t st)" "env_ok env"
  shows "storage_inv st {}"
proof -
  obtain r where r: "storage_init (storage_memory env) (storage_locked env) STORAGE_BLOBS_MAX = Some r"
    using assms(1) by (cases "storage_init (storage_memory env) (storage_locked env) STORAGE_BLOBS_MAX")
      (simp_all add: main_init_def)
  have "r = Inr st"
    using assms(1) unfolding main_init_def r
    by (cases "ctx_memory env") (auto simp: bind_eq_Some_conv split: sum.split_asm if_split_asm option.split_asm)
  with r have init: "storage_init (storage_memory env) (storage_locked env) STORAGE_BLOBS_MAX = Some (Inr st)" by simp
  then obtain p where p: "storage_memory env = Some p" "storage_locked env"
    by (auto simp: storage_init_def split: option.splits if_splits)
  have "allocated_ok p STORAGE_BLOBS_MAX" using assms(2) p(1) by (simp add: env_ok_def)
  then obtain st1 where "storage_init (Some p) True STORAGE_BLOBS_MAX = Some (Inr st1)" "storage_inv st1 {}"
    by (rule storage_ready) (rule that)
  then show ?thesis using init p by simp
qed

text \<open>What the cleanup leaves.\<close>

definition wiped :: "tls_data \<Rightarrow> addr option \<Rightarrow> server \<Rightarrow> bool" where
  "wiped tls p sv \<longleftrightarrow>
     (\<forall>x\<in>{arena (store sv)..<arena (store sv) + arena_size}. memory (store sv) x = Some 0) \<and>
     (\<forall>k\<in>set (blob_ids (tab (store sv))) \<union> set (blob_ids_invalid (store sv)). k = null_key) \<and>
     (\<forall>q. p = Some q \<longrightarrow> (\<forall>x\<in>{q..<q + 8192 * sizeof_ctxalloc_block_t}. snd (ctx_pool sv) x = Some 0)) \<and>
     (\<forall>a. ctxs sv a = zero_ctx) \<and>
     (\<forall>m. tls_key_and_cert_memory tls = Some m \<longrightarrow> (\<forall>b\<in>set m. b = 0))"

lemma tls_wiped: "\<forall>m. tls_key_and_cert_memory (tls_data_zero t) = Some m \<longrightarrow> (\<forall>b\<in>set m. b = 0)"
  by (auto simp: tls_data_zero_def)

lemma storage_zero_wipes:
  assumes "storage_inv s out"
  obtains c st where "storage_zero s = Some (c, st)" "arena st = arena s"
    "\<And>x. x \<in> bytes (arena s) arena_size \<Longrightarrow> memory st x = Some 0"
    "\<forall>k\<in>set (blob_ids (tab st)) \<union> set (blob_ids_invalid st). k = null_key"
proof -
  obtain c st where st: "storage_zero s = Some (c, st)"
      "\<And>x. x \<in> bytes (arena s) arena_size \<Longrightarrow> memory st x = Some 0"
      "\<forall>k\<in>set (blob_ids (tab st)). k = null_key" "\<forall>k\<in>set (blob_ids_invalid st). k = null_key"
    by (rule zero_ok [OF assms]) (rule that)
  have "arena st = arena s" using st(1) by (auto simp: storage_zero_def arena_def bind_eq_Some_conv)
  then show ?thesis using that st by blast
qed

lemma cleanup_unstarted:
  assumes "storage_inv (store sv) out" "\<And>a. ctxs sv a = zero_ctx"
  shows "\<exists>tls' sv'. main_cleanup None tls None sv = Some (tls', sv') \<and> wiped tls' None sv'"
proof -
  obtain c st where st: "storage_zero (store sv) = Some (c, st)" "arena st = arena (store sv)"
      "\<And>x. x \<in> bytes (arena (store sv)) arena_size \<Longrightarrow> memory st x = Some 0"
      "\<forall>k\<in>set (blob_ids (tab st)) \<union> set (blob_ids_invalid st). k = null_key"
    by (rule storage_zero_wipes [OF assms(1)]) (rule that)
  have "main_cleanup None tls None sv = Some (tls_data_zero tls, sv\<lparr>store := st\<rparr>)"
    using st(1) by (simp add: main_cleanup_def Let_def)
  moreover have "wiped (tls_data_zero tls) None (sv\<lparr>store := st\<rparr>)"
    unfolding wiped_def using st(2-) assms(2) tls_wiped by auto
  ultimately show ?thesis by blast
qed

lemma cleanup_started:
  assumes "server_inv langs p 8192 sv L"
    and d: "case d of None \<Rightarrow> L = Map.empty | Some open_requests \<Rightarrow> distinct open_requests \<and> set open_requests = dom L"
  shows "\<exists>tls' sv'. main_cleanup d tls (Some p) sv = Some (tls', sv') \<and> wiped tls' (Some p) sv'"
proof -
  obtain sv1 where sv1: "(case d of None \<Rightarrow> Some sv | Some open_requests \<Rightarrow> stop_daemon open_requests sv) = Some sv1"
      "server_inv langs p 8192 sv1 Map.empty"
  proof (cases d)
    case (Some open_requests)
    with d obtain sv1 where "stop_daemon open_requests sv = Some sv1" "server_inv langs p 8192 sv1 Map.empty"
      using stop_daemon_ok [OF assms(1), of open_requests] by auto
    then show ?thesis using that Some by simp
  qed (use assms that in simp)
  note i = server_invD [OF sv1(2)]
  obtain c st where st: "storage_zero (store sv1) = Some (c, st)" "arena st = arena (store sv1)"
      "\<And>x. x \<in> bytes (arena (store sv1)) arena_size \<Longrightarrow> memory st x = Some 0"
      "\<forall>k\<in>set (blob_ids (tab st)) \<union> set (blob_ids_invalid st). k = null_key"
    by (rule storage_zero_wipes [OF i(1)]) (rule that)
  have slots: "unat (ctxa_footprint REQUESTS_MAX) - sizeof_ctxalloc_t = 8192 * csz"
    by (simp add: requests_max sizeof_ctxalloc_t_def)
  obtain al m where pool: "ctx_pool sv1 = (al, m)" by (cases "ctx_pool sv1")
  have "ctx_inv p 8192 (al, m) {}" using i(2) pool by simp
  from secure_zero_Some [OF ctx_invD(3) [OF this]] obtain m' where
      m: "secure_zero m p (8192 * csz) = Some m'" "\<And>x. x \<in> bytes p (8192 * csz) \<Longrightarrow> m' x = Some 0" by simp
  let ?sv = "sv1\<lparr>store := st, ctx_pool := (\<lparr>free_ctxs = 0, capacity = 0, available = 0\<rparr>, m'), ctxs := (\<lambda>_. zero_ctx)\<rparr>"
  have "main_cleanup d tls (Some p) sv = Some (tls_data_zero tls, ?sv)"
    unfolding main_cleanup_def sv1(1) using st(1) pool m(1) by (simp add: slots Let_def)
  moreover have "wiped (tls_data_zero tls) (Some p) ?sv"
    unfolding wiped_def using st(2-) m(2) tls_wiped by auto
  ultimately show ?thesis by blast
qed

text \<open>
  C6: however \<^verbatim>\<open>main\<close> gets to its cleanup, because the start fails at any point, because \<^verbatim>\<open>MHD_run\<close> fails, or by a signal in the
  middle of requests, the cleanup returns, and no byte of the secrets, of the blob ids, of the request contexts, of the key
  and of the certificate is left; and what the main loop does, however it interleaves the timer with \<^verbatim>\<open>MHD_run\<close>, is a history of the
  service.
\<close>

theorem main_exit_wipes:
  assumes "env_ok env" "main_stops env cfg args es ok d tls p sv"
  shows "(\<exists>tls' sv'. main_cleanup d tls p sv = Some (tls', sv') \<and> wiped tls' p sv') \<and>
    (p \<noteq> None \<longrightarrow> (\<exists>L. service env cfg es (sv, L)))"
  using assms(2)
proof (cases rule: main_stops.cases)
  case (start_failed a st)
  have "storage_inv (store sv) {}" "\<And>a. ctxs sv a = zero_ctx"
    using failed_start_store [OF _ assms(1)] start_failed by (simp_all add: before_contexts_def)
  then show ?thesis using cleanup_unstarted start_failed by simp
next
  case (no_daemon a)
  obtain base where "ctx_memory env = Some base" "server_inv (lang_COUNT env) base 8192 sv Map.empty"
    using no_daemon assms(1) by (auto elim: main_init_ok)
  moreover have "service env cfg [] (sv, Map.empty)"
    using no_daemon assms(1) run.start unfolding service_def by blast
  ultimately show ?thesis using cleanup_started [of _ base sv Map.empty None] no_daemon by auto
next
  case (no_loop a)
  obtain base where "ctx_memory env = Some base" "server_inv (lang_COUNT env) base 8192 sv Map.empty"
    using no_loop assms(1) by (auto elim: main_init_ok)
  moreover have "service env cfg [] (sv, Map.empty)"
    using no_loop assms(1) run.start unfolding service_def by blast
  ultimately show ?thesis using cleanup_started [of _ base sv Map.empty "Some []"] no_loop by auto
next
  case (loop_left a sv0 L open_requests)
  have s: "service env cfg es (sv, L)"
    using assms(1) loop_left main_loop_run unfolding service_def by blast
  obtain base where "ctx_memory env = Some base" "server_inv (lang_COUNT env) base 8192 sv L"
    by (rule service_inv [OF s]) (rule that)
  then show ?thesis using cleanup_started [of _ base sv L "Some open_requests"] loop_left s by auto
qed

text \<open>A server that has received and delivered a blob in one \<^verbatim>\<open>MHD_run\<close>, and is stopped with requests still open.\<close>

lemma run_mhd_run: "run cfg langs s es s' \<Longrightarrow> \<forall>e\<in>set es. \<forall>now. e \<noteq> Reaped now \<Longrightarrow> mhd_run cfg langs s es s'"
  by (induction rule: run.induct) (auto intro: mhd_run.intros)

lemma tiny_no_tls:
  assumes "main_init tiny_env tls = Some (Started t sv)"
  shows "main_init tiny_env False = Some (Started no_tls sv)"
proof -
  have "main_tls tiny_env tls = Some (True, t)" by (rule main_init_parts [OF assms])
  moreover have "\<not> mhd_has_tls tiny_env" by (simp add: tiny_env_def)
  ultimately show ?thesis using assms by (cases tls) (simp_all add: main_tls_def)
qed

theorem main_exit_wipes_witness:
  "\<exists>as sv tls' sv'. main_stops tiny_env tiny_cfg [''--http'']
      [Quiet, Quiet, Posted tiny_key tiny_secret 3700, Quiet, Quiet, Fetched tiny_key tiny_secret] True
      (Some as) no_tls (ctx_memory tiny_env) sv \<and>
    main_cleanup (Some as) no_tls (ctx_memory tiny_env) sv = Some (tls', sv') \<and> wiped tls' (ctx_memory tiny_env) sv'"
proof -
  let ?es = "[Quiet, Quiet, Posted tiny_key tiny_secret 3700, Quiet, Quiet, Fetched tiny_key tiny_secret]"
  obtain sv L where s: "service tiny_env tiny_cfg ?es (sv, L)" by (rule tiny_exchange) (rule that)
  then obtain tls t sv0 where i: "env_ok tiny_env" "main_init tiny_env tls = Some (Started t sv0)"
      "run tiny_cfg (lang_COUNT tiny_env) (sv0, Map.empty) ?es (sv, L)" by (auto simp: service_def)
  obtain base where b: "ctx_memory tiny_env = Some base" "server_inv (lang_COUNT tiny_env) base 8192 sv L"
    by (rule service_inv [OF s]) (rule that)
  obtain al m where "ctx_pool sv = (al, m)" by (cases "ctx_pool sv")
  then have "dom L \<subseteq> ctx_slots base 8192"
    using ctx_invD(9) [of base 8192 al m "dom L"] server_invD(2) [OF b(2)] by (metis Un_upper2)
  then have "finite (dom L)" by (rule finite_subset) (rule finite_ctx_slots)
  from finite_distinct_list [OF this] obtain as where as: "set as = dom L" "distinct as" by (elim exE conjE)
  have "mhd_run tiny_cfg (lang_COUNT tiny_env) (sv0, Map.empty) ?es (sv, L)"
    by (rule run_mhd_run [OF i(3)]) simp
  then have l: "main_loop tiny_cfg (lang_COUNT tiny_env) (sv0, Map.empty) (?es @ []) True (sv, L)"
    by (rule main_loop.timeout) (rule main_loop.stop)
  have "parse_args [''--http''] default_args = Some (Go (default_args\<lparr>use_tls := False\<rparr>))" by simp
  from main_stops.loop_left [OF this _ l as(2,1)] tiny_no_tls [OF i(2)]
  have "main_stops tiny_env tiny_cfg [''--http''] ?es True (Some as) no_tls (ctx_memory tiny_env) sv" by simp
  with main_exit_wipes [OF i(1) this] show ?thesis by blast
qed

end
