(* ===== verification/Responses.thy ===== *)
theory Responses
  imports Guarantees
begin

text \<open>
  What clients are told: the statuses and headers of every response, the limits on the announced size of an upload, and
  the course of an upload that the server refuses.
\<close>

section \<open>Every response\<close>

text \<open>
  No response goes out while data is taken in; uploads get none before their end, except by the debouncer. Nothing is
  sniffed, framed or leaks a referrer, what is not a page is never cached, and other origins get in only as \<^verbatim>\<open>null\<close>.
\<close>

definition headers_ok :: "mhd_call \<Rightarrow> response \<Rightarrow> bool" where
  "headers_ok c resp \<longleftrightarrow>
     {(''X-Content-Type-Options'', ''nosniff''), (''Strict-Transport-Security'', ''max-age=31536000''),
      (''Referrer-Policy'', ''no-referrer'')} \<subseteq> set (headers resp) \<and>
     (case body resp of
        Body_page _ _ \<Rightarrow> {(''X-Frame-Options'', ''DENY''), (''Cross-Origin-Opener-Policy'', ''same-origin'')} \<subseteq> set (headers resp)
      | _ \<Rightarrow> {(''Cache-Control'', ''no-store''), (''Cross-Origin-Resource-Policy'', ''same-origin'')} \<subseteq> set (headers resp)) \<and>
     (\<forall>v. (''Access-Control-Allow-Origin'', v) \<in> set (headers resp) \<longrightarrow>
        v = ''null'' \<and> (\<exists>origin. hdr_origin c = Some origin \<and> strncmp_eq origin ''null'' 5))"

definition is_get_call :: "mhd_call \<Rightarrow> bool" where
  "is_get_call c \<longleftrightarrow> strncmp_eq (meth c) ''GET'' 4"

definition reply_ok :: "mhd_call \<Rightarrow> ahc_result \<Rightarrow> bool" where
  "reply_ok c r \<longleftrightarrow> (\<forall>resp. queued r = Some resp \<longrightarrow>
     mhd_yes r \<and> \<not> consumed r \<and> code resp \<in> {200, 400, 404, 429, 500} \<and> headers_ok c resp \<and>
     (\<forall>b. body resp = Body_blob b \<longrightarrow> code resp = 200 \<and> is_get_call c \<and>
        (''Content-Type'', ''application/octet-stream'') \<in> set (headers resp)) \<and>
     (upload_data c \<noteq> [] \<longrightarrow> code resp = 429 \<or> is_get_call c)) \<and>
   (consumed r \<longrightarrow> mhd_yes r \<and> upload_data c \<noteq> [])"

named_theorems replies

lemma no_reply [replies]: "reply_ok c (drop_connection a)" "upload_data c \<noteq> [] \<Longrightarrow> reply_ok c (keep_reading a)"
  by (simp_all add: reply_ok_def drop_connection_def keep_reading_def)

lemma queued_response:
  "snd (send_response c s b t p) = Some resp \<Longrightarrow> fst (send_response c s b t p) \<and> code resp = s \<and> body resp = b \<and>
    headers resp = (''X-Content-Type-Options'', ''nosniff'') # (case t of None \<Rightarrow> [] | Some t \<Rightarrow> [(''Content-Type'', t)]) @
      (''Strict-Transport-Security'', ''max-age=31536000'') # profile_headers c p"
  by (auto simp: send_response_def Let_def split: if_splits)

lemma other_headers:
  assumes "snd (send_response c s b t p) = Some resp" "p = HP_OTHER \<or> p = HP_API_BLOB" "\<And>i j. b \<noteq> Body_page i j"
  shows "headers_ok c resp"
  using queued_response [OF assms(1)] assms(2,3)
  by (auto simp: headers_ok_def profile_headers_def split: body.split option.splits if_splits)

lemma page_headers:
  assumes "snd (send_response c s (Body_page i j) t p) = Some resp" "p = HP_HTML_VIEWER \<or> p = HP_STATIC_ASSET"
  shows "headers_ok c resp"
  using queued_response [OF assms(1)] assms(2)
  by (auto simp: headers_ok_def profile_headers_def split: option.splits)

lemma text_reply [replies]:
  assumes "s \<in> {200, 400, 404, 429, 500}" "upload_data c \<noteq> [] \<Longrightarrow> s = 429 \<or> is_get_call c"
    and "p = HP_OTHER \<or> p = HP_API_BLOB" "b = Body_empty \<or> (\<exists>str. b = Body_text str)"
  shows "reply_ok c (answer a (send_response c s b t p))"
  using other_headers [of c s b t p] queued_response [of c s b t p] assms by (auto simp: reply_ok_def answer_def)

lemma plain_reply [replies]:
  assumes "s \<in> {200, 400, 404, 429, 500}" "upload_data c \<noteq> [] \<Longrightarrow> s = 429 \<or> is_get_call c"
  shows "reply_ok c (answer a (send_text c s str))"
  unfolding send_text_def by (rule text_reply) (use assms in auto)

lemma blob_reply [replies]:
  assumes "is_get_call c"
  shows "reply_ok c (answer a (send_response c 200 (Body_blob b) (Some ''application/octet-stream'') HP_API_BLOB))"
  using other_headers [of c 200 "Body_blob b"] queued_response [of c 200 "Body_blob b"] assms
  by (auto simp: reply_ok_def answer_def)

lemma page_reply [replies]:
  assumes "upload_data c = []" "p = HP_HTML_VIEWER \<or> p = HP_STATIC_ASSET"
  shows "reply_ok c (answer a (send_response c 200 (Body_page i j) t p))"
  using page_headers [of c 200 i j t p] queued_response [of c 200 "Body_page i j" t p] assms
  by (auto simp: reply_ok_def answer_def)

text \<open>Branch by branch.\<close>

lemma get_replies: "ahc_get_blob c a k sv = Some (r, sv') \<Longrightarrow> is_get_call c \<Longrightarrow> reply_ok c r"
  by (auto simp: ahc_get_blob_def bind_eq_Some_conv Let_def intro!: replies split: if_splits)

lemma append_replies: "post_append c a sv = Some (r, sv') \<Longrightarrow> upload_data c \<noteq> [] \<Longrightarrow> reply_ok c r"
  by (auto simp: post_append_def bind_eq_Some_conv Let_def intro!: replies split: if_splits)

lemma create_replies: "post_create c a sv = Some (r, sv') \<Longrightarrow> upload_data c \<noteq> [] \<Longrightarrow> reply_ok c r"
  by (auto simp: post_create_def post_defer_error_def bind_eq_Some_conv Let_def
      intro!: replies intro: append_replies split: if_splits)

lemma data_replies: "post_data c a sv = Some (r, sv') \<Longrightarrow> upload_data c \<noteq> [] \<Longrightarrow> reply_ok c r"
  by (auto simp: post_data_def Let_def intro!: replies intro: append_replies create_replies
      split: if_splits option.splits)

lemma end_replies: "post_end c a sv = Some (r, sv') \<Longrightarrow> upload_data c = [] \<Longrightarrow> reply_ok c r"
  by (cases "deferred_error (ctxs sv a)")
    (auto simp: post_end_def deferred_error_responses_def bind_eq_Some_conv Let_def intro!: replies split: if_splits)

lemma post_replies: "ahc_post_blob c a k sv = Some (r, sv') \<Longrightarrow> reply_ok c r"
  by (auto simp: ahc_post_blob_def Let_def intro!: replies intro: data_replies end_replies split: if_splits)

lemma blob_replies: "ahc_blob c a (is_get_call c) sv = Some (Some r, sv') \<Longrightarrow> reply_ok c r"
  by (auto simp: ahc_blob_def bind_eq_Some_conv Let_def intro!: replies intro: get_replies post_replies
      split: if_splits option.splits)

lemma page_replies: "ahc_pages cfg c a language asset is_root sv = Some (Some r, sv') \<Longrightarrow> reply_ok c r"
  by (auto simp: ahc_pages_def bind_eq_Some_conv Let_def intro!: replies split: if_splits option.splits)



section \<open>The announced size\<close>

text \<open>
  C33: the size of an upload is the number in the header, exactly if it is from 46 bytes to 128 KiB; a number of any length is
  read, and one that is too large for 64 bits is refused like a missing header.
\<close>

theorem announced_size:
  "post_length (c\<lparr>hdr_content_length := Some (dec_of_nat m)\<rparr>) =
     (if 46 \<le> m \<and> m \<le> 131072 then Some (of_nat m) else None) \<and>
   post_length (c\<lparr>hdr_content_length := None\<rparr>) = None"
proof -
  have "post_length (c\<lparr>hdr_content_length := Some (dec_of_nat m)\<rparr>) = None" if m: "m < 46 \<or> 131072 < m"
  proof (cases "m < 2 ^ 64")
    case True
    have "unat (of_nat m :: u64) = m" using True by (intro unat_of_nat_small) simp
    then have "BLOB_SIZE_MAX < (of_nat m :: u64) \<or> (of_nat m :: u64) < BLOB_SIZE_MIN"
      using m by (auto simp: word_less_nat_alt BLOB_SIZE_MAX_def BLOB_SIZE_MIN_def LOG_MAX_def LOG_MIN_def)
    then show ?thesis using strtoul10_dec [OF True] by (auto simp: post_length_def Let_def)
  next
    case False
    then have "strtoul10 (dec_of_nat m) = ULONG_MAX"
      using dec_of_nat_digits [of m] by (simp add: strtoul10_def Let_def dec_parse)
    then show ?thesis by (simp add: post_length_def Let_def)
  qed
  moreover have "post_length (c\<lparr>hdr_content_length := Some (dec_of_nat m)\<rparr>) = Some (of_nat m)" if "46 \<le> m" "m \<le> 131072"
    using post_length_dec(1) [of "c\<lparr>hdr_content_length := Some (dec_of_nat m)\<rparr>" m] that by simp
  ultimately show ?thesis by (auto simp: post_length_def)
qed


section \<open>Uploads that are refused\<close>

text \<open>The data of a request, in pieces as libmicrohttpd delivers them; each must be taken without a response.\<close>

fun feed :: "config \<Rightarrow> mhd_call \<Rightarrow> u8 list list \<Rightarrow> server \<Rightarrow> server option" where
  "feed cfg c [] sv = Some sv"
| "feed cfg c (d # ds) sv = do {
     (r, sv) \<leftarrow> ahc cfg (c\<lparr>upload_data := d\<rparr>) sv;
     ensure (mhd_yes r \<and> consumed r \<and> queued r = None);
     feed cfg c ds sv }"

definition refusing :: "htable_key_t \<Rightarrow> DEFERRED_ERROR_CODE \<Rightarrow> req_ctx_t \<Rightarrow> bool" where
  "refusing k e x \<longleftrightarrow> have_id x \<and> ctx_id x = k \<and> deferred_error x = e \<and> e \<noteq> DEFERRED_ERROR_CODE_NO_ERROR"

lemma post_call:
  assumes "meth c = ''POST''" "blob_request c k" "con_cls c = Some a" "\<not> use_debouncer cfg"
  shows "ahc cfg (c\<lparr>upload_data := d\<rparr>) sv = ahc_post_blob (c\<lparr>upload_data := d\<rparr>) a k sv"
  by (rule ahc_blob_request(2) [OF _ _ no_debouncer refl]) (use assms in simp_all)

lemma refused_feed:
  assumes c: "meth c = ''POST''" "blob_request c k" "con_cls c = Some a" "\<not> use_debouncer cfg"
    and x: "refusing k e (ctxs sv a)"
  shows "[] \<notin> set ds \<Longrightarrow> feed cfg c ds sv = Some sv"
proof (induction ds)
  case (Cons d ds)
  then have "ahc cfg (c\<lparr>upload_data := d\<rparr>) sv = Some (keep_reading a, sv)"
    using x by (auto simp: post_call [OF c] ahc_post_blob_def post_data_def refusing_def Let_def)
  then show ?case using Cons by (simp add: keep_reading_def)
qed simp

lemma refused_end:
  assumes c: "meth c = ''POST''" "blob_request c k" "con_cls c = Some a" "\<not> use_debouncer cfg"
    and x: "refusing k e (ctxs sv a)"
  shows "ahc cfg (c\<lparr>upload_data := []\<rparr>) sv = Some (answer a (send_text (c\<lparr>upload_data := []\<rparr>)
    (fst (deferred_error_responses e)) (snd (deferred_error_responses e))), sv)"
  using x by (auto simp: post_call [OF c] ahc_post_blob_def post_end_def refusing_def Let_def split_def)

text \<open>The first piece finds out.\<close>

lemma refused_first:
  assumes inv: "server_inv langs base n sv L" and a: "ctxs sv a = zero_ctx"
    and c: "meth c = ''POST''" "blob_request c k" "con_cls c = Some a" "\<not> use_debouncer cfg"
    and d: "d \<noteq> []" "post_length c = Some m"
    and refuse: "blob_at (store sv) k \<noteq> None \<or> \<not> room (store sv) m"
  shows "\<exists>sv'. ahc cfg (c\<lparr>upload_data := d\<rparr>) sv = Some (keep_reading a, sv') \<and> store sv' = store sv \<and>
    refusing k (if blob_at (store sv) k \<noteq> None then DEFERRED_ERROR_CODE_DUP else DEFERRED_ERROR_CODE_OOM) (ctxs sv' a)"
proof -
  note s = server_invD(1) [OF inv]
  let ?x = "zero_ctx\<lparr>ctx_id := k, have_id := True, expected := m\<rparr>"
  let ?c = "c\<lparr>upload_data := d\<rparr>"
  have len: "post_length ?c = Some m" using d(2) by (simp add: post_length_def)
  have "ahc cfg ?c sv = post_create ?c a (set_ctx a ?x sv)"
    using a d(1) len
    by (simp add: post_call [OF c] ahc_post_blob_def post_data_def Let_def set_ctx_def zero_ctx_def null_blk_def)
  moreover have "post_create ?c a (set_ctx a ?x sv) =
      Some (keep_reading a, set_ctx a (?x\<lparr>deferred_error := DEFERRED_ERROR_CODE_DUP\<rparr>) sv)"
    if "blob_at (store sv) k \<noteq> None"
    using that taken_iff [OF s, of k] by (simp add: post_create_def post_defer_error_def set_ctx_def)
  moreover have "post_create ?c a (set_ctx a ?x sv) =
      Some (keep_reading a, set_ctx a (?x\<lparr>deferred_error := DEFERRED_ERROR_CODE_OOM\<rparr>) sv)"
    if k: "blob_at (store sv) k = None"
  proof -
    have "storage_blob_create (store sv) k m = Some (null_blk, store sv)"
      by (rule create_fails [OF s k post_length_size [OF d(2)]]) (use refuse k in \<open>auto simp: room_def\<close>)
    then show ?thesis
      using k taken_iff [OF s, of k] by (simp add: post_create_def post_defer_error_def set_ctx_def zero_ctx_def)
  qed
  ultimately show ?thesis by (cases "blob_at (store sv) k = None") (force simp: refusing_def)+
qed


text \<open>All requests can end; here after the upload of the example, which leaves its blob in the store.\<close>

lemma finite_requests: "server_inv langs base n sv L \<Longrightarrow> finite (dom L)"
  by (cases "ctx_pool sv") (metis server_invD(2) ctx_invD(9) Un_upper2 finite_subset finite_ctx_slots)

lemma drain:
  "server_inv langs base n sv L \<Longrightarrow>
   \<exists>m sv'. run cfg langs (sv, L) (replicate m Quiet) (sv', Map.empty) \<and> secrets (store sv') = secrets (store sv)"
proof (induction "card (dom L)" arbitrary: sv L)
  case 0
  then have "L = Map.empty" using finite_requests by fastforce
  then show ?case using run.start by (intro exI [of _ 0] exI [of _ sv]) auto
next
  case (Suc m)
  then obtain a where "a \<in> dom L" by (metis card.empty ex_in_conv nat.distinct(1))
  then obtain p up where "L a = Some (p, up)" by auto
  from finish_step [OF Suc.prems this, of cfg] obtain sv1 where
      sv1: "step cfg langs (sv, L) Quiet (sv1, L(a := None))" "server_inv langs base n sv1 (L(a := None))"
      "secrets (store sv1) = secrets (store sv)" by metis
  have "m = card (dom (L(a := None)))"
    using Suc.hyps(2) \<open>a \<in> dom L\<close> finite_requests [OF Suc.prems] by simp
  from Suc.hyps(1) [OF this sv1(2)] obtain j sv' where
      j: "run cfg langs (sv1, L(a := None)) (replicate j Quiet) (sv', Map.empty)"
      "secrets (store sv') = secrets (store sv1)" by blast
  have "run cfg langs (sv, L) [Quiet] (sv1, L(a := None))" using run.more [OF run.start sv1(1)] by simp
  from run_append [OF this j(1)] have "run cfg langs (sv, L) (replicate (Suc j) Quiet) (sv', Map.empty)" by simp
  then show ?case using j(2) sv1(3) by metis
qed

lemma quiet_run: "secrets_run M (replicate m Quiet) M' \<Longrightarrow> M' = M"
proof (induction m arbitrary: M')
  case 0
  then show ?case by (auto elim: secrets_run.cases)
next
  case (Suc m)
  then have "secrets_run M (replicate m Quiet @ [Quiet]) M'" by (simp add: replicate_append_same)
  then obtain M1 where "secrets_run M (replicate m Quiet) M1" "secrets_step M1 Quiet M'"
    using secrets_run_append secrets_run_single by blast
  then show ?case using Suc.IH by (auto elim: secrets_step.cases)
qed

lemma tiny_taken:
  obtains es sv where "service tiny_env tiny_cfg es (sv, Map.empty)" "blob_at (store sv) tiny_key \<noteq> None"
proof -
  obtain sv L where s: "service tiny_env tiny_cfg [Quiet, Quiet, Posted tiny_key tiny_secret 3700, Quiet, Quiet] (sv, L)"
    by (rule tiny_exchange) (rule that)
  obtain base where inv: "server_inv (lang_COUNT tiny_env) base 8192 sv L"
      "secrets_run Map.empty [Quiet, Quiet, Posted tiny_key tiny_secret 3700, Quiet, Quiet] (secrets (store sv))"
    by (rule service_inv [OF s]) (rule that)
  have "secrets_run Map.empty (([Quiet, Quiet] @ [Posted tiny_key tiny_secret 3700]) @ replicate 2 Quiet) (secrets (store sv))"
    using inv(2) by (simp add: numeral_2_eq_2)
  then obtain M1 M2 where M: "secrets_step M1 (Posted tiny_key tiny_secret 3700) M2" "secrets_run M2 (replicate 2 Quiet) (secrets (store sv))"
    using secrets_run_append secrets_run_single by meson
  have "M2 tiny_key = Some (tiny_secret, 3700)" using M(1) by (cases rule: secrets_step.cases) simp
  then have k: "secrets (store sv) tiny_key = Some (tiny_secret, 3700)" using quiet_run [OF M(2)] by simp
  obtain m sv' where d: "run tiny_cfg (lang_COUNT tiny_env) (sv, L) (replicate m Quiet) (sv', Map.empty)"
      "secrets (store sv') = secrets (store sv)" using drain [OF inv(1)] by blast
  have "service tiny_env tiny_cfg ([Quiet, Quiet, Posted tiny_key tiny_secret 3700, Quiet, Quiet] @ replicate m Quiet) (sv', Map.empty)"
    using s d(1) unfolding service_def by (blast intro: run_append)
  moreover have "secrets (store sv') tiny_key \<noteq> None" using k d(2) by simp
  then have "blob_at (store sv') tiny_key \<noteq> None" by (auto simp: secrets_def split: option.split_asm)
  ultimately show ?thesis using that by blast
qed



end
