(* ===== verification/Logging.thy ===== *)
theory Logging
  imports Exchange
begin

text \<open>
  \<^verbatim>\<open>log.c\<close> and \<^verbatim>\<open>log.h\<close>: where a record of the log goes and what it looks like. The text of the message, which \<^verbatim>\<open>vfprintf\<close>
  makes of the format and its arguments, is given.
\<close>

section \<open>The code\<close>

definition ANSI_RESET :: string where "ANSI_RESET = char_of (27 :: nat) # ''[0m''"
definition ANSI_RED :: string where "ANSI_RED = char_of (27 :: nat) # ''[31m''"
definition ANSI_CYAN :: string where "ANSI_CYAN = char_of (27 :: nat) # ''[36m''"
definition ANSI_GREEN :: string where "ANSI_GREEN = char_of (27 :: nat) # ''[32m''"

text \<open>The broken-down time; months count from 0, years from 1900.\<close>

record tm =
  tm_sec :: nat
  tm_min :: nat
  tm_hour :: nat
  tm_mday :: nat
  tm_mon :: nat
  tm_year :: int
  tm_gmtoff :: int

definition two_digits :: "nat \<Rightarrow> string" where
  "two_digits n = (if n < 10 then ''0'' else []) @ dec_of_nat n"

definition iso8601 :: "tm \<Rightarrow> string" where
  "iso8601 t =
     (let year = tm_year t + 1900; off = tm_gmtoff t div 60
      in (if year < 0 then ''-'' else []) @ dec_of_nat (nat \<bar>year\<bar>) @ ''-'' @ two_digits (tm_mon t + 1) @ ''-'' @
         two_digits (tm_mday t) @ '' '' @ two_digits (tm_hour t) @ '':'' @ two_digits (tm_min t) @ '':'' @
         two_digits (tm_sec t) @ '' '' @ (if off < 0 then ''-'' else ''+'') @
         two_digits (nat (\<bar>off\<bar> div 60)) @ two_digits (nat (\<bar>off\<bar> mod 60)))"

text \<open>\<^verbatim>\<open>strftime\<close> returns 0 if the text and its terminator do not fit; \<^const>\<open>None\<close> is \<^verbatim>\<open>NULL\<close>, when \<^verbatim>\<open>localtime_r\<close> fails.\<close>

definition now_local_iso8601 :: "tm option \<Rightarrow> string option" where
  "now_local_iso8601 now = (case now of
     None \<Rightarrow> None
   | Some t \<Rightarrow> Some (if length (iso8601 t) + 1 \<le> 32 then iso8601 t else ''time buffer too small''))"

record log_build =
  FILELOG :: bool
  SYSLOG :: bool
  DEBUG :: bool

text \<open>What has been written so far, and whether \<^verbatim>\<open>log_file\<close> is set; a record of syslog has its priority.\<close>

record log_state =
  log_file :: bool
  file_text :: string
  stdout_text :: string
  stderr_text :: string
  syslog_text :: "(bool \<times> string) list"

text \<open>\<^verbatim>\<open>log_init\<close>; \<^const>\<open>Inl\<close> is an exit.\<close>

definition log_init :: "log_build \<Rightarrow> bool \<Rightarrow> log_state \<Rightarrow> unit + log_state" where
  "log_init b fopen_ok st =
     (if FILELOG b then if fopen_ok then Inr (st\<lparr>log_file := True\<rparr>) else Inl ()
      else Inr st)"

definition log_close :: "log_build \<Rightarrow> log_state \<Rightarrow> log_state" where
  "log_close b st = (if FILELOG b then st\<lparr>log_file := False\<rparr> else st)"

text \<open>One record: whether it is written with \<^verbatim>\<open>LOGD\<close>, with \<^verbatim>\<open>LOGE\<close> or else with \<^verbatim>\<open>LOG\<close>, the function that writes it, the time, and the message.\<close>

record log_record =
  rec_debug :: bool
  rec_error :: bool
  rec_func :: string
  rec_time :: "tm option"
  rec_msg :: string

text \<open>\<^verbatim>\<open>log_\<close>. Undefined: a file that is not open, and a time that is \<^verbatim>\<open>NULL\<close>.\<close>

definition log_write :: "log_build \<Rightarrow> log_record \<Rightarrow> log_state \<Rightarrow> log_state option" where
  "log_write b r st = do {
     ensure (FILELOG b \<longrightarrow> log_file st);
     time \<leftarrow> now_local_iso8601 (rec_time r);
     let line = (if FILELOG b then [] else if rec_error r then ANSI_RED else ANSI_GREEN) @
       ''['' @ (if rec_error r then ''E'' else ''I'') @ '']['' @ time @ ''] '' @ rec_func r @ '': '' @ rec_msg r @
       (if FILELOG b then [] else ANSI_RESET) @ [char_of (10 :: nat)];
     let st = (if FILELOG b then st\<lparr>file_text := file_text st @ line\<rparr>
       else if rec_error r then st\<lparr>stderr_text := stderr_text st @ line\<rparr>
       else st\<lparr>stdout_text := stdout_text st @ line\<rparr>);
     Some (if SYSLOG b then st\<lparr>syslog_text := syslog_text st @ [(rec_error r, rec_msg r)]\<rparr> else st) }"

text \<open>\<^verbatim>\<open>logd_\<close>: always on the terminal, without an end of line, and only in a build with \<^verbatim>\<open>DEBUG\<close>.\<close>

definition logd_write :: "log_build \<Rightarrow> log_record \<Rightarrow> log_state \<Rightarrow> log_state option" where
  "logd_write b r st =
     (if DEBUG b then do {
        time \<leftarrow> now_local_iso8601 (rec_time r);
        Some (st\<lparr>stdout_text := stdout_text st @ ANSI_CYAN @ ''[D]['' @ time @ ''] '' @ rec_func r @ '': '' @ rec_msg r @ ANSI_RESET\<rparr>) }
      else Some st)"

fun log_all :: "log_build \<Rightarrow> log_record list \<Rightarrow> log_state \<Rightarrow> log_state option" where
  "log_all b [] st = Some st"
| "log_all b (r # rs) st = do {
     st \<leftarrow> (if rec_debug r then logd_write b r st else log_write b r st);
     log_all b rs st }"


section \<open>The time fits\<close>

lemma dec_length: "0 < k \<Longrightarrow> n < 10 ^ k \<Longrightarrow> length (dec_of_nat n) \<le> k"
proof (induction k arbitrary: n)
  case (Suc k)
  show ?case
  proof (cases "n < 10")
    case False
    then have "0 < k" using Suc.prems by (cases k) auto
    moreover have "n div 10 < 10 ^ k" using Suc.prems(2) by (simp add: less_mult_imp_div_less mult.commute)
    ultimately show ?thesis using Suc.IH [of "n div 10"] False by (simp add: dec_of_nat.simps [of n])
  qed (simp add: dec_of_nat.simps [of n])
qed simp

lemma dec_nonempty: "0 < length (dec_of_nat n)"
  using dec_of_nat_digits(3) [of n] by simp

lemma two_digits_length:
  assumes "n < 100"
  shows "length (two_digits n) = 2"
proof (cases "n < 10")
  case True
  then show ?thesis by (simp add: two_digits_def dec_of_nat.simps [of n])
next
  case False
  then have "length (dec_of_nat n) = Suc (length (dec_of_nat (n div 10)))" by (simp add: dec_of_nat.simps [of n])
  moreover have "length (dec_of_nat (n div 10)) = 1"
    using dec_length [of 1 "n div 10"] dec_nonempty [of "n div 10"] assms by (simp add: le_antisym Suc_le_eq)
  ultimately show ?thesis using False by (simp add: two_digits_def)
qed

definition tm_ok :: "tm \<Rightarrow> bool" where
  "tm_ok t \<longleftrightarrow> tm_sec t \<le> 60 \<and> tm_min t < 60 \<and> tm_hour t < 24 \<and> tm_mday t \<le> 31 \<and> tm_mon t < 12 \<and>
     - 1900 \<le> tm_year t \<and> tm_year t < 2 ^ 31 \<and> \<bar>tm_gmtoff t\<bar> \<le> 24 * 3600"

lemma iso8601_fits:
  assumes "tm_ok t"
  shows "length (iso8601 t) \<le> 31"
proof -
  let ?off = "tm_gmtoff t div 60"
  have "0 \<le> tm_year t + 1900" "tm_year t + 1900 < 10000000000" using assms by (simp_all add: tm_ok_def)
  then have y: "0 \<le> tm_year t + 1900" "nat \<bar>tm_year t + 1900\<bar> < 10 ^ 10" by simp_all
  have g: "- (24 * 3600) \<le> tm_gmtoff t" "tm_gmtoff t \<le> 24 * 3600" using assms by (simp_all add: tm_ok_def abs_le_iff)
  have "\<bar>?off\<bar> \<le> 1440" using zdiv_mono1 [OF g(1), of 60] zdiv_mono1 [OF g(2), of 60] by simp
  from zdiv_mono1 [OF this, of 60] have "\<bar>?off\<bar> div 60 \<le> 24" by simp
  moreover have "0 \<le> \<bar>?off\<bar> mod 60" "\<bar>?off\<bar> mod 60 < 60" by (rule pos_mod_sign, simp) (rule pos_mod_bound, simp)
  ultimately have o: "nat (\<bar>?off\<bar> div 60) < 100" "nat (\<bar>?off\<bar> mod 60) < 100" by (simp_all only: nat_less_iff) simp_all
  have n: "length (dec_of_nat (nat \<bar>tm_year t + 1900\<bar>)) \<le> 10" using dec_length [OF _ y(2)] by simp
  have f: "length (two_digits (tm_mon t + 1)) = 2" "length (two_digits (tm_mday t)) = 2" "length (two_digits (tm_hour t)) = 2"
      "length (two_digits (tm_min t)) = 2" "length (two_digits (tm_sec t)) = 2"
    using assms by (simp_all add: two_digits_length tm_ok_def)
  have "length (iso8601 t) = length (dec_of_nat (nat \<bar>tm_year t + 1900\<bar>)) + 21"
    unfolding iso8601_def Let_def using y(1) f two_digits_length [OF o(1)] two_digits_length [OF o(2)] by simp
  then show ?thesis using n by simp
qed


section \<open>Records\<close>

text \<open>What one record looks like.\<close>

definition log_line :: "log_build \<Rightarrow> log_record \<Rightarrow> string" where
  "log_line b r =
     (let plain = ''['' @ (if rec_error r then ''E'' else ''I'') @ ''][''
        @ (case rec_time r of None \<Rightarrow> [] | Some t \<Rightarrow> iso8601 t) @ ''] '' @ rec_func r @ '': '' @ rec_msg r
      in (if FILELOG b then plain else (if rec_error r then ANSI_RED else ANSI_GREEN) @ plain @ ANSI_RESET) @
         [char_of (10 :: nat)])"

text \<open>The parts of the log that a record adds something to.\<close>

definition in_file :: "log_build \<Rightarrow> log_record \<Rightarrow> string" where
  "in_file b r = (if FILELOG b \<and> \<not> rec_debug r then log_line b r else [])"

definition on_stdout :: "log_build \<Rightarrow> log_record \<Rightarrow> string" where
  "on_stdout b r =
     (if rec_debug r
      then if DEBUG b then ANSI_CYAN @ ''[D]['' @ (case rec_time r of None \<Rightarrow> [] | Some t \<Rightarrow> iso8601 t) @ ''] '' @
        rec_func r @ '': '' @ rec_msg r @ ANSI_RESET else []
      else if FILELOG b \<or> rec_error r then [] else log_line b r)"

definition on_stderr :: "log_build \<Rightarrow> log_record \<Rightarrow> string" where
  "on_stderr b r = (if FILELOG b \<or> rec_debug r \<or> \<not> rec_error r then [] else log_line b r)"

definition in_syslog :: "log_build \<Rightarrow> log_record \<Rightarrow> (bool \<times> string) list" where
  "in_syslog b r = (if SYSLOG b \<and> \<not> rec_debug r then [(rec_error r, rec_msg r)] else [])"

lemma log_one:
  assumes "rec_time r = Some t" "tm_ok t" "FILELOG b \<longrightarrow> log_file st"
  shows "(if rec_debug r then logd_write b r st else log_write b r st) = Some (st\<lparr>
    file_text := file_text st @ in_file b r, stdout_text := stdout_text st @ on_stdout b r,
    stderr_text := stderr_text st @ on_stderr b r, syslog_text := syslog_text st @ in_syslog b r\<rparr>)"
  using assms iso8601_fits [OF assms(2)]
  by (simp add: log_write_def logd_write_def now_local_iso8601_def log_line_def in_file_def on_stdout_def on_stderr_def
      in_syslog_def Let_def)


definition tiny_record :: log_record where
  "tiny_record = \<lparr>rec_debug = False, rec_error = False, rec_func = ''main'', rec_time = Some \<lparr>tm_sec = 0, tm_min = 30, tm_hour = 9,
     tm_mday = 1, tm_mon = 0, tm_year = 126, tm_gmtoff = -3600\<rparr>, rec_msg = ''bye''\<rparr>"

definition no_log :: log_state where
  "no_log = \<lparr>log_file = False, file_text = [], stdout_text = [], stderr_text = [], syslog_text = []\<rparr>"


end
