(* ===== verification/Spec2Isabelle.thy ===== *)
theory Spec2Isabelle
  imports Reaper_Simd Storage_Status Shutdown Responses Logging
begin

text \<open>
  Ad Nihilum is a server for secrets that are read once. A browser encrypts a secret and posts it under a random id of 128 bits;
  whoever asks for the id first gets the bytes, and from then on the id is unknown. What nobody fetches is erased
  after an hour. This development models the server, everything under \<^verbatim>\<open>src/\<close> that is written in C and computes, and
  proves that it does this: no history of requests makes it misbehave, and every history is one of an abstract map of secrets.

  \<^bold>\<open>The program.\<close> \<^verbatim>\<open>storage.c\<close> keeps the blobs: three parallel arrays (ids, blocks, expiry times) form a hash table
  with linear probing (\<^verbatim>\<open>linear_probing.h\<close>), and the bytes lie in one arena from which a bucket allocator (\<^verbatim>\<open>balloc.h\<close>)
  takes blocks of 128 bytes to 128 KiB. \<^verbatim>\<open>server.c\<close> holds the request handler \<^verbatim>\<open>ahc\<close>, which libmicrohttpd calls several times for
  each request, its counterpart \<^verbatim>\<open>req_done\<close>, the pages with their translations, the files read at the start, and \<^verbatim>\<open>main\<close> with
  its loop. Each request has a context from a fixed pool (\<^verbatim>\<open>ctxalloc.h\<close>); \<^verbatim>\<open>debouncer.h\<close> turns away clients that come too
  often; a timer runs the reaper. All of it runs in one thread.

  \<^bold>\<open>How it is modelled.\<close> Machine integers keep their width (\<open>u8\<close> to \<open>u64\<close>). A C function becomes a function that passes the state
  and returns an \<open>option\<close>: \<^const>\<open>None\<close> is what C leaves undefined or what \<^verbatim>\<open>unreachable()\<close> marks, an index out of range, an
  access outside allocated memory, so a theorem that a result is \<^const>\<open>Some\<close> excludes these. Errors that the code reports are values.
  The arena and the pool of contexts are a memory of bytes (\<open>Memory\<close>), because the free lists lie in the free blocks themselves.
  Loops are structural recursion over the list of indices they run through, or \<open>function\<close>s with a measure; the two loops of the
  hash table that might not end have their own treatment: the search for a free slot is \<^const>\<open>None\<close> exactly when every slot is
  taken (\<open>find_free_slot_terminates\<close>). No fuel is used anywhere else. What the code takes from outside is an argument: the clock, the
  headers and the address of a request and whether libmicrohttpd takes a response (\<open>mhd_call\<close>), the generated
  translations and the build options (\<open>config\<close>), what \<^verbatim>\<open>main\<close> gets from the system (\<open>startup_env\<close>).

  \<^bold>\<open>The theories.\<close>
  \<^item> \<open>Prelude\<close>: types, checked access to arrays, the named collections. \<open>Keys\<close>: ids, their hash, \<^verbatim>\<open>ilog2_u64\<close> (\<^verbatim>\<open>types.h\<close>, \<^verbatim>\<open>storage.c\<close>).
  \<^item> \<open>Linear_Probing\<close>: \<^verbatim>\<open>lp_lookup\<close>, \<^verbatim>\<open>lp_find_free_slot\<close>, \<^verbatim>\<open>lp_erase\<close> with its backward shift. \<open>Key_Table\<close> is the contract of
    such a table as a locale (put, find, erase against a map), interpreted on the three arrays.
  \<^item> \<open>Memory\<close>: bytes, pointers, \<^verbatim>\<open>secure_zero\<close>. \<open>Balloc\<close>: \<^verbatim>\<open>binit\<close>, \<^verbatim>\<open>bindex\<close>, \<^verbatim>\<open>balloc\<close>, \<^verbatim>\<open>bfree\<close>. \<open>Block_Pool\<close> is the contract of a
    pool of blocks as a locale, interpreted on the arena and, in \<open>Ctxalloc\<close>, on the pool of contexts.
  \<^item> \<open>Storage\<close>: \<^verbatim>\<open>storage.c\<close>, function by function. \<open>Storage_Inv\<close>: the invariant, and that create, publish, abort, get and free keep it.
    \<open>Reaper\<close>: the same for \<^verbatim>\<open>storage_reaper\<close>. \<open>Storage_Life\<close>: \<^verbatim>\<open>storage_init\<close>, \<^verbatim>\<open>storage_zero\<close> and the copying of bytes into a
    blob. \<open>Blob_Store\<close>: the store as a map from ids to bytes and expiry time, and every operation as an operation of the map;
    its contract is a locale with an interpretation. \<open>Small_Store\<close>: a store of sixteen slots for the examples.
  \<^item> \<open>Reaper_Simd\<close>: the reaper with AVX2 and its equality with the scalar one. \<open>Storage_Status\<close>: what \<^verbatim>\<open>storage_status\<close> counts.
  \<^item> \<open>Hex_Id\<close>: \<^verbatim>\<open>id_hex_to_bytes\<close> and the string functions of C. \<open>Debouncer\<close>: \<^verbatim>\<open>debouncer.h\<close>. \<open>Assets\<close>: the search of a page by its URL.
    \<open>Scan\<close>: \<^verbatim>\<open>find_16\<close> in its scalar, SSE, AVX2 and NEON forms. \<open>Translate\<close>: the translation of the pages. \<open>Files\<close>: reading
    files, \<^verbatim>\<open>assets_load\<close>, \<^verbatim>\<open>tls_data_load\<close>.
  \<^item> \<open>Handler\<close>: \<^verbatim>\<open>ahc\<close> with every branch, \<^verbatim>\<open>send_response\<close>, \<^verbatim>\<open>req_done\<close>. \<open>System\<close>: the invariant of the server and the requests that
    are open, and the abstract map of secrets. \<open>Requests\<close>: every branch of the handler keeps the invariant and makes one
    step of the map. \<open>Service\<close>: the step relation of the running server, its runs, the refinement. \<open>Exchange\<close>: an upload and a
    download followed call by call.
  \<^item> \<open>Startup\<close>: the arguments and \<^verbatim>\<open>main\<close> up to the daemon. \<open>Guarantees\<close>: the properties of the service from the start on.
    \<open>Shutdown\<close>: the main loop, the cleanup and the whole of \<^verbatim>\<open>main\<close>. \<open>Responses\<close>: statuses, headers, refused uploads.
    \<open>Logging\<close>: \<^verbatim>\<open>log.c\<close> and \<^verbatim>\<open>log.h\<close>.

  \<^bold>\<open>What is shown.\<close> For the service: every call returns in every reachable state (\<open>service_safe\<close>); every history is a history of
  the map of secrets (\<open>service_refines\<close>), so what is fetched was posted, and at most once (\<open>delivered_once\<close>); an upload that finds room
  is delivered (\<open>exchange_delivers\<close>); requests that end early leave nothing behind (\<open>nothing_left_behind\<close>); uploads that find no room or a
  taken id are refused without a trace (\<open>upload_refused\<close>); the exit erases everything (\<open>main_exit_wipes\<close>). For the store, in
  this theory: the life of a blob, one property for each operation, the table and the allocator. For the rest: what is parsed,
  scanned, translated and loaded, against specifications that do not mention the loops.

  \<^bold>\<open>Assumptions.\<close> The number of slots is a power of two, as \<^verbatim>\<open>linear_probing.h\<close> demands; memory that the system hands out does not
  start at 0 and does not wrap around; the URL has no zero byte; the clock stays one hour below its last two values, which
  are the marks for empty slots and unpublished blobs (136 years after boot); libmicrohttpd calls the handler again only for
  requests that are not answered, and ends each request once.

  \<^bold>\<open>Not modelled.\<close> The counters and zones behind \<^verbatim>\<open>STATISTICS\<close> and \<^verbatim>\<open>TRACY_ENABLE\<close>, which nothing reads but the log; \<^verbatim>\<open>debug_stuff.h\<close>, which
  prints requests in debug builds; the system calls themselves, the arguments of \<^verbatim>\<open>MHD_start_daemon\<close>, signals, \<^verbatim>\<open>epoll\<close> and the timer, of which
  the main loop only sees which descriptor is ready; the time until the next wake-up, which the interleaving in
  the step relation makes irrelevant; the test of the table, the browser client and the scripts of the build.
\<close>

section \<open>The blob store\<close>

lemma items_free_zero:
  assumes "storage_inv s out" "i < 11"
  shows "bbucket_items_free (balloc_data s) (of_nat i) = Some 0 \<longleftrightarrow>
    bucket_list (balloc_data s) (memory s) i = []"
proof -
  note b = pool_invD(1) [OF storage_invD(6) [OF assms(1)]]
  have "bbucket_items_free (balloc_data s) (of_nat i) = Some (ucast (bucket_free (balloc_data s ! i)))"
    using balloc_invD(1) [OF b] assms(2) by (simp add: bbucket_items_free_def unat_bucket)
  then show ?thesis using balloc_invD(8) [OF b assms(2)] by (auto simp: ucast_u64_eq_0)
qed

text \<open>
  C9: what the creator of a blob writes and publishes is what the reader gets, if the reader
  comes before the reaper has passed the expiry time; once the reader's block is freed its bytes are
  erased, the store is as tidy as before, and the id is not found any more.
\<close>

theorem deposit_then_collect:
  assumes "storage_inv s out" "\<not> key_is_null k" "blob_at s k = None"
    and "2 \<le> length secret" "length secret \<le> 2 ^ 17"
    and "storage_blob_create s k (of_nat (length secret)) = Some (b, s1)" "b \<noteq> null_blk"
    and "t \<noteq> VALID_UNTIL_NOT_PUBLISHED" "now \<le> t" "now \<noteq> VALID_UNTIL_EMPTY"
  shows "\<exists>s2 s3 s4 b' s5 s6. blob_write s1 b 0 secret = Some s2 \<and>
    storage_blob_publish s2 k t = Some (True, s3) \<and> storage_reaper s3 now = Some s4 \<and>
    storage_blob_get s4 k = Some (b', s5) \<and> contents s5 b' = Some secret \<and>
    storage_blob_free s5 b' = Some s6 \<and> erased s6 b' \<and> storage_inv s6 out \<and>
    storage_blob_get s6 k = Some (null_blk, s6)"
  using st.deposit_collect [OF assms(1-3) conjI [OF assms(4,5)] assms(6-)] .

theorem deposit_then_collect_witness:
  "\<exists>s s1 b s2 s3 s4 b' s5 s6. storage_init (Some 4096) True 16 = Some (Inr s) \<and>
    storage_blob_create s small_key 50 = Some (b, s1) \<and>
    blob_write s1 b 0 (replicate 50 7) = Some s2 \<and>
    storage_blob_publish s2 small_key 100 = Some (True, s3) \<and> storage_reaper s3 60 = Some s4 \<and>
    storage_blob_get s4 small_key = Some (b', s5) \<and> contents s5 b' = Some (replicate 50 7) \<and>
    storage_blob_free s5 b' = Some s6 \<and> storage_blob_get s6 small_key = Some (null_blk, s6)"
proof -
  obtain s s1 b where s: "storage_init (Some 4096) True 16 = Some (Inr s)" "storage_inv s {}"
      "blob_at s = Map.empty" "storage_blob_create s small_key 50 = Some (b, s1)" "b \<noteq> null_blk"
    by (rule small_store_created) (rule that)
  show ?thesis
    using deposit_then_collect [OF s(2) small_key_ok, of "replicate 50 7" b s1 100 60] s
    by (fastforce simp: small_time)
qed

text \<open>
  C10: a secret is handed out once. Whatever \<^verbatim>\<open>storage_blob_get\<close> returns for an id, the next call
  for it returns the null block and changes nothing.
\<close>

theorem read_once:
  assumes "storage_inv s out" "storage_blob_get s k = Some (b, s')"
  shows "storage_blob_get s' k = Some (null_blk, s')"
  using st.fetch_once [OF assms] .

theorem read_once_witness:
  "\<exists>s b s'. storage_inv s {} \<and> storage_blob_get s small_key = Some (b, s') \<and> b \<noteq> null_blk \<and>
    storage_blob_get s' small_key = Some (null_blk, s')"
proof -
  obtain s b c where s: "storage_inv s {}" "blob_at s = [small_key \<mapsto> (c, 100)]"
    by (rule small_store_published) (rule that)
  have "blob_at s small_key = Some (c, 100)" using s(2) by simp
  then obtain b s' where "storage_blob_get s small_key = Some (b, s')" "b \<noteq> null_blk"
    by (rule get_some_map [OF s(1) _ small_time(1)]) (rule that)
  then show ?thesis using read_once [OF s(1)] s(1) by blast
qed

text \<open>
  C11: \<^verbatim>\<open>storage_blob_create\<close> for an id that is not in the store. It fails, without any effect, exactly
  for the null id, when the table is full, and when the bucket of the size has no free block;
  otherwise the id gets a block of the size asked for, unpublished, and every other blob is as before.
\<close>

theorem create_spec:
  assumes "storage_inv s out" "blob_at s k = None" "size_ok sz"
  shows "\<exists>b s'. storage_blob_create s k sz = Some (b, s') \<and> storage_inv s' out \<and>
    (if key_is_null k \<or> htable_free s = 0 \<or>
        bbucket_items_free (balloc_data s) (of_nat (bucket_of sz)) = Some 0
     then b = null_blk \<and> s' = s
     else blk_size b = sz \<and> b \<noteq> null_blk \<and> owned_block s' k = Some b \<and> memory s' = memory s \<and>
       (\<exists>c. length c = unat sz \<and> blob_at s' = (blob_at s)(k \<mapsto> (c, VALID_UNTIL_NOT_PUBLISHED))))"
proof (cases "key_is_null k \<or> htable_free s = 0 \<or> bucket_list (balloc_data s) (memory s) (bucket_of sz) = []")
  case True
  then have "storage_blob_create s k sz = Some (null_blk, s)"
    using create_null_key create_fails [OF assms] by blast
  then show ?thesis using True items_free_zero [OF assms(1) bucket_of_ok(1) [OF assms(3)]] assms(1) by simp
next
  case False
  then show ?thesis
    using create_map [OF assms(1) _ assms(2,3)] items_free_zero [OF assms(1) bucket_of_ok(1) [OF assms(3)]]
    by (smt (verit))
qed

theorem create_spec_witness:
  "\<exists>s b s'. storage_init (Some 4096) True 16 = Some (Inr s) \<and>
    storage_blob_create s small_key 50 = Some (b, s') \<and> storage_inv s' {}"
proof -
  obtain s where s: "storage_init (Some 4096) True 16 = Some (Inr s)" "storage_inv s {}"
      "blob_at s = Map.empty"
    by (rule small_store) (rule that)
  show ?thesis using create_spec [OF s(2) _ size_ok_small, of small_key] s(1,3) by auto
qed

text \<open>
  C12: the reaper. Unless the clock shows its very last value, \<^verbatim>\<open>storage_reaper\<close> never reaches
  \<^verbatim>\<open>unreachable()\<close>, removes exactly the blobs whose expiry time has passed, erases their bytes, and
  leaves every other blob and every block that is with a reader as it is.
\<close>

theorem reaper_spec:
  assumes "storage_inv s out" "now \<noteq> VALID_UNTIL_EMPTY"
  shows "\<exists>s'. storage_reaper s now = Some s' \<and> storage_inv s' out \<and>
    blob_at s' = live_at now (blob_at s) \<and> (\<forall>b\<in>out. contents s' b = contents s b) \<and>
    (\<forall>k c t b. blob_at s k = Some (c, t) \<longrightarrow> t < now \<longrightarrow> owned_block s k = Some b \<longrightarrow> erased s' b)"
  by (rule reap_map [OF assms]) auto

theorem reaper_spec_witness:
  "\<exists>s s'. blob_at s small_key \<noteq> None \<and> storage_reaper s 200 = Some s' \<and> blob_at s' small_key = None \<and>
    (\<exists>s''. storage_reaper s 60 = Some s'' \<and> blob_at s'' small_key = blob_at s small_key)"
proof -
  obtain s b c where s: "storage_inv s {}" "blob_at s = [small_key \<mapsto> (c, 100)]"
    by (rule small_store_published) (rule that)
  obtain s' where s': "storage_reaper s 200 = Some s'" "blob_at s' = live_at 200 (blob_at s)"
    using reaper_spec [OF s(1) small_time(3)] by blast
  obtain s'' where s'': "storage_reaper s 60 = Some s''" "blob_at s'' = live_at 60 (blob_at s)"
    using reaper_spec [OF s(1) small_time(2)] by blast
  show ?thesis
    by (intro exI [of _ s] exI [of _ s'] conjI exI [of _ s''])
      (simp_all add: s' s'' s(2) live_at_def)
qed

text \<open>
  C14: \<^verbatim>\<open>storage_blob_abort\<close>. The id is gone afterwards, whether or not it was there, the bytes of its
  block are erased and the block is free again; nothing else changes.
\<close>

theorem abort_spec:
  assumes "storage_inv s out"
  shows "\<exists>s'. storage_blob_abort s k = Some s' \<and> storage_inv s' out \<and>
    blob_at s' = (blob_at s)(k := None) \<and> (\<forall>b\<in>out. contents s' b = contents s b) \<and>
    (\<forall>b. owned_block s k = Some b \<longrightarrow> erased s' b)"
  by (rule abort_map [OF assms, of k]) auto

theorem abort_spec_witness:
  "\<exists>s s' b. owned_block s small_key = Some b \<and> storage_blob_abort s small_key = Some s' \<and>
    erased s' b \<and> blob_at s' = Map.empty"
proof -
  obtain s b c where s: "storage_inv s {}" "owned_block s small_key = Some b"
      "blob_at s = [small_key \<mapsto> (c, 100)]"
    by (rule small_store_published) (rule that)
  show ?thesis using abort_spec [OF s(1), of small_key] s(2,3) by auto
qed

text \<open>
  C15: \<^verbatim>\<open>storage_blob_free\<close> of a block that a reader holds: all its bytes are zero but for the eight of
  the free list, and no other blob and no other reader's block changes.
\<close>

theorem free_spec:
  assumes "storage_inv s out" "b \<in> out"
  shows "\<exists>s'. storage_blob_free s b = Some s' \<and> storage_inv s' (out - {b}) \<and> blob_at s' = blob_at s \<and>
    erased s' b \<and> (\<forall>b'\<in>out - {b}. contents s' b' = contents s b')"
  by (rule free_map [OF assms]) auto

theorem free_spec_witness:
  "\<exists>s b s'. storage_inv s {b} \<and> storage_blob_free s b = Some s' \<and> erased s' b"
proof -
  obtain s b c where s: "storage_inv s {}" "blob_at s = [small_key \<mapsto> (c, 100)]"
    by (rule small_store_published) (rule that)
  have "blob_at s small_key = Some (c, 100)" using s(2) by simp
  then obtain b s' where "storage_inv s' (insert b {})"
    by (rule get_some_map [OF s(1) _ small_time(1)]) (rule that)
  then show ?thesis using free_spec [of s' "{b}" b] by blast
qed

text \<open>
  C16: \<^verbatim>\<open>storage_blob_get\<close> on every branch. An id that is absent or not published gives the null block
  and no effect. A published one gives a block that nobody holds, with the published contents, and the
  id is gone.
\<close>

theorem get_spec:
  assumes "storage_inv s out"
  shows "case blob_at s k of
      None \<Rightarrow> storage_blob_get s k = Some (null_blk, s)
    | Some (c, t) \<Rightarrow>
        if t = VALID_UNTIL_NOT_PUBLISHED then storage_blob_get s k = Some (null_blk, s)
        else \<exists>b s'. storage_blob_get s k = Some (b, s') \<and> b \<notin> out \<and> size_ok (blk_size b) \<and>
          storage_inv s' (insert b out) \<and> contents s' b = Some c \<and> memory s' = memory s \<and>
          blob_at s' = (blob_at s)(k := None)"
proof (cases "blob_at s k = None \<or> (\<exists>c. blob_at s k = Some (c, VALID_UNTIL_NOT_PUBLISHED))")
  case True
  then show ?thesis using get_none_map [OF assms True] by auto
next
  case False
  then obtain c t where k: "blob_at s k = Some (c, t)" "t \<noteq> VALID_UNTIL_NOT_PUBLISHED"
    by (cases "blob_at s k") auto
  show ?thesis by (rule get_some_map [OF assms k]) (auto simp: k)
qed

theorem get_spec_witness:
  "\<exists>s c b s'. blob_at s small_key = Some (c, 100) \<and> storage_blob_get s small_key = Some (b, s') \<and>
    contents s' b = Some c"
proof -
  obtain s b c where s: "storage_inv s {}" "blob_at s = [small_key \<mapsto> (c, 100)]"
    by (rule small_store_published) (rule that)
  then have k: "blob_at s small_key = Some (c, 100)" by simp
  then show ?thesis using get_spec [OF s(1), of small_key] small_time(1) by auto
qed

text \<open>
  C17: \<^verbatim>\<open>storage_blob_publish\<close> sets the expiry time of an id that is there and says whether it is; the
  contents of all blobs stay.
\<close>

theorem publish_spec:
  assumes "storage_inv s out"
  shows "\<exists>s'. storage_blob_publish s k t = Some (blob_at s k \<noteq> None, s') \<and> storage_inv s' out \<and>
    memory s' = memory s \<and>
    blob_at s' = (\<lambda>j. if j = k then map_option (\<lambda>(c, _). (c, t)) (blob_at s k) else blob_at s j)"
  by (rule publish_map [OF assms, of k t]) (auto simp: domIff)

theorem publish_spec_witness:
  "\<exists>s s'. storage_init (Some 4096) True 16 = Some (Inr s) \<and>
    storage_blob_publish s small_key 100 = Some (False, s')"
proof -
  obtain s where s: "storage_init (Some 4096) True 16 = Some (Inr s)" "storage_inv s {}"
      "blob_at s = Map.empty"
    by (rule small_store) (rule that)
  show ?thesis using publish_spec [OF s(2), of small_key 100] s(1,3) by auto
qed

text \<open>
  C18: \<^verbatim>\<open>storage_init\<close>. For a power of two and any block that \<^verbatim>\<open>posix_memalign\<close> may return it gives a
  store that is empty, satisfies the invariant, and whose arena ends, with the buckets behind it, exactly at
  the end of the allocation.
\<close>

theorem init_spec:
  assumes "pow2_size n" "allocated_ok p n"
  shows "\<exists>s. storage_init (Some p) True n = Some (Inr s) \<and> storage_inv s {} \<and> blob_at s = Map.empty \<and>
    htable_free s = n \<and> arena s = p + 52 * unat n \<and>
    arena s + arena_size + unat buckets_byte_size = p + unat (blk_size (mallocated_data s))"
proof -
  obtain s where s: "storage_init (Some p) True n = Some (Inr s)" "storage_inv s {}"
      "tab_view (tab s) = Map.empty" "htable_free s = n" "arena s = p + 52 * unat n"
      "mallocated_data s = \<lparr>blk_data = p, blk_size = storage_size_total n\<rparr>"
    using init_ok [OF assms] by metis
  have "blob_at s = Map.empty" using s(3) by (simp add: blob_at_def fun_eq_iff)
  moreover have "arena_size + unat buckets_byte_size = unat bfootprint"
    by (simp add: bfootprint_eq arena_size_def buckets_byte_size_def balloc_consts)
  ultimately show ?thesis using s unat_parts(2) [OF assms(2)] by auto
qed

theorem init_spec_witness:
  "\<exists>s. storage_init (Some 4096) True 16 = Some (Inr s) \<and> storage_inv s {} \<and> arena s = 4928"
  using init_spec [OF allocated_small(2,1)] by auto

text \<open>
  \<^verbatim>\<open>storage_zero\<close> counts the secrets it drops and leaves no byte of the arena, no id and no block
  pointer.
\<close>

lemma zero_spec:
  assumes "storage_inv s out"
  shows "\<exists>s'. storage_zero s = Some (of_nat (card (dom (blob_at s))), s') \<and>
    (\<forall>x\<in>{arena s..<arena s + arena_size}. memory s' x = Some 0) \<and>
    (\<forall>k\<in>set (blob_ids (tab s')). k = null_key) \<and> (\<forall>k\<in>set (blob_ids_invalid s'). k = null_key) \<and>
    (\<forall>b\<in>set (blob_data (tab s')). b = null_blk)"
proof -
  have "card (dom (blob_at s)) = tab_used (tab s)"
    using dom_blob_at [OF assms] card_dom_tab_view tab_invD(2,4) [OF storage_invD(1) [OF assms]] by simp
  then obtain s' where "storage_zero s = Some (of_nat (card (dom (blob_at s))), s')"
      "\<And>x. x \<in> bytes (arena s) arena_size \<Longrightarrow> memory s' x = Some 0"
      "\<forall>k\<in>set (blob_ids (tab s')). k = null_key" "\<forall>b\<in>set (blob_data (tab s')). b = null_blk"
      "\<forall>k\<in>set (blob_ids_invalid s'). k = null_key"
    using zero_ok [OF assms] by metis
  then show ?thesis by blast
qed


section \<open>The hash table\<close>

text \<open>The table of the small store with one blob.\<close>

lemma small_tab:
  obtains t e where "tab_inv htable_hash 16 t" "tab_view t small_key = Some e" "tab_used t = 1"
    "dom (tab_view t) = {small_key}"
proof -
  obtain s b c where s: "storage_inv s {}" "owned_block s small_key = Some b"
      "blob_at s = [small_key \<mapsto> (c, 100)]" "htable_size s = 16"
    by (rule small_store_published) (rule that)
  note i = storage_invD(1) [OF s(1)]
  have d: "dom (tab_view (tab s)) = {small_key}" using dom_blob_at [OF s(1)] s(3) by simp
  then have "tab_used (tab s) = 1"
    using card_dom_tab_view [OF tab_invD(2,4) [OF i]] by simp
  then show ?thesis using that i d s(2,4) by (auto simp: owned_block_def)
qed

text \<open>
  C20: \<^verbatim>\<open>lp_lookup\<close> finds the slot of a key exactly if the key is in the table, for any hash function,
  and returns the table size otherwise.
\<close>

theorem lookup_spec:
  assumes "tab_inv hash n t"
  shows "\<exists>i. lp_lookup hash (blob_ids t) k n = Some i \<and>
    (case tab_view t k of None \<Rightarrow> i = n
     | Some e \<Rightarrow> i < n \<and> blob_ids t ! unat i = k \<and> e = (blob_data t ! unat i, blob_valid_until t ! unat i))"
proof (cases "tab_view t k")
  case None
  then show ?thesis using tab_find_miss [OF assms] by simp
next
  case (Some e)
  obtain p where "p < unat n" "blob_ids t ! p = k" "e = (blob_data t ! p, blob_valid_until t ! p)"
      "lp_lookup hash (blob_ids t) k n = Some (of_nat p)"
    using assms Some by (rule tab_find_hit)
  then show ?thesis using Some unat_of_nat_slot [of p n] by (simp add: word_less_nat_alt)
qed

theorem lookup_spec_witness:
  "\<exists>(t :: htab) i. lp_lookup htable_hash (blob_ids t) small_key 16 = Some i \<and> i < 16 \<and>
    blob_ids t ! unat i = small_key"
proof -
  obtain t e where t: "tab_inv htable_hash 16 t" "tab_view t small_key = Some e"
    by (rule small_tab) (rule that)
  show ?thesis using lookup_spec [OF t(1), of small_key] unfolding t(2) option.case by blast
qed

text \<open>
  C21: \<^verbatim>\<open>lp_erase\<close> at the slot of a key removes that key and no other, although it moves other
  entries: the table stays well-formed and every other key keeps its block and its time.
\<close>

theorem erase_spec:
  assumes "tab_inv hash n t" "lp_lookup hash (blob_ids t) k n = Some i" "i \<noteq> n"
  shows "\<exists>t' hole. lp_erase hash t i n = Some (t', hole) \<and> tab_inv hash n t' \<and>
    tab_view t' = (tab_view t)(k := None) \<and> tab_used t = Suc (tab_used t') \<and>
    blob_ids t' ! unat hole = null_key \<and> blob_data t' ! unat hole = blob_data t ! unat i"
proof -
  obtain e where e: "tab_view t k = Some e" using assms tab_find_miss by fastforce
  obtain p where p: "p < unat n" "occ (blob_ids t) p" "blob_ids t ! p = k"
      "lp_lookup hash (blob_ids t) k n = Some (of_nat p)"
    using assms(1) e by (rule tab_find_hit)
  have "i = of_nat p" "unat i = p" using p assms(2) unat_of_nat_slot [OF p(1)] by auto
  moreover obtain t' hole where "lp_erase hash t (of_nat p) n = Some (t', of_nat hole)" "hole < unat n"
      "tab_inv hash n t'" "tab_view t' = (tab_view t)(blob_ids t ! p := None)"
      "tab_used t = Suc (tab_used t')" "blob_ids t' ! hole = null_key"
      "blob_data t' ! hole = blob_data t ! p"
    by (rule tab_erase [OF assms(1) p(1,2)]) (rule that)
  ultimately show ?thesis
    using p(3) unat_of_nat_slot by (intro exI [of _ t'] exI [of _ "of_nat hole"]) simp
qed

theorem erase_spec_witness:
  "\<exists>t i t' hole. lp_lookup htable_hash (blob_ids t) small_key 16 = Some i \<and> i \<noteq> 16 \<and>
    lp_erase htable_hash t i 16 = Some (t', hole) \<and> tab_view t' small_key = None"
proof -
  obtain t e where t: "tab_inv htable_hash 16 t" "tab_view t small_key = Some e"
    by (rule small_tab) (rule that)
  obtain p where p: "lp_lookup htable_hash (blob_ids t) small_key 16 = Some (of_nat p)" "of_nat p \<noteq> (16 :: u64)"
    using t by (rule tab_find_hit)
  then show ?thesis using erase_spec [OF t(1) p] by fastforce
qed

text \<open>
  C22: a new key goes into the slot that \<^verbatim>\<open>lp_find_free_slot\<close> returns; it is found there afterwards and
  erasing it gives the map from before.
\<close>

theorem insert_spec:
  assumes "tab_inv hash n t" "\<not> key_is_null k" "tab_view t k = None" "tab_used t < unat n"
  shows "\<exists>i t' j t'' h. lp_find_free_slot hash (blob_ids t) k n = Some i \<and> tab_put t i k e = Some t' \<and>
    tab_inv hash n t' \<and> tab_view t' = (tab_view t)(k \<mapsto> e) \<and>
    lp_lookup hash (blob_ids t') k n = Some j \<and> lp_erase hash t' j n = Some (t'', h) \<and>
    tab_inv hash n t'' \<and> tab_view t'' = tab_view t"
proof -
  obtain i t' where i: "lp_find_free_slot hash (blob_ids t) k n = Some i" "tab_put t i k e = Some t'"
    using lp.slot_put [OF assms, of e] by blast
  then obtain j where j: "lp_lookup hash (blob_ids t') k n = Some j"
    using lp.put_find [OF assms i] by blast
  show ?thesis using lp.put_find [OF assms i] lp.put_erase [OF assms i j] i j by blast
qed

theorem insert_spec_witness:
  "\<exists>t i t' k. k \<noteq> small_key \<and> lp_find_free_slot htable_hash (blob_ids t) k 16 = Some i \<and>
    tab_put t i k (null_blk, 3) = Some t' \<and> tab_view t' small_key = tab_view t small_key"
proof -
  define k where "k = \<lparr>key_h = 5, key_l = 5\<rparr>"
  have k: "k \<noteq> small_key" "\<not> key_is_null k"
    by (simp_all add: k_def small_key_def key_is_null_iff null_key_def)
  obtain t e where t: "tab_inv htable_hash 16 t" "tab_used t = 1" "dom (tab_view t) = {small_key}"
    by (rule small_tab) (rule that)
  have "tab_view t k = None" using t(3) k(1) by (metis domIff singletonD)
  then show ?thesis
    using insert_spec [OF t(1) k(2), of "(null_blk, 3)"] t(2) k(1) by fastforce
qed

text \<open>
  C23: the loop of \<^verbatim>\<open>lp_find_free_slot\<close> ends exactly if some slot is free, which the comment on its
  prototype asks of the caller.
\<close>

theorem find_free_slot_terminates:
  assumes "pow2_size n" "length ks = unat n"
  shows "lp_find_free_slot hash ks k n \<noteq> None \<longleftrightarrow> (\<exists>p<unat n. key_is_null (ks ! p))"
proof
  assume "lp_find_free_slot hash ks k n \<noteq> None"
  then show "\<exists>p<unat n. key_is_null (ks ! p)"
    using lp_find_free_slot_free [of hash ks k n] assms(2) by (auto simp: occ_def)
next
  assume "\<exists>p<unat n. key_is_null (ks ! p)"
  then obtain p where "p < length ks" "\<not> occ ks p" using assms(2) by (auto simp: occ_def)
  then show "lp_find_free_slot hash ks k n \<noteq> None"
    using lp_find_free_slot_scan [OF assms] by (metis option.distinct(1))
qed

theorem find_free_slot_terminates_witness:
  "lp_find_free_slot (\<lambda>_. 1) [small_key, small_key] small_key 2 = None"
  using find_free_slot_terminates [of 2 "[small_key, small_key]" "\<lambda>_. 1" small_key] small_key_ok
  by (auto simp: pow2_sizeI [of 1] less_2_cases_iff)


section \<open>The block allocator\<close>

text \<open>
  C24: starting from what \<^verbatim>\<open>binit\<close> sets up, a client that asks for sizes of 2 bytes to 128 KiB and frees
  only what it holds never makes \<^verbatim>\<open>balloc\<close> or \<^verbatim>\<open>bfree\<close> touch memory outside the arena, and no two blocks it
  holds share a byte.
\<close>

theorem allocator_run:
  assumes "0 < base" "base + arena_size < 2 ^ 64" "{base..<base + arena_size} \<subseteq> dom m"
    and "\<forall>e\<in>set es. case e of Inl sz \<Rightarrow> size_ok sz | Inr _ \<Rightarrow> True"
  shows "\<exists>ba m' s' held. binit m base = Some (ba, m') \<and> bp.run es (ba, m') [] = Some (s', held) \<and>
    distinct held \<and> (\<forall>b\<in>set held. \<forall>b'\<in>set held. b \<noteq> b' \<longrightarrow> extent b \<inter> extent b' = {})"
proof -
  obtain ba m' where "binit m base = Some (ba, m')" "pool_inv base ba m' ({} :: (unit \<times> blk_t) set)"
    using pool_init [OF assms(1-3)] by metis
  then show ?thesis using bp.run_disjoint [of base "(ba, m')", OF _ assms(4)] by auto
qed

theorem allocator_run_witness:
  "\<exists>ba m' s' held. binit (\<lambda>x. Some 0) 4096 = Some (ba, m') \<and>
    bp.run [Inl 46, Inl 131072, Inr 0, Inl 128] (ba, m') [] = Some (s', held) \<and> distinct held"
  using allocator_run [of 4096 "\<lambda>x. Some 0" "[Inl 46, Inl 131072, Inr 0, Inl 128]"]
  by (auto simp: arena_size_def size_ok_def)

text \<open>
  the bucket of a size. \<^verbatim>\<open>bindex\<close> is in range, the items of the bucket are large enough, and those of
  the bucket below are too small.
\<close>

lemma bindex_spec:
  assumes "size_ok sz"
  shows "\<exists>i. bindex sz = Some i \<and> i < BUCKETS_COUNT \<and> sz \<le> bbucket_item_size_max i \<and>
    (0 < i \<longrightarrow> bbucket_item_size_max (i - 1) < sz)"
proof -
  obtain i where i: "i < 11" "bindex sz = Some (of_nat i)" "unat sz \<le> 2 ^ (7 + i)"
      "0 < i \<Longrightarrow> 2 ^ (6 + i) < unat sz"
    using assms bindex_fits [of sz] unfolding size_ok_def by metis
  have item: "unat (bbucket_item_size_max (of_nat j)) = 2 ^ (7 + j)" if "j < 11" for j
  proof -
    have "unat (7 + of_nat j :: u64) = 7 + j" using that unat_of_nat_small [of "7 + j"] by simp
    moreover have "unat (2 ^ (7 + j) :: u64) = 2 ^ (7 + j)" using that by (intro unat_two_power) simp
    ultimately show ?thesis
      by (simp add: bbucket_item_size_max_def LOG_MIN_def push_bit_eq_mult)
  qed
  have "of_nat i < BUCKETS_COUNT"
    using i(1) unat_bucket [OF i(1)] by (simp add: word_less_nat_alt balloc_consts)
  moreover have "sz \<le> bbucket_item_size_max (of_nat i)"
    using i(3) item [OF i(1)] by (simp add: word_le_nat_alt)
  moreover have "bbucket_item_size_max (of_nat i - 1) < sz" if "0 < (of_nat i :: u64)"
  proof -
    have "0 < i" using that by (cases i) auto
    then have "(of_nat i - 1 :: u64) = of_nat (i - 1)" by (simp add: of_nat_diff)
    then show ?thesis
      using item [of "i - 1"] i(1,4) \<open>0 < i\<close> by (simp add: word_less_nat_alt)
  qed
  ultimately show ?thesis using i(2) by blast
qed

end
